(* ===== verification/Prelude.thy ===== *)
theory Prelude
  imports Complex_Main "HOL-Library.Word" "HOL-Library.Signed_Division" "HOL-Library.AList"
begin

text \<open>
  Shared ground of the development: the 64-bit integers of the program (Go's \<open>int\<close>,
  \<open>int64\<close> and \<open>time.Duration\<close>), kept as mathematical integers with the wrap-around
  or the saturation written out at the operations that can leave the range, and the
  association lists that stand for the program's maps.
\<close>

named_theorems go_int \<open>64-bit integer arithmetic that stays in range\<close>

section \<open>64-bit integers\<close>

definition int64_min :: int where "int64_min = - 9223372036854775808"
definition int64_max :: int where "int64_max = 9223372036854775807"

definition in_int64 :: "int \<Rightarrow> bool" where
  "in_int64 i \<longleftrightarrow> int64_min \<le> i \<and> i \<le> int64_max"

text \<open>The value an \<open>int64\<close> operation yields when its exact result is \<open>i\<close>.\<close>

definition wrap64 :: "int \<Rightarrow> int" where
  "wrap64 i = (i + 9223372036854775808) mod 18446744073709551616 - 9223372036854775808"

text \<open>The saturating reading, used by \<open>time.Time.Sub\<close>.\<close>

definition sat64 :: "int \<Rightarrow> int" where
  "sat64 i = (if i < int64_min then int64_min else if int64_max < i then int64_max else i)"

lemma wrap64_range: "in_int64 (wrap64 i)"
  unfolding in_int64_def wrap64_def int64_min_def int64_max_def
  using pos_mod_bound [of 18446744073709551616 "i + 9223372036854775808"]
    pos_mod_sign [of 18446744073709551616 "i + 9223372036854775808"] by linarith

lemma wrap64_id [go_int]: "in_int64 i \<Longrightarrow> wrap64 i = i"
  unfolding in_int64_def wrap64_def int64_min_def int64_max_def
  by (subst mod_pos_pos_trivial) auto

lemma wrap64_sint: "wrap64 i = sint (word_of_int i :: 64 word)"
proof -
  have "sint (word_of_int i :: 64 word) = signed_take_bit 63 i"
    by (simp add: signed_of_int)
  then show ?thesis
    by (simp add: wrap64_def signed_take_bit_eq_take_bit_shift take_bit_eq_mod)
qed

lemma int64_small: "0 \<le> i \<Longrightarrow> i \<le> 2 ^ 53 \<Longrightarrow> in_int64 i"
  by (simp add: in_int64_def int64_min_def int64_max_def)

lemma int64_between: "0 \<le> i \<Longrightarrow> i \<le> j \<Longrightarrow> in_int64 j \<Longrightarrow> in_int64 i"
  by (auto simp: in_int64_def int64_min_def)

lemma sat64_range: "in_int64 (sat64 i)"
  by (simp add: sat64_def in_int64_def int64_min_def int64_max_def)

lemma sat64_id [go_int]: "in_int64 i \<Longrightarrow> sat64 i = i"
  by (auto simp: sat64_def in_int64_def)

lemma sat64_mono: "i \<le> j \<Longrightarrow> sat64 i \<le> sat64 j"
  by (auto simp: sat64_def int64_min_def int64_max_def)

lemma sat64_pos: "0 < i \<Longrightarrow> 0 < sat64 i"
  by (auto simp: sat64_def int64_min_def int64_max_def)

lemma sat64_le: "0 \<le> i \<Longrightarrow> sat64 i \<le> i"
  by (auto simp: sat64_def int64_min_def int64_max_def)

text \<open>Go's integer division truncates towards zero, as \<open>sdiv\<close> does.\<close>

lemma sdiv_pos: "0 \<le> (a::int) \<Longrightarrow> 0 < b \<Longrightarrow> a sdiv b = a div b"
  by (cases "a = 0") (auto simp: signed_divide_int_def)

lemma smod_pos: "0 \<le> (a::int) \<Longrightarrow> 0 < b \<Longrightarrow> a smod b = a mod b"
  by (cases "a = 0") (auto simp: signed_modulo_int_def)

section \<open>Association lists as the program's maps\<close>

lemma length_update_fresh: "map_of m k = None \<Longrightarrow> length (AList.update k v m) = Suc (length m)"
  by (induction m) (auto split: if_splits)

lemma length_update_known: "map_of m k \<noteq> None \<Longrightarrow> length (AList.update k v m) = length m"
  by (induction m) (auto split: if_splits)

lemma map_of_update: "map_of (AList.update k v m) = (map_of m)(k \<mapsto> v)"
  by (rule update_conv')

section \<open>Counting\<close>

lemma length_filter_append: "length (filter P (xs @ ys)) = length (filter P xs) + length (filter P ys)"
  by simp

lemma length_filter_mono:
  "(\<And>x. x \<in> set xs \<Longrightarrow> P x \<Longrightarrow> Q x) \<Longrightarrow> length (filter P xs) \<le> length (filter Q xs)"
  by (induction xs) (auto simp: le_SucI)

lemma length_filter_union:
  "length (filter (\<lambda>x. P x \<or> Q x) xs) \<le> length (filter P xs) + length (filter Q xs)"
  by (induction xs) auto

lemma length_filter_disjoint:
  "(\<And>x. P x \<Longrightarrow> \<not> Q x) \<Longrightarrow> length (filter P xs) + length (filter Q xs) \<le> length xs"
  by (induction xs) (auto simp: le_SucI)

end
