(* ===== verification/Float64.thy ===== *)
theory Float64
  imports Prelude "HOL-Library.Log_Nat"
begin

text \<open>
  IEEE 754 binary64 as Go's \<open>float64\<close> and Lua's numbers use it: a finite double is the
  rational it denotes, and every operation is the exact one followed by \<open>fl\<close>, rounding to
  the nearest double, ties to even, 53 bits of precision, least exponent \<open>-1074\<close>
  (subnormals included). Overflow to an infinity is not modelled: the operands of this program
  come from 64-bit integers, and the largest value it computes, about \<open>2 ^ 63 * 2 ^ 63\<close>, is
  far below \<open>2 ^ 1024\<close>. Zero has one sign, which no comparison of the program can tell.
\<close>

type_synonym float64 = rat

section \<open>Rounding to an integer\<close>

definition round_half_even :: "rat \<Rightarrow> int" where
  "round_half_even x =
     (let f = \<lfloor>x\<rfloor>; r = x - of_int f
      in if r < 1 / 2 then f
         else if 1 / 2 < r then f + 1
         else if even f then f else f + 1)"

lemma round_half_even_error: "\<bar>of_int (round_half_even x) - x\<bar> \<le> 1 / 2"
  using of_int_floor_le [of x] floor_correct [of x]
  by (auto simp: round_half_even_def Let_def)

lemma round_half_even_of_int [simp]: "round_half_even (of_int n) = n"
  by (simp add: round_half_even_def)

lemma round_half_even_cases: "round_half_even x = \<lfloor>x\<rfloor> \<or> round_half_even x = \<lfloor>x\<rfloor> + 1"
  by (simp add: round_half_even_def Let_def)

lemma round_half_even_mono:
  assumes "x \<le> y"
  shows "round_half_even x \<le> round_half_even y"
proof (cases "\<lfloor>x\<rfloor> = \<lfloor>y\<rfloor>")
  case True
  with assms show ?thesis by (auto simp: round_half_even_def Let_def)
next
  case False
  with assms have "\<lfloor>x\<rfloor> + 1 \<le> \<lfloor>y\<rfloor>" using floor_mono by force
  then show ?thesis
    using round_half_even_cases [of x] round_half_even_cases [of y] by linarith
qed

lemma round_half_even_minus: "round_half_even (- x) = - round_half_even x"
proof (cases "x = of_int \<lfloor>x\<rfloor>")
  case True
  then show ?thesis by (metis of_int_minus round_half_even_of_int)
next
  case False
  then have fl: "\<lfloor>- x\<rfloor> = - \<lfloor>x\<rfloor> - 1"
    using floor_correct [of x] by (intro floor_unique) (auto simp: order_less_le)
  have "- x - of_int (- \<lfloor>x\<rfloor> - 1) = 1 - (x - of_int \<lfloor>x\<rfloor>)" by simp
  then show ?thesis
    unfolding round_half_even_def Let_def fl by auto
qed

section \<open>Powers of two\<close>

definition pw2 :: "int \<Rightarrow> rat" where "pw2 e = 2 powi e"

lemma pw2_pos [simp]: "0 < pw2 e"
  by (simp add: pw2_def)

lemma pw2_ne0 [simp]: "pw2 e \<noteq> 0"
  by (simp add: pw2_def)

lemma pw2_add: "pw2 (a + b) = pw2 a * pw2 b"
  by (simp add: pw2_def power_int_add)

lemma pw2_diff: "pw2 (a - b) = pw2 a / pw2 b"
  by (simp add: pw2_def power_int_diff)

lemma pw2_0 [simp]: "pw2 0 = 1"
  by (simp add: pw2_def)

lemma pw2_le: "a \<le> b \<Longrightarrow> pw2 a \<le> pw2 b"
  by (simp add: pw2_def power_int_increasing)

lemma pw2_less: "a < b \<Longrightarrow> pw2 a < pw2 b"
  by (simp add: pw2_def power_int_strict_increasing)

lemma pw2_less_iff: "pw2 a < pw2 b \<longleftrightarrow> a < b"
  using pw2_le pw2_less by (meson leD not_le)

lemma pw2_nat: "0 \<le> e \<Longrightarrow> pw2 e = of_int (2 ^ nat e)"
  by (simp add: pw2_def power_int_def)

section \<open>The binary exponent of a rational\<close>

definition fexp :: "rat \<Rightarrow> int" where
  "fexp x =
     (case quotient_of \<bar>x\<bar> of (n, d) \<Rightarrow>
        (let k = bitlen n - bitlen d in if pw2 k \<le> \<bar>x\<bar> then k else k - 1))"

lemma bitlen_pw2:
  assumes "0 < n"
  shows "pw2 (bitlen n - 1) \<le> of_int n" and "of_int n < pw2 (bitlen n)"
proof -
  have b: "2 ^ nat (bitlen n - 1) \<le> n \<and> n < 2 ^ nat (bitlen n)"
    by (rule bitlen_bounds [OF assms])
  have "bitlen n \<noteq> 0" "0 \<le> bitlen n"
    using assms by (simp_all add: bitlen_eq_zero_iff bitlen_nonneg)
  then show "pw2 (bitlen n - 1) \<le> of_int n" "of_int n < pw2 (bitlen n)"
    using b by (auto simp: pw2_nat simp del: of_int_power)
qed

lemma fexp_bounds:
  assumes "x \<noteq> 0"
  shows "pw2 (fexp x) \<le> \<bar>x\<bar>" and "\<bar>x\<bar> < pw2 (fexp x + 1)"
proof -
  obtain n d where q: "quotient_of \<bar>x\<bar> = (n, d)" by fastforce
  have d: "0 < d" using quotient_of_denom_pos [OF q] .
  have x: "\<bar>x\<bar> = of_int n / of_int d" using quotient_of_div [OF q] .
  have "0 < of_int n / (of_int d :: rat)" using assms x by (metis zero_less_abs_iff)
  then have n: "0 < n" using d by (simp add: zero_less_divide_iff)
  define k where "k = bitlen n - bitlen d"
  have "of_int n < pw2 (bitlen n)" "pw2 (bitlen d - 1) \<le> of_int d"
    using bitlen_pw2 [OF n] bitlen_pw2 [OF d] by auto
  then have "of_int n / of_int d < pw2 (bitlen n) / pw2 (bitlen d - 1)"
    using d n by (intro frac_less) auto
  then have up: "\<bar>x\<bar> < pw2 (k + 1)"
    by (simp add: x k_def algebra_simps flip: pw2_diff)
  have "pw2 (bitlen n - 1) \<le> of_int n" "of_int d < pw2 (bitlen d)"
    using bitlen_pw2 [OF n] bitlen_pw2 [OF d] by auto
  then have "pw2 (bitlen n - 1) / pw2 (bitlen d) < of_int n / of_int d"
    using d n by (intro frac_less2) auto
  then have lo: "pw2 (k - 1) < \<bar>x\<bar>"
    by (simp add: x k_def algebra_simps flip: pw2_diff)
  have f: "fexp x = (if pw2 k \<le> \<bar>x\<bar> then k else k - 1)"
    by (simp add: fexp_def q k_def Let_def)
  show "pw2 (fexp x) \<le> \<bar>x\<bar>" "\<bar>x\<bar> < pw2 (fexp x + 1)"
    using up lo by (auto simp: f)
qed

lemma fexp_unique:
  assumes "pw2 e \<le> \<bar>x\<bar>" and "\<bar>x\<bar> < pw2 (e + 1)"
  shows "fexp x = e"
proof -
  have "x \<noteq> 0" using assms(1) pw2_pos [of e] by (metis abs_zero not_less)
  then have "pw2 e < pw2 (fexp x + 1)" "pw2 (fexp x) < pw2 (e + 1)"
    using fexp_bounds [of x] assms by linarith+
  then show ?thesis by (simp add: pw2_less_iff)
qed

lemma fexp_mono:
  assumes "x \<noteq> 0" and "\<bar>x\<bar> \<le> \<bar>y\<bar>"
  shows "fexp x \<le> fexp y"
proof -
  have "y \<noteq> 0" using assms by auto
  then have "pw2 (fexp x) < pw2 (fexp y + 1)"
    using fexp_bounds [of x] fexp_bounds [of y] assms by linarith
  then show ?thesis by (simp add: pw2_less_iff)
qed

section \<open>Rounding to a double\<close>

text \<open>The exponent of the last place of \<open>x\<close>, and rounding to a multiple of it.\<close>

definition ulp_exp :: "rat \<Rightarrow> int" where
  "ulp_exp x = max (fexp x - 52) (-1074)"

definition fl :: "rat \<Rightarrow> float64" where
  "fl x = (if x = 0 then 0 else of_int (round_half_even (x / pw2 (ulp_exp x))) * pw2 (ulp_exp x))"

lemma fl_0 [simp]: "fl 0 = 0"
  by (simp add: fl_def)

lemma fl_minus: "fl (- x) = - fl x"
  by (simp add: fl_def ulp_exp_def fexp_def round_half_even_minus)

text \<open>A multiple of \<open>2 ^ e\<close> with at most 53 significant bits is a double.\<close>

lemma fl_exact:
  assumes x: "x = of_int m * pw2 e" and m: "\<bar>m\<bar> \<le> 2 ^ 53" and e: "-1074 \<le> e"
  shows "fl x = x"
proof (cases "x = 0")
  case False
  define q where "q = ulp_exp x"
  have "\<exists>k. x / pw2 q = of_int k"
  proof (cases "q \<le> e")
    case True
    then have "x / pw2 q = of_int (m * 2 ^ nat (e - q))"
      by (simp add: x pw2_nat flip: pw2_diff times_divide_eq_right)
    then show ?thesis ..
  next
    case False
    then have q: "q = fexp x - 52" using e by (auto simp: q_def ulp_exp_def)
    have "\<bar>of_int m\<bar> \<le> (of_int (2 ^ 53) :: rat)" using m by (metis of_int_abs of_int_le_iff)
    then have am: "\<bar>x\<bar> \<le> pw2 53 * pw2 e"
      by (simp add: x abs_mult pw2_def)
    have "pw2 (fexp x) \<le> \<bar>x\<bar>" using fexp_bounds(1) [OF \<open>x \<noteq> 0\<close>] .
    moreover have "pw2 53 * pw2 e \<le> pw2 (fexp x)"
      using False q by (subst pw2_add [symmetric], intro pw2_le) simp
    ultimately have ax: "\<bar>x\<bar> = pw2 (fexp x)" using am by linarith
    have "pw2 (fexp x) / pw2 q = of_int (2 ^ 52)"
      by (simp add: q pw2_nat flip: pw2_diff)
    moreover have "x = pw2 (fexp x) \<or> x = - pw2 (fexp x)" using ax by linarith
    ultimately have "x / pw2 q = of_int (2 ^ 52) \<or> x / pw2 q = of_int (- (2 ^ 52))"
      by (metis minus_divide_left of_int_minus)
    then show ?thesis by blast
  qed
  then obtain k where "x / pw2 q = of_int k" ..
  then show ?thesis using False
    by (metis fl_def nonzero_divide_eq_eq pw2_ne0 q_def round_half_even_of_int)
qed simp

lemma fl_of_int: "\<bar>m\<bar> \<le> 2 ^ 53 \<Longrightarrow> fl (of_int m) = of_int m"
  by (rule fl_exact [where e = 0]) auto

lemma fl_pw2: "-1074 \<le> e \<Longrightarrow> fl (pw2 e) = pw2 e"
  by (rule fl_exact [where m = 1 and e = e]) auto

lemma fl_error:
  assumes "x \<noteq> 0"
  shows "\<bar>fl x - x\<bar> \<le> pw2 (ulp_exp x - 1)"
proof -
  define q where "q = ulp_exp x"
  have "\<bar>of_int (round_half_even (x / pw2 q)) - x / pw2 q\<bar> * pw2 q \<le> 1 / 2 * pw2 q"
    by (intro mult_right_mono round_half_even_error) (simp add: less_imp_le)
  also have "\<bar>of_int (round_half_even (x / pw2 q)) - x / pw2 q\<bar> * pw2 q
      = \<bar>(of_int (round_half_even (x / pw2 q)) - x / pw2 q) * pw2 q\<bar>"
    by (simp add: abs_mult less_imp_le)
  also have "\<dots> = \<bar>fl x - x\<bar>"
    using assms by (simp add: fl_def q_def left_diff_distrib)
  also have "1 / 2 * pw2 q = pw2 (q - 1)"
    using pw2_diff [of q 1] by (simp add: pw2_def)
  finally show ?thesis by (simp add: q_def)
qed

lemma fl_rel_error: "\<bar>fl x - x\<bar> \<le> \<bar>x\<bar> * pw2 (-53) + pw2 (-1075)"
proof (cases "x = 0")
  case False
  have "\<bar>fl x - x\<bar> \<le> pw2 (ulp_exp x - 1)" by (rule fl_error [OF False])
  also have "\<dots> \<le> pw2 (fexp x) * pw2 (-53) + pw2 (-1075)"
    by (auto simp: ulp_exp_def max_def less_imp_le simp flip: pw2_add)
  also have "\<dots> \<le> \<bar>x\<bar> * pw2 (-53) + pw2 (-1075)"
    using fexp_bounds(1) [OF False] by (simp add: mult_right_mono less_imp_le)
  finally show ?thesis .
qed (simp add: less_imp_le)

text \<open>Rounding never crosses a multiple of the last place.\<close>

lemma fl_le_grid:
  assumes "x \<le> of_int k * pw2 (ulp_exp x)" and "x \<noteq> 0"
  shows "fl x \<le> of_int k * pw2 (ulp_exp x)"
proof -
  have "x / pw2 (ulp_exp x) \<le> of_int k" using assms by (simp add: pos_divide_le_eq)
  from round_half_even_mono [OF this] show ?thesis
    using assms by (simp add: fl_def)
qed

lemma fl_ge_grid:
  assumes "of_int k * pw2 (ulp_exp x) \<le> x" and "x \<noteq> 0"
  shows "of_int k * pw2 (ulp_exp x) \<le> fl x"
proof -
  have "of_int k \<le> x / pw2 (ulp_exp x)" using assms by (simp add: pos_le_divide_eq)
  from round_half_even_mono [OF this] show ?thesis
    using assms by (simp add: fl_def)
qed

lemma pw2_grid: "q \<le> e \<Longrightarrow> pw2 e = of_int (2 ^ nat (e - q)) * pw2 q"
  using pw2_add [of "e - q" q] by (simp add: pw2_nat)

lemma fl_pos_mono:
  assumes "0 < x" and "x \<le> y"
  shows "fl x \<le> fl y"
proof (cases "ulp_exp x = ulp_exp y")
  case True
  have "round_half_even (x / pw2 (ulp_exp x)) \<le> round_half_even (y / pw2 (ulp_exp x))"
    by (intro round_half_even_mono divide_right_mono) (use assms in \<open>auto simp: less_imp_le\<close>)
  then show ?thesis using assms True by (simp add: fl_def mult_right_mono less_imp_le)
next
  case False
  have m: "fexp x \<le> fexp y" by (rule fexp_mono) (use assms in auto)
  have qy: "ulp_exp y = fexp y - 52" and lt: "ulp_exp x < ulp_exp y"
    and e: "fexp x + 1 \<le> fexp y"
    using False m by (auto simp: ulp_exp_def)
  have "\<bar>x\<bar> < pw2 (fexp x + 1)" by (rule fexp_bounds) (use assms in auto)
  also have "\<dots> \<le> pw2 (fexp y)" by (rule pw2_le [OF e])
  finally have xB: "x \<le> pw2 (fexp y)" using assms by simp
  have By: "pw2 (fexp y) \<le> y" using fexp_bounds(1) [of y] assms by simp
  have "fl x \<le> pw2 (fexp y)"
    using fl_le_grid [of x "2 ^ nat (fexp y - ulp_exp x)"] xB pw2_grid [of "ulp_exp x" "fexp y"] lt qy assms by simp
  moreover have "pw2 (fexp y) \<le> fl y"
    using fl_ge_grid [of "2 ^ nat (fexp y - ulp_exp y)" y] By pw2_grid [of "ulp_exp y" "fexp y"] lt qy assms by simp
  ultimately show ?thesis by linarith
qed

lemma fl_nonneg: "0 \<le> x \<Longrightarrow> 0 \<le> fl x"
  using round_half_even_mono [of 0 "x / pw2 (ulp_exp x)"] round_half_even_of_int [of 0]
  by (auto simp: fl_def less_imp_le intro!: mult_nonneg_nonneg)

lemma fl_mono:
  assumes "x \<le> y"
  shows "fl x \<le> fl y"
proof -
  consider "0 < x" | "x \<le> 0" "0 \<le> y" | "y < 0" by linarith
  then show ?thesis
  proof cases
    case 1
    then show ?thesis using assms by (rule fl_pos_mono)
  next
    case 2
    then have "0 \<le> fl (- x)" "0 \<le> fl y" by (simp_all add: fl_nonneg)
    then show ?thesis by (simp add: fl_minus)
  next
    case 3
    then have "fl (- y) \<le> fl (- x)" using assms by (intro fl_pos_mono) auto
    then show ?thesis by (simp add: fl_minus)
  qed
qed

lemma fl_le_exact: "x \<le> y \<Longrightarrow> fl y = y \<Longrightarrow> fl x \<le> y"
  using fl_mono by metis

lemma fl_ge_exact: "x \<le> y \<Longrightarrow> fl x = x \<Longrightarrow> x \<le> fl y"
  using fl_mono by metis

lemma fl_idem [simp]: "fl (fl x) = fl x"
proof (cases "x = 0")
  case False
  define q k where "q = ulp_exp x" and "k = round_half_even (x / pw2 q)"
  have "x / pw2 q \<le> of_int (2 ^ 53)" "of_int (- (2 ^ 53)) \<le> x / pw2 q"
  proof -
    have "\<bar>x\<bar> < pw2 (fexp x + 1)" using fexp_bounds [OF False] by simp
    also have "\<dots> \<le> pw2 (q + 53)" by (rule pw2_le) (simp add: q_def ulp_exp_def)
    also have "\<dots> = of_int (2 ^ 53) * pw2 q" using pw2_grid [of q "q + 53"] by simp
    finally have "\<bar>x\<bar> < of_int (2 ^ 53) * pw2 q" .
    then show "x / pw2 q \<le> of_int (2 ^ 53)" "of_int (- (2 ^ 53)) \<le> x / pw2 q"
      by (auto simp: pos_divide_le_eq pos_le_divide_eq abs_less_iff)
  qed
  then have "\<bar>k\<bar> \<le> 2 ^ 53"
    using round_half_even_mono round_half_even_of_int unfolding k_def by (metis abs_le_iff minus_le_iff)
  moreover have "fl x = of_int k * pw2 q" using False by (simp add: fl_def k_def q_def)
  moreover have "-1074 \<le> q" by (simp add: q_def ulp_exp_def)
  ultimately show ?thesis using fl_exact by metis
qed simp

section \<open>Error bounds of non-negative values\<close>

text \<open>The relative error of one rounding, and the largest absolute error below the normal range.\<close>

definition ulp_half :: rat where "ulp_half = 1 / 2 ^ 53"
definition tiny :: rat where "tiny = 1 / 2 ^ 1000"

lemma ulp_half_pos [simp]: "0 < ulp_half" "0 \<le> ulp_half" "ulp_half < 1"
  by (simp_all add: ulp_half_def)

lemma tiny_pos [simp]: "0 < tiny" "0 \<le> tiny"
  by (simp_all add: tiny_def)

lemma pw2_neg: "pw2 (- int n) = 1 / 2 ^ n"
  by (simp add: pw2_def power_int_minus_divide)

lemma fl_error_tiny: "\<bar>fl x - x\<bar> \<le> \<bar>x\<bar> * ulp_half + tiny"
proof -
  have "pw2 (-1075) \<le> pw2 (-1000)" by (rule pw2_le) simp
  moreover have "pw2 (-1000) = tiny" using pw2_neg [of 1000] by (simp add: tiny_def)
  moreover have "pw2 (-53) = ulp_half" using pw2_neg [of 53] by (simp add: ulp_half_def)
  ultimately show ?thesis using fl_rel_error [of x] by simp
qed

lemma fl_upper: "0 \<le> x \<Longrightarrow> fl x \<le> x * (1 + ulp_half) + tiny"
  using fl_error_tiny [of x] by (simp add: algebra_simps)

lemma fl_error_normal:
  assumes "tiny \<le> \<bar>x\<bar>"
  shows "\<bar>fl x - x\<bar> \<le> \<bar>x\<bar> * ulp_half"
proof -
  have x: "x \<noteq> 0" using assms tiny_pos(1) by (metis abs_zero not_less)
  have "pw2 (-1000) = tiny" using pw2_neg [of 1000] by (simp add: tiny_def)
  then have "fexp (pw2 (-1000)) \<le> fexp x"
    using assms by (intro fexp_mono) (auto simp: less_imp_le)
  moreover have "fexp (pw2 (-1000)) = -1000"
    by (rule fexp_unique) (auto simp: less_imp_le intro!: pw2_less)
  ultimately have u: "ulp_exp x = fexp x - 52" by (simp add: ulp_exp_def)
  have "\<bar>fl x - x\<bar> \<le> pw2 (fexp x - 53)" using fl_error [OF x] u by simp
  also have "pw2 (fexp x - 53) = pw2 (fexp x) * ulp_half"
    using pw2_diff [of "fexp x" 53] by (simp add: ulp_half_def pw2_nat)
  also have "\<dots> \<le> \<bar>x\<bar> * ulp_half"
    using fexp_bounds(1) [OF x] by (simp add: mult_right_mono)
  finally show ?thesis .
qed

lemma fl_normal:
  assumes "tiny \<le> x"
  shows "fl x \<le> x * (1 + ulp_half)" and "x * (1 - ulp_half) \<le> fl x"
proof -
  have "0 < x" using assms tiny_pos(1) by (rule less_le_trans [rotated])
  then have "\<bar>fl x - x\<bar> \<le> x * ulp_half" using fl_error_normal [of x] assms by simp
  then show "fl x \<le> x * (1 + ulp_half)" "x * (1 - ulp_half) \<le> fl x"
    by (auto simp: algebra_simps abs_le_iff)
qed

lemma tiny_le: "1 / 10 ^ 30 \<le> x \<Longrightarrow> tiny \<le> x"
  by (rule order_trans [of _ "1 / 10 ^ 30"]) (simp_all add: tiny_def divide_le_eq)

section \<open>Conversions\<close>

text \<open>
  \<open>int64(x)\<close> of a double truncates towards zero; out of range, Go leaves the result to
  the implementation, which is the parameter \<open>oor\<close>.
\<close>

definition trunc :: "float64 \<Rightarrow> int" where
  "trunc x = (if 0 \<le> x then \<lfloor>x\<rfloor> else \<lceil>x\<rceil>)"

definition f2i :: "(float64 \<Rightarrow> int) \<Rightarrow> float64 \<Rightarrow> int" where
  "f2i oor x = (if in_int64 (trunc x) then trunc x else oor x)"

text \<open>\<open>float64(n)\<close> of an integer, and the arithmetic operators.\<close>

definition i2f :: "int \<Rightarrow> float64" where "i2f n = fl (of_int n)"
definition fadd :: "float64 \<Rightarrow> float64 \<Rightarrow> float64" where "fadd x y = fl (x + y)"
definition fsub :: "float64 \<Rightarrow> float64 \<Rightarrow> float64" where "fsub x y = fl (x - y)"
definition fmul :: "float64 \<Rightarrow> float64 \<Rightarrow> float64" where "fmul x y = fl (x * y)"
definition fdiv :: "float64 \<Rightarrow> float64 \<Rightarrow> float64" where "fdiv x y = fl (x / y)"

lemma trunc_of_int [simp]: "trunc (of_int n) = n"
  by (simp add: trunc_def)

lemma f2i_in_range: "in_int64 (trunc x) \<Longrightarrow> f2i oor x = trunc x"
  by (simp add: f2i_def)

lemma i2f_exact: "\<bar>n\<bar> \<le> 2 ^ 53 \<Longrightarrow> i2f n = of_int n"
  by (simp add: i2f_def fl_of_int)

lemma i2f_mono: "m \<le> n \<Longrightarrow> i2f m \<le> i2f n"
  by (simp add: i2f_def fl_mono)

lemma i2f_nonneg: "0 \<le> n \<Longrightarrow> 0 \<le> i2f n"
  by (simp add: i2f_def fl_nonneg)

lemma i2f_ge_1: "1 \<le> n \<Longrightarrow> 1 \<le> i2f n"
  using i2f_mono [of 1 n] by (simp add: i2f_exact)

end
