(* ===== verification/GoTime.thy ===== *)
theory GoTime
  imports Float64
begin

text \<open>
  Go's \<open>time\<close> package, as far as the program uses it. A \<open>time.Time\<close> is its wall clock
  reading, in nanoseconds since the zero time (1 January of year 1, UTC), and the monotonic
  reading that \<open>time.Now\<close> adds, in nanoseconds since the process started. Comparison and
  subtraction read the monotonic part when both operands have one and the wall part otherwise;
  \<open>Truncate\<close> drops it. A \<open>time.Duration\<close> is an \<open>int64\<close> of nanoseconds.
  The wall reading is unbounded here: its 64-bit count of seconds leaves room for
  \<open>2 ^ 63\<close> seconds either way, and a duration moves it by less than \<open>2 ^ 34\<close>.
\<close>

type_synonym duration = int

definition nanosecond :: duration where "nanosecond = 1"
definition microsecond :: duration where "microsecond = 1000"
definition second :: duration where "second = 1000000000"

record gotime =
  wall :: int
  mono :: "int option"

definition zero_time :: gotime where "zero_time = \<lparr>wall = 0, mono = None\<rparr>"

definition is_zero :: "gotime \<Rightarrow> bool" where
  "is_zero t \<longleftrightarrow> wall t = 0"

text \<open>
  A reading with a monotonic part keeps its wall seconds in 33 bits from 1885 on; a result
  outside of them, like a monotonic reading outside of \<open>int64\<close>, loses the monotonic part.
\<close>

definition wall_fits_mono :: "int \<Rightarrow> bool" where
  "wall_fits_mono w \<longleftrightarrow> 0 \<le> w div 1000000000 - 59453308800 \<and> w div 1000000000 - 59453308800 < 2 ^ 33"

definition time_add :: "gotime \<Rightarrow> duration \<Rightarrow> gotime" where
  "time_add t d =
     \<lparr>wall = wall t + d,
      mono = (case mono t of
                None \<Rightarrow> None
              | Some m \<Rightarrow> if wall_fits_mono (wall t + d) \<and> in_int64 (m + d) then Some (m + d) else None)\<rparr>"

definition time_sub :: "gotime \<Rightarrow> gotime \<Rightarrow> duration" where
  "time_sub t u =
     (case (mono t, mono u) of
        (Some m, Some n) \<Rightarrow> sat64 (m - n)
      | _ \<Rightarrow> sat64 (wall t - wall u))"

definition time_after :: "gotime \<Rightarrow> gotime \<Rightarrow> bool" where
  "time_after t u =
     (case (mono t, mono u) of
        (Some m, Some n) \<Rightarrow> n < m
      | _ \<Rightarrow> wall u < wall t)"

definition time_equal :: "gotime \<Rightarrow> gotime \<Rightarrow> bool" where
  "time_equal t u =
     (case (mono t, mono u) of
        (Some m, Some n) \<Rightarrow> m = n
      | _ \<Rightarrow> wall t = wall u)"

text \<open>\<open>Truncate\<close>: down to a multiple of \<open>d\<close> since the zero time, without a monotonic part.\<close>

definition time_truncate :: "gotime \<Rightarrow> duration \<Rightarrow> gotime" where
  "time_truncate t d =
     (if d \<le> 0 then \<lparr>wall = wall t, mono = None\<rparr>
      else \<lparr>wall = wall t - wall t mod d, mono = None\<rparr>)"

text \<open>Seconds since the Unix epoch, rounded down; \<open>time.UnixMicro\<close> is its inverse at \<open>\<mu>\<close>s grain.\<close>

definition unix_epoch :: int where "unix_epoch = 62135596800000000000"

definition time_unix :: "gotime \<Rightarrow> int" where
  "time_unix t = (wall t - unix_epoch) div 1000000000"

definition unix_micro :: "int \<Rightarrow> gotime" where
  "unix_micro us = \<lparr>wall = unix_epoch + us * 1000, mono = None\<rparr>"

text \<open>\<open>Duration.Seconds\<close>: whole seconds plus the rest, each rounded to a double.\<close>

definition duration_seconds :: "duration \<Rightarrow> float64" where
  "duration_seconds d =
     (let sec = d sdiv 1000000000; nsec = d smod 1000000000
      in fadd (i2f sec) (fdiv (i2f nsec) (i2f 1000000000)))"

section \<open>Readings of one kind\<close>

text \<open>
  All readings of one process have a monotonic part and all readings of a manual test clock
  have none. \<open>same_clock c t\<close> says that \<open>t\<close> is of the kind \<open>c\<close>, with room to be moved by
  a duration; \<open>instant\<close> is the reading the comparisons then use.
\<close>

definition instant :: "gotime \<Rightarrow> int" where
  "instant t = (case mono t of Some m \<Rightarrow> m | None \<Rightarrow> wall t)"

definition same_clock :: "bool \<Rightarrow> gotime \<Rightarrow> bool" where
  "same_clock c t \<longleftrightarrow> (c \<longleftrightarrow> mono t \<noteq> None)"

definition moves_by :: "gotime \<Rightarrow> duration \<Rightarrow> bool" where
  "moves_by t d \<longleftrightarrow>
     (case mono t of None \<Rightarrow> True
      | Some m \<Rightarrow> wall_fits_mono (wall t + d) \<and> in_int64 (m + d))"

lemma time_after_instant:
  "same_clock c t \<Longrightarrow> same_clock c u \<Longrightarrow> time_after t u \<longleftrightarrow> instant u < instant t"
  by (auto simp: time_after_def same_clock_def instant_def split: option.splits)

lemma time_sub_instant:
  "same_clock c t \<Longrightarrow> same_clock c u \<Longrightarrow> time_sub t u = sat64 (instant t - instant u)"
  by (auto simp: time_sub_def same_clock_def instant_def split: option.splits)

lemma instant_add: "moves_by t d \<Longrightarrow> instant (time_add t d) = instant t + d"
  by (auto simp: time_add_def instant_def moves_by_def split: option.splits)

lemma same_clock_add: "moves_by t d \<Longrightarrow> same_clock c (time_add t d) \<longleftrightarrow> same_clock c t"
  by (auto simp: time_add_def same_clock_def moves_by_def split: option.splits)

lemma wall_add [simp]: "wall (time_add t d) = wall t + d"
  by (simp add: time_add_def)

section \<open>Truncation to a grid\<close>

lemma truncate_wall: "0 < d \<Longrightarrow> wall (time_truncate t d) = wall t div d * d"
  by (simp add: time_truncate_def minus_mod_eq_div_mult)

lemma truncate_mono_None [simp]: "mono (time_truncate t d) = None"
  by (simp add: time_truncate_def)

lemma time_equal_wall: "mono u = None \<Longrightarrow> time_equal t u \<longleftrightarrow> wall t = wall u"
  by (auto simp: time_equal_def split: option.splits)

lemma truncate_le: "0 < d \<Longrightarrow> wall (time_truncate t d) \<le> wall t"
  by (simp add: time_truncate_def)

lemma truncate_gt: "0 < d \<Longrightarrow> wall t < wall (time_truncate t d) + d"
  by (simp add: time_truncate_def)

lemma truncate_mono_wall:
  "0 < d \<Longrightarrow> wall t \<le> wall u \<Longrightarrow> wall (time_truncate t d) \<le> wall (time_truncate u d)"
  by (simp add: truncate_wall zdiv_mono1)

section \<open>Seconds as doubles\<close>

lemma duration_seconds_pos:
  assumes "0 \<le> d" and "in_int64 d"
  shows "duration_seconds d =
    fl (of_int (d div 1000000000) + fl (of_int (d mod 1000000000) / 1000000000))"
proof -
  have "d div 1000000000 \<le> 2 ^ 53" "0 \<le> d div 1000000000"
    using assms by (auto simp: in_int64_def int64_max_def)
  then have "i2f (d div 1000000000) = of_int (d div 1000000000)"
    by (intro i2f_exact) simp
  moreover have "i2f (d mod 1000000000) = of_int (d mod 1000000000)"
    using pos_mod_bound [of 1000000000 d] pos_mod_sign [of 1000000000 d]
    by (intro i2f_exact) (simp add: abs_le_iff)
  moreover have "i2f 1000000000 = 1000000000"
    using i2f_exact [of 1000000000] by simp
  ultimately show ?thesis
    using assms by (simp add: duration_seconds_def Let_def fadd_def fdiv_def sdiv_pos smod_pos)
qed

lemma duration_seconds_nonneg: "0 \<le> d \<Longrightarrow> in_int64 d \<Longrightarrow> 0 \<le> duration_seconds d"
  by (simp add: duration_seconds_pos fl_nonneg)

text \<open>Below \<open>2 ^ 23\<close> seconds no positive fraction of a second is rounded away.\<close>

lemma duration_seconds_fraction:
  assumes "0 \<le> d" and "d < 8388608 * 1000000000" and "d mod 1000000000 \<noteq> 0"
  shows "of_int (d div 1000000000) < duration_seconds d"
proof -
  define s n where "s = d div 1000000000" and "n = d mod 1000000000"
  have s: "0 \<le> s" "s < 8388608" using assms by (auto simp: s_def)
  have n: "1 \<le> n"
    using assms(3) pos_mod_sign [of 1000000000 d] unfolding n_def by linarith
  have p: "pw2 (-30) = 1 / 1073741824" by (simp add: pw2_def)
  have "(1::rat) \<le> of_int n" using n by (simp only: of_int_1_le_iff)
  then have "pw2 (-30) \<le> of_int n / 1000000000" by (simp add: p)
  then have "pw2 (-30) \<le> fl (of_int n / 1000000000)"
    by (rule fl_ge_exact) (simp add: fl_pw2)
  then have le: "of_int s + pw2 (-30) \<le> of_int s + fl (of_int n / 1000000000)" by simp
  have ex: "fl (of_int s + pw2 (-30)) = of_int s + pw2 (-30)"
    by (rule fl_exact [where m = "s * 1073741824 + 1" and e = "-30"])
      (use s in \<open>auto simp: p field_simps\<close>)
  have "of_int s < of_int s + pw2 (-30)" by simp
  also have "\<dots> \<le> fl (of_int s + fl (of_int n / 1000000000))"
    using fl_ge_exact [OF le ex] .
  also have "\<dots> = duration_seconds d"
    using assms by (subst duration_seconds_pos) (auto simp: in_int64_def int64_min_def int64_max_def s_def n_def)
  finally show ?thesis by (simp add: s_def)
qed

lemma duration_seconds_whole:
  assumes "0 \<le> s" and "s \<le> 9223372036"
  shows "duration_seconds (s * 1000000000) = of_int s"
  using assms fl_of_int [of s]
  by (subst duration_seconds_pos) (auto simp: in_int64_def int64_min_def int64_max_def)

lemma duration_seconds_bounds:
  assumes "0 < d" and "in_int64 d"
  shows "duration_seconds d \<le> of_int d / 10 ^ 9 * (1 + ulp_half) ^ 2"
    and "of_int d / 10 ^ 9 * (1 - ulp_half) ^ 2 \<le> duration_seconds d"
proof -
  define s n where "s = d div 1000000000" and "n = d mod 1000000000"
  define q where "q = fl (of_int n / 1000000000)"
  have "d = s * 1000000000 + n" by (simp add: s_def n_def)
  then have d: "of_int d / 10 ^ 9 = (of_int s + of_int n / 1000000000 :: rat)" by simp
  have s: "(0::rat) \<le> of_int s" using assms(1) by (simp add: s_def pos_imp_zdiv_nonneg_iff)
  have n: "0 \<le> n" by (simp add: n_def)
  have q: "q \<le> of_int n / 1000000000 * (1 + ulp_half)" "of_int n / 1000000000 * (1 - ulp_half) \<le> q"
  proof (atomize (full), cases "n = 0")
    case False
    then have "(1::rat) \<le> of_int n" using n by (simp only: of_int_1_le_iff)
    then have "tiny \<le> of_int n / 1000000000" by (intro tiny_le) simp
    then show "q \<le> of_int n / 1000000000 * (1 + ulp_half) \<and> of_int n / 1000000000 * (1 - ulp_half) \<le> q"
      unfolding q_def using fl_normal by blast
  qed (simp add: q_def)
  define y where "y = of_int s + q"
  have "of_int s * (1 - ulp_half) \<le> of_int s" "of_int s \<le> of_int s * (1 + ulp_half)"
    using s by (simp_all add: mult_left_le algebra_simps)
  then have y: "y \<le> of_int d / 10 ^ 9 * (1 + ulp_half)" "of_int d / 10 ^ 9 * (1 - ulp_half) \<le> y"
    using q unfolding d y_def distrib_right by linarith+
  have "(1::rat) \<le> of_int d" using assms(1) by simp
  then have "1 / 10 ^ 9 * (1 / 2) \<le> of_int d / 10 ^ 9 * (1 - ulp_half)"
    by (intro mult_mono) (auto simp: ulp_half_def)
  then have t: "tiny \<le> y" using y(2) by (intro tiny_le) simp
  have e: "duration_seconds d = fl y"
    using assms by (simp add: duration_seconds_pos y_def q_def s_def n_def)
  have "fl y \<le> of_int d / 10 ^ 9 * (1 + ulp_half) * (1 + ulp_half)"
    using fl_normal(1) [OF t] mult_right_mono [OF y(1), of "1 + ulp_half"] by simp
  then show "duration_seconds d \<le> of_int d / 10 ^ 9 * (1 + ulp_half) ^ 2"
    by (simp add: e power2_eq_square mult.assoc)
  have "of_int d / 10 ^ 9 * (1 - ulp_half) * (1 - ulp_half) \<le> fl y"
  proof -
    have "of_int d / 10 ^ 9 * (1 - ulp_half) * (1 - ulp_half) \<le> y * (1 - ulp_half)"
      using y(2) by (rule mult_right_mono) (simp add: less_imp_le)
    also have "\<dots> \<le> fl y" by (rule fl_normal(2) [OF t])
    finally show ?thesis .
  qed
  then show "of_int d / 10 ^ 9 * (1 - ulp_half) ^ 2 \<le> duration_seconds d"
    by (simp add: e power2_eq_square mult.assoc)
qed

end
