(* ===== verification/Config.thy ===== *)
theory Config
  imports GoTime
begin

text \<open>
  The configuration of the gateway, \<open>internal/config/config.go\<close>: the records the YAML file
  is decoded into, the defaults, the validation and the lookup of a client's effective limit.
  Decoding itself is the third-party package \<open>yaml.v3\<close> and URL parsing is \<open>net/url\<close>;
  both are parameters. A Go \<open>error\<close> that may be nil is an option, \<open>None\<close> for nil.
\<close>

section \<open>Names the configuration uses\<close>

definition algo_fixed_window :: string where "algo_fixed_window = ''fixed_window''"
definition algo_sliding_window :: string where "algo_sliding_window = ''sliding_window''"
definition algo_token_bucket :: string where "algo_token_bucket = ''token_bucket''"

definition backend_memory :: string where "backend_memory = ''memory''"
definition backend_redis :: string where "backend_redis = ''redis''"

definition on_error_fail_open :: string where "on_error_fail_open = ''fail_open''"
definition on_error_fail_closed :: string where "on_error_fail_closed = ''fail_closed''"
definition on_error_degrade :: string where "on_error_degrade = ''degrade''"

lemmas algo_defs = algo_fixed_window_def algo_sliding_window_def algo_token_bucket_def
lemmas backend_defs = backend_memory_def backend_redis_def
lemmas on_error_defs = on_error_fail_open_def on_error_fail_closed_def on_error_degrade_def

section \<open>The records\<close>

record limit =
  algorithm :: string
  rate :: int
  burst :: int
  window :: duration

record route =
  prefix_of :: string
  upstream :: string
  limit_of :: limit
  key_overrides :: "(string \<times> limit) list"

record server =
  listen :: string
  metrics_disabled :: bool
  demo_page :: bool
  read_header_timeout :: duration
  read_timeout :: duration
  write_timeout :: duration
  idle_timeout :: duration
  shutdown_timeout :: duration

record upstream_cfg =
  dial_timeout :: duration
  response_header_timeout :: duration

record redis_cfg =
  addr :: string
  on_error :: string

record limiter_cfg =
  backend :: string
  redis :: redis_cfg

record config =
  server_of :: server
  upstream_of :: upstream_cfg
  limiter_of :: limiter_cfg
  routes :: "route list"

text \<open>What \<open>url.Parse\<close> returns, as far as \<open>validate\<close> reads it.\<close>

record url =
  scheme :: string
  host :: string

type_synonym url_parser = "string \<Rightarrow> url option"

section \<open>Defaults\<close>

definition with_defaults :: "limit \<Rightarrow> limit" where
  "with_defaults l =
     (if algorithm l = algo_token_bucket \<and> window l = 0 then l\<lparr>window := second\<rparr> else l)"

definition default_duration :: "duration \<Rightarrow> duration \<Rightarrow> duration" where
  "default_duration d def = (if d = 0 then def else d)"

definition server_defaults :: "server \<Rightarrow> server" where
  "server_defaults s =
     s\<lparr>listen := (if listen s = [] then '':8080'' else listen s),
       read_header_timeout := default_duration (read_header_timeout s) (5 * second),
       read_timeout := default_duration (read_timeout s) (30 * second),
       write_timeout := default_duration (write_timeout s) (60 * second),
       idle_timeout := default_duration (idle_timeout s) (120 * second),
       shutdown_timeout := default_duration (shutdown_timeout s) (10 * second)\<rparr>"

definition upstream_defaults :: "upstream_cfg \<Rightarrow> upstream_cfg" where
  "upstream_defaults u =
     u\<lparr>dial_timeout := default_duration (dial_timeout u) (5 * second),
       response_header_timeout := default_duration (response_header_timeout u) (10 * second)\<rparr>"

definition limiter_defaults :: "limiter_cfg \<Rightarrow> limiter_cfg" where
  "limiter_defaults l =
     l\<lparr>backend := (if backend l = [] then backend_memory else backend l),
       redis := (redis l)
         \<lparr>on_error := (if on_error (redis l) = [] then on_error_degrade else on_error (redis l))\<rparr>\<rparr>"

definition apply_defaults :: "config \<Rightarrow> config" where
  "apply_defaults c =
     c\<lparr>server_of := server_defaults (server_of c),
       upstream_of := upstream_defaults (upstream_of c),
       limiter_of := limiter_defaults (limiter_of c),
       routes := map (\<lambda>r. r\<lparr>limit_of := with_defaults (limit_of r)\<rparr>) (routes c)\<rparr>"

section \<open>The effective limit of a client\<close>

definition merge_override :: "limit \<Rightarrow> limit \<Rightarrow> limit" where
  "merge_override base ov =
     (let m1 = (if rate ov \<noteq> 0 then base\<lparr>rate := rate ov\<rparr> else base);
          m2 = (if burst ov \<noteq> 0 then m1\<lparr>burst := burst ov\<rparr> else m1)
      in if window ov \<noteq> 0 then m2\<lparr>window := window ov\<rparr> else m2)"

definition limit_for :: "route \<Rightarrow> string \<Rightarrow> limit" where
  "limit_for r key =
     (case map_of (key_overrides r) key of
        None \<Rightarrow> with_defaults (limit_of r)
      | Some ov \<Rightarrow>
          if algorithm ov \<noteq> [] \<and> algorithm ov \<noteq> algorithm (limit_of r) then with_defaults ov
          else with_defaults (merge_override (limit_of r) ov))"

section \<open>Validation\<close>

datatype limit_error =
    RateNotPositive int
  | BurstNotPositive int
  | TokenWindowNotPositive
  | WindowNotPositive string
  | BurstOnWindow int string
  | UnknownAlgorithm string

definition limit_validate :: "limit \<Rightarrow> limit_error option" where
  "limit_validate l =
     (if rate l \<le> 0 then Some (RateNotPositive (rate l))
      else if algorithm l = algo_token_bucket then
        (if burst l \<le> 0 then Some (BurstNotPositive (burst l))
         else if window l \<le> 0 then Some TokenWindowNotPositive
         else None)
      else if algorithm l = algo_fixed_window \<or> algorithm l = algo_sliding_window then
        (if window l \<le> 0 then Some (WindowNotPositive (algorithm l))
         else if burst l \<noteq> 0 then Some (BurstOnWindow (burst l) (algorithm l))
         else None)
      else Some (UnknownAlgorithm (algorithm l)))"

datatype route_error =
    PrefixNotRooted string
  | UpstreamUnparsable string
  | UpstreamNotAbsolute string
  | BadLimit limit_error
  | EmptyApiKey
  | BadOverride string limit_error

definition has_prefix :: "string \<Rightarrow> string \<Rightarrow> bool" where
  "has_prefix s p = (take (length p) s = p)"

fun validate_overrides :: "route \<Rightarrow> string list \<Rightarrow> route_error option" where
  "validate_overrides r [] = None"
| "validate_overrides r (key # keys) =
     (if key = [] then Some EmptyApiKey
      else case limit_validate (limit_for r key) of
          Some e \<Rightarrow> Some (BadOverride key e)
        | None \<Rightarrow> validate_overrides r keys)"

definition route_validate :: "url_parser \<Rightarrow> route \<Rightarrow> route_error option" where
  "route_validate url_parse r =
     (if \<not> has_prefix (prefix_of r) ''/'' then Some (PrefixNotRooted (prefix_of r))
      else case url_parse (upstream r) of
          None \<Rightarrow> Some (UpstreamUnparsable (upstream r))
        | Some u \<Rightarrow>
            if (scheme u \<noteq> ''http'' \<and> scheme u \<noteq> ''https'') \<or> host u = []
            then Some (UpstreamNotAbsolute (upstream r))
            else case limit_validate (limit_of r) of
                Some e \<Rightarrow> Some (BadLimit e)
              | None \<Rightarrow> validate_overrides r (map fst (key_overrides r)))"

datatype config_error =
    NegativeTimeout string duration
  | RedisAddrMissing
  | UnknownBackend string
  | BadOnError string
  | NoRoutes
  | BadRoute nat route_error
  | DuplicatePrefix nat string

definition timeouts :: "config \<Rightarrow> (string \<times> duration) list" where
  "timeouts c =
     [(''server.read_header_timeout'', read_header_timeout (server_of c)),
      (''server.read_timeout'', read_timeout (server_of c)),
      (''server.write_timeout'', write_timeout (server_of c)),
      (''server.idle_timeout'', idle_timeout (server_of c)),
      (''server.shutdown_timeout'', shutdown_timeout (server_of c)),
      (''upstream.dial_timeout'', dial_timeout (upstream_of c)),
      (''upstream.response_header_timeout'', response_header_timeout (upstream_of c))]"

fun validate_timeouts :: "(string \<times> duration) list \<Rightarrow> config_error option" where
  "validate_timeouts [] = None"
| "validate_timeouts ((name, d) # ts) =
     (if d < 0 then Some (NegativeTimeout name d) else validate_timeouts ts)"

definition validate_limiter :: "limiter_cfg \<Rightarrow> config_error option" where
  "validate_limiter l =
     (if backend l \<noteq> backend_memory \<and> backend l \<noteq> backend_redis then Some (UnknownBackend (backend l))
      else if backend l = backend_redis \<and> addr (redis l) = [] then Some RedisAddrMissing
      else if on_error (redis l) \<notin> {on_error_fail_open, on_error_fail_closed, on_error_degrade}
      then Some (BadOnError (on_error (redis l)))
      else None)"

text \<open>\<open>strings.TrimRight(s, "/")\<close>.\<close>

definition trim_right_slash :: "string \<Rightarrow> string" where
  "trim_right_slash s = rev (dropWhile (\<lambda>c. c = CHR ''/'') (rev s))"

text \<open>The loop over the routes, with its index and the normalized prefixes seen so far.\<close>

fun validate_routes :: "url_parser \<Rightarrow> nat \<Rightarrow> string list \<Rightarrow> route list \<Rightarrow> config_error option" where
  "validate_routes url_parse i seen [] = None"
| "validate_routes url_parse i seen (r # rs) =
     (case route_validate url_parse r of
        Some e \<Rightarrow> Some (BadRoute i e)
      | None \<Rightarrow>
          (let norm = trim_right_slash (prefix_of r)
           in if norm \<in> set seen then Some (DuplicatePrefix i (prefix_of r))
              else validate_routes url_parse (Suc i) (norm # seen) rs))"

definition validate :: "url_parser \<Rightarrow> config \<Rightarrow> config_error option" where
  "validate url_parse c =
     (case validate_timeouts (timeouts c) of
        Some e \<Rightarrow> Some e
      | None \<Rightarrow>
          (case validate_limiter (limiter_of c) of
             Some e \<Rightarrow> Some e
           | None \<Rightarrow>
               if routes c = [] then Some NoRoutes
               else validate_routes url_parse 0 [] (routes c)))"

section \<open>Parsing\<close>

text \<open>
  What one call of the YAML decoder's \<open>Decode\<close> gives: the end of the input, an error, or a
  value. \<open>parse\<close> decodes twice, the second time only to see that nothing follows.
\<close>

datatype 'a decoded = DecodeEOF | DecodeError string | Decoded 'a

datatype parse_error = EmptyDocument | BadYaml string | MultipleDocuments | InvalidConfig config_error

definition parse :: "url_parser \<Rightarrow> config decoded \<Rightarrow> unit decoded \<Rightarrow> parse_error + config" where
  "parse url_parse first next =
     (case first of
        DecodeEOF \<Rightarrow> Inl EmptyDocument
      | DecodeError e \<Rightarrow> Inl (BadYaml e)
      | Decoded raw \<Rightarrow>
          if next \<noteq> DecodeEOF then Inl MultipleDocuments
          else
            (let c = apply_defaults raw
             in case validate url_parse c of
                  Some e \<Rightarrow> Inl (InvalidConfig e)
                | None \<Rightarrow> Inr c))"

datatype load_error = ReadConfig string | LoadParse string parse_error

text \<open>\<open>Load\<close>: \<open>read\<close> is the file system, \<open>decode\<close> the YAML decoder on the file's bytes.\<close>

definition load :: "(string \<Rightarrow> string + string) \<Rightarrow> (string \<Rightarrow> config decoded \<times> unit decoded) \<Rightarrow>
    url_parser \<Rightarrow> string \<Rightarrow> load_error + config" where
  "load read decode url_parse path =
     (case read path of
        Inl e \<Rightarrow> Inl (ReadConfig e)
      | Inr data \<Rightarrow>
          (case decode data of (first, next) \<Rightarrow>
             (case parse url_parse first next of
                Inl e \<Rightarrow> Inl (LoadParse path e)
              | Inr c \<Rightarrow> Inr c)))"

section \<open>What validation accepts\<close>

text \<open>The contract of \<open>Limit.validate\<close>, \<open>Route.validate\<close> and \<open>Config.validate\<close>.\<close>

definition limit_ok :: "limit \<Rightarrow> bool" where
  "limit_ok l \<longleftrightarrow>
     0 < rate l \<and> 0 < window l \<and>
     (if algorithm l = algo_token_bucket then 0 < burst l
      else algorithm l \<in> {algo_fixed_window, algo_sliding_window} \<and> burst l = 0)"

definition route_ok :: "url_parser \<Rightarrow> route \<Rightarrow> bool" where
  "route_ok url_parse r \<longleftrightarrow>
     has_prefix (prefix_of r) ''/'' \<and>
     (\<exists>u. url_parse (upstream r) = Some u \<and> scheme u \<in> {''http'', ''https''} \<and> host u \<noteq> []) \<and>
     limit_ok (limit_of r) \<and>
     (\<forall>key \<in> fst ` set (key_overrides r). key \<noteq> [] \<and> limit_ok (limit_for r key))"

definition config_ok :: "url_parser \<Rightarrow> config \<Rightarrow> bool" where
  "config_ok url_parse c \<longleftrightarrow>
     (\<forall>(name, d) \<in> set (timeouts c). 0 \<le> d) \<and>
     backend (limiter_of c) \<in> {backend_memory, backend_redis} \<and>
     (backend (limiter_of c) = backend_redis \<longrightarrow> addr (redis (limiter_of c)) \<noteq> []) \<and>
     on_error (redis (limiter_of c)) \<in> {on_error_fail_open, on_error_fail_closed, on_error_degrade} \<and>
     routes c \<noteq> [] \<and>
     (\<forall>r \<in> set (routes c). route_ok url_parse r) \<and>
     distinct (map (\<lambda>r. trim_right_slash (prefix_of r)) (routes c))"

lemma algo_distinct [simp]:
  "algo_fixed_window \<noteq> algo_sliding_window" "algo_sliding_window \<noteq> algo_fixed_window"
  "algo_fixed_window \<noteq> algo_token_bucket" "algo_token_bucket \<noteq> algo_fixed_window"
  "algo_sliding_window \<noteq> algo_token_bucket" "algo_token_bucket \<noteq> algo_sliding_window"
  "algo_fixed_window \<noteq> []" "algo_sliding_window \<noteq> []" "algo_token_bucket \<noteq> []"
  by (simp_all add: algo_defs)

lemma backend_distinct [simp]:
  "backend_memory \<noteq> backend_redis" "backend_redis \<noteq> backend_memory" "backend_memory \<noteq> []"
  "backend_redis \<noteq> []"
  by (simp_all add: backend_defs)

lemma limit_validate_iff: "limit_validate l = None \<longleftrightarrow> limit_ok l"
  by (auto simp: limit_validate_def limit_ok_def)

lemma limit_ok_algorithm:
  "limit_ok l \<Longrightarrow> algorithm l \<in> {algo_fixed_window, algo_sliding_window, algo_token_bucket}"
  by (auto simp: limit_ok_def split: if_splits)

lemma validate_overrides_iff:
  "validate_overrides r keys = None \<longleftrightarrow> (\<forall>key \<in> set keys. key \<noteq> [] \<and> limit_ok (limit_for r key))"
  by (induction r keys rule: validate_overrides.induct)
    (auto simp: limit_validate_iff [symmetric] split: option.split)

lemma route_validate_iff: "route_validate url_parse r = None \<longleftrightarrow> route_ok url_parse r"
  by (auto simp: route_validate_def route_ok_def validate_overrides_iff limit_validate_iff [symmetric]
      split: option.splits)

lemma validate_timeouts_iff:
  "validate_timeouts ts = None \<longleftrightarrow> (\<forall>(name, d) \<in> set ts. 0 \<le> d)"
  by (induction ts rule: validate_timeouts.induct) auto

lemma validate_limiter_iff:
  "validate_limiter l = None \<longleftrightarrow>
     backend l \<in> {backend_memory, backend_redis} \<and>
     (backend l = backend_redis \<longrightarrow> addr (redis l) \<noteq> []) \<and>
     on_error (redis l) \<in> {on_error_fail_open, on_error_fail_closed, on_error_degrade}"
  by (auto simp: validate_limiter_def)

lemma validate_routes_iff:
  "validate_routes url_parse i seen rs = None \<longleftrightarrow>
     (\<forall>r \<in> set rs. route_ok url_parse r) \<and>
     distinct (map (\<lambda>r. trim_right_slash (prefix_of r)) rs) \<and>
     set seen \<inter> set (map (\<lambda>r. trim_right_slash (prefix_of r)) rs) = {}"
proof (induction url_parse i seen rs rule: validate_routes.induct)
  case (2 url_parse i seen r rs)
  then show ?case
    by (cases "route_validate url_parse r")
      (auto simp: Let_def route_validate_iff [symmetric])
qed simp

lemma validate_iff: "validate url_parse c = None \<longleftrightarrow> config_ok url_parse c"
proof -
  have "validate url_parse c = None \<longleftrightarrow>
    validate_timeouts (timeouts c) = None \<and> validate_limiter (limiter_of c) = None \<and>
    routes c \<noteq> [] \<and> validate_routes url_parse 0 [] (routes c) = None"
    by (simp add: validate_def split: option.split)
  then show ?thesis
    by (simp add: config_ok_def validate_timeouts_iff validate_limiter_iff validate_routes_iff
        conj_ac)
qed

section \<open>Defaults and overrides\<close>

lemma with_defaults_idem [simp]: "with_defaults (with_defaults l) = with_defaults l"
  by (simp add: with_defaults_def second_def)

lemma with_defaults_ok: "limit_ok l \<Longrightarrow> with_defaults l = l"
  by (simp add: with_defaults_def limit_ok_def)

lemma default_duration_idem [simp]:
  "0 < def \<Longrightarrow> default_duration (default_duration d def) def = default_duration d def"
  by (simp add: default_duration_def)

lemma default_duration_pos:
  "0 \<le> default_duration d def \<Longrightarrow> 0 < def \<Longrightarrow> 0 < default_duration d def"
  by (simp add: default_duration_def split: if_splits)

lemma second_pos [simp]: "0 < second"
  by (simp add: second_def)

lemma section_defaults_idem [simp]:
  "server_defaults (server_defaults s) = server_defaults s"
  "upstream_defaults (upstream_defaults u) = upstream_defaults u"
  "limiter_defaults (limiter_defaults l) = limiter_defaults l"
  by (simp_all add: server_defaults_def upstream_defaults_def limiter_defaults_def on_error_defs)

lemma apply_defaults_idempotent: "apply_defaults (apply_defaults c) = apply_defaults c"
  by (simp add: apply_defaults_def)

lemma apply_defaults_timeouts:
  "(name, d) \<in> set (timeouts (apply_defaults c)) \<Longrightarrow> 0 \<le> d \<Longrightarrow> 0 < d"
  by (auto simp: timeouts_def apply_defaults_def server_defaults_def upstream_defaults_def
      intro!: default_duration_pos)

lemma parse_Inr:
  "parse url_parse first next = Inr c \<longleftrightarrow>
     (\<exists>raw. first = Decoded raw \<and> next = DecodeEOF \<and> c = apply_defaults raw \<and> config_ok url_parse c)"
  by (auto simp: parse_def Let_def validate_iff [symmetric] split: decoded.splits option.splits)

lemma limit_for_no_override:
  "map_of (key_overrides r) key = None \<Longrightarrow> limit_for r key = with_defaults (limit_of r)"
  by (simp add: limit_for_def)

lemma limit_for_ok:
  assumes "route_ok url_parse r"
  shows "limit_ok (limit_for r key)"
proof (cases "map_of (key_overrides r) key")
  case None
  then show ?thesis
    using assms by (simp add: limit_for_no_override with_defaults_ok route_ok_def)
next
  case (Some ov)
  then have "key \<in> fst ` set (key_overrides r)"
    by (metis domI dom_map_of_conv_image_fst)
  then show ?thesis using assms unfolding route_ok_def by blast
qed

section \<open>An example\<close>

text \<open>The configuration of \<open>config.example.yaml\<close>, as the decoder leaves it.\<close>

definition example_limit :: limit where
  "example_limit = \<lparr>algorithm = algo_token_bucket, rate = 10, burst = 20, window = 0\<rparr>"

definition example_routes :: "route list" where
  "example_routes =
     [\<lparr>prefix_of = ''/api/'', upstream = ''http://localhost:9000'', limit_of = example_limit,
       key_overrides =
         [(''demo-premium-key'', \<lparr>algorithm = [], rate = 100, burst = 200, window = 0\<rparr>)]\<rparr>,
      \<lparr>prefix_of = ''/search/'', upstream = ''http://localhost:9000'',
       limit_of = \<lparr>algorithm = algo_sliding_window, rate = 5, burst = 0, window = 10 * second\<rparr>,
       key_overrides = []\<rparr>,
      \<lparr>prefix_of = ''/auth/'', upstream = ''http://localhost:9000'',
       limit_of = \<lparr>algorithm = algo_fixed_window, rate = 3, burst = 0, window = 10 * second\<rparr>,
       key_overrides = []\<rparr>]"

definition example_config :: config where
  "example_config =
     \<lparr>server_of = \<lparr>listen = '':8080'', metrics_disabled = False, demo_page = False,
        read_header_timeout = 0, read_timeout = 0, write_timeout = 0, idle_timeout = 0,
        shutdown_timeout = 0\<rparr>,
      upstream_of = \<lparr>dial_timeout = 0, response_header_timeout = 0\<rparr>,
      limiter_of = \<lparr>backend = backend_memory, redis = \<lparr>addr = [], on_error = []\<rparr>\<rparr>,
      routes = example_routes\<rparr>"

definition example_url_parser :: url_parser where
  "example_url_parser s = (if s = ''http://localhost:9000'' then Some \<lparr>scheme = ''http'', host = ''localhost:9000''\<rparr> else None)"

lemma example_parses:
  "parse example_url_parser (Decoded example_config) DecodeEOF = Inr (apply_defaults example_config)"
  by code_simp

section \<open>Properties\<close>

text \<open>
  A configuration that \<open>Parse\<close> accepts serves every client under a usable limit: whatever
  key a request presents, overridden or not, the effective limit of a configured route has a
  positive rate, a positive window and one of the three algorithms, with a burst exactly where
  the algorithm has one.
\<close>

theorem parsed_limits_usable:
  assumes "parse url_parse first next = Inr c" and "r \<in> set (routes c)"
  shows "limit_ok (limit_for r key)"
  using assms by (auto simp: parse_Inr config_ok_def intro: limit_for_ok)

theorem parsed_limits_usable_witness:
  "limit_ok (limit_for (hd (routes (apply_defaults example_config))) ''demo-premium-key'')"
  by (rule parsed_limits_usable [OF example_parses])
    (simp add: apply_defaults_def example_config_def example_routes_def)

text \<open>
  C25. \<open>Parse\<close> accepts exactly the documents that meet the contract: one document that decodes, and
  whose configuration with the defaults filled in has no negative timeout, a known backend with its
  address, a known failure policy, and at least one route, each with a rooted prefix, an absolute
  http(s) upstream and usable limits for every key, the prefixes distinct up to trailing slashes.
  In what it accepts every timeout is positive and nothing is left to default.
\<close>

theorem parse_accepts_exactly:
  "(parse url_parse first next = Inr c \<longleftrightarrow>
      (\<exists>raw. first = Decoded raw \<and> next = DecodeEOF \<and> c = apply_defaults raw \<and> config_ok url_parse c)) \<and>
   (parse url_parse first next = Inr c \<longrightarrow> (\<forall>(name, d) \<in> set (timeouts c). 0 < d) \<and> apply_defaults c = c)"
proof (intro conjI impI)
  show "parse url_parse first next = Inr c \<longleftrightarrow>
      (\<exists>raw. first = Decoded raw \<and> next = DecodeEOF \<and> c = apply_defaults raw \<and> config_ok url_parse c)"
    by (rule parse_Inr)
  assume "parse url_parse first next = Inr c"
  then obtain raw where c: "c = apply_defaults raw" "config_ok url_parse c" unfolding parse_Inr by blast
  then show "\<forall>(name, d) \<in> set (timeouts c). 0 < d"
    using apply_defaults_timeouts [of _ _ raw] by (fastforce simp: config_ok_def)
  show "apply_defaults c = c" unfolding c(1) by (rule apply_defaults_idempotent)
qed

theorem parse_accepts_exactly_witness:
  "apply_defaults (apply_defaults example_config) = apply_defaults example_config \<and>
   0 < shutdown_timeout (server_of (apply_defaults example_config))"
proof -
  have "parse example_url_parser (Decoded example_config) DecodeEOF = Inr (apply_defaults example_config)"
    by (rule example_parses)
  with parse_accepts_exactly [of example_url_parser "Decoded example_config" DecodeEOF "apply_defaults example_config"]
  have "\<forall>(name, d) \<in> set (timeouts (apply_defaults example_config)). 0 < d"
    "apply_defaults (apply_defaults example_config) = apply_defaults example_config" by blast+
  then show ?thesis by (simp add: timeouts_def)
qed

end
