(* ===== verification/Bucket.thy ===== *)
theory Bucket
  imports Config
begin

text \<open>
  The decision a limiter returns (\<open>internal/limiter/limiter.go\<close>) and the interface of one
  key's state, \<open>bucket\<close> of \<open>internal/limiter/memory.go\<close>: a \<open>step\<close> that takes the
  state, the limit and the clock's reading and returns the decision and the new state. A Go
  runtime panic inside a step is the result \<open>None\<close>.
\<close>

section \<open>Decisions\<close>

record decision =
  allowed :: bool
  quota :: int
  remaining :: int
  reset :: gotime
  retry_after :: duration
  degraded :: bool

definition zero_decision :: decision where
  "zero_decision = \<lparr>allowed = False, quota = 0, remaining = 0, reset = zero_time,
     retry_after = 0, degraded = False\<rparr>"

text \<open>The limits a step can be given: valid, and made of \<open>int64\<close> values.\<close>

definition limit64 :: "limit \<Rightarrow> bool" where
  "limit64 l \<longleftrightarrow> limit_ok l \<and> in_int64 (rate l) \<and> in_int64 (burst l) \<and> in_int64 (window l)"

lemma limit64D [dest]:
  "limit64 l \<Longrightarrow> 0 < rate l" "limit64 l \<Longrightarrow> 0 < window l" "limit64 l \<Longrightarrow> in_int64 (rate l)"
  "limit64 l \<Longrightarrow> in_int64 (window l)" "limit64 l \<Longrightarrow> in_int64 (burst l)" "limit64 l \<Longrightarrow> limit_ok l"
  by (auto simp: limit64_def limit_ok_def)

text \<open>
  What every decision taken under the limit promises the gateway: the reported quota is the
  limit's, what remains lies between zero and it, a grant leaves room for the request itself and
  advises no wait, a denial reports nothing left.
\<close>

definition decision_ok :: "int \<Rightarrow> decision \<Rightarrow> bool" where
  "decision_ok n d \<longleftrightarrow>
     quota d = n \<and> 0 \<le> remaining d \<and> remaining d \<le> n \<and>
     (allowed d \<longrightarrow> remaining d < n \<and> retry_after d = 0) \<and>
     (\<not> allowed d \<longrightarrow> remaining d = 0)"

section \<open>Running one key's bucket\<close>

type_synonym 'b stepper = "'b \<Rightarrow> limit \<Rightarrow> gotime \<Rightarrow> (decision \<times> 'b) option"

fun run :: "'b stepper \<Rightarrow> limit \<Rightarrow> 'b \<Rightarrow> gotime list \<Rightarrow> ((gotime \<times> decision) list \<times> 'b) option" where
  "run step l b [] = Some ([], b)"
| "run step l b (t # ts) =
     (case step b l t of
        None \<Rightarrow> None
      | Some (d, b') \<Rightarrow>
          (case run step l b' ts of
             None \<Rightarrow> None
           | Some (ds, b'') \<Rightarrow> Some ((t, d) # ds, b'')))"

lemma run_append:
  "run step l b (xs @ ys) =
     (case run step l b xs of
        None \<Rightarrow> None
      | Some (ds, b') \<Rightarrow>
          (case run step l b' ys of
             None \<Rightarrow> None
           | Some (es, b'') \<Rightarrow> Some (ds @ es, b'')))"
  by (induction xs arbitrary: b) (auto split: option.splits)

lemma run_times: "run step l b ts = Some (ds, b') \<Longrightarrow> map fst ds = ts"
  by (induction ts arbitrary: b ds b') (auto split: option.splits prod.splits)

lemma run_Cons:
  "run step l b (t # ts) = Some (ds, b'') \<longleftrightarrow>
     (\<exists>d b' es. step b l t = Some (d, b') \<and> run step l b' ts = Some (es, b'') \<and> ds = (t, d) # es)"
  by (auto split: option.splits)

lemma run_snoc:
  "run step l b (ts @ [t]) = Some (ds, b'') \<longleftrightarrow>
     (\<exists>es b' d. run step l b ts = Some (es, b') \<and> step b' l t = Some (d, b'') \<and> ds = es @ [(t, d)])"
  by (auto simp: run_append split: option.splits)

text \<open>The requests of a run that were admitted, and how many there are among those chosen by \<open>P\<close>.\<close>

definition admitted :: "(gotime \<times> decision) list \<Rightarrow> gotime list" where
  "admitted ds = map fst (filter (\<lambda>x. allowed (snd x)) ds)"

definition admits :: "(gotime \<Rightarrow> bool) \<Rightarrow> (gotime \<times> decision) list \<Rightarrow> nat" where
  "admits P ds = length (filter P (admitted ds))"

lemma admitted_simps [simp]:
  "admitted [] = []" "admitted ((t, d) # ds) = (if allowed d then t # admitted ds else admitted ds)"
  "admitted (ds @ es) = admitted ds @ admitted es"
  by (auto simp: admitted_def)

lemma admits_simps [simp]:
  "admits P [] = 0"
  "admits P ((t, d) # ds) = (if allowed d \<and> P t then 1 else 0) + admits P ds"
  "admits P (ds @ es) = admits P ds + admits P es"
  by (auto simp: admits_def)

lemma admits_mono: "(\<And>t. t \<in> set (admitted ds) \<Longrightarrow> P t \<Longrightarrow> Q t) \<Longrightarrow> admits P ds \<le> admits Q ds"
  unfolding admits_def by (rule length_filter_mono)

lemma admits_union: "admits (\<lambda>t. P t \<or> Q t) ds \<le> admits P ds + admits Q ds"
  unfolding admits_def by (rule length_filter_union)

lemma admitted_times: "set (admitted ds) \<subseteq> set (map fst ds)"
  by (auto simp: admitted_def)

section \<open>The interface\<close>

text \<open>
  \<open>inv l b\<close> is what holds between the requests of a key served under \<open>l\<close>, \<open>quota_of\<close> the
  number a decision reports as its limit, \<open>serves\<close> the limits the algorithm is configured with,
  \<open>fresh l\<close> the state of a key never seen.
\<close>

locale bucket =
  fixes step :: "'b stepper"
    and fresh :: "limit \<Rightarrow> 'b"
    and inv :: "limit \<Rightarrow> 'b \<Rightarrow> bool"
    and quota_of :: "limit \<Rightarrow> int"
    and serves :: "limit \<Rightarrow> bool"
  assumes inv_fresh: "serves l \<Longrightarrow> inv l (fresh l)"
    and step_returns: "serves l \<Longrightarrow> inv l b \<Longrightarrow> step b l t \<noteq> None"
    and step_inv: "serves l \<Longrightarrow> inv l b \<Longrightarrow> step b l t = Some (d, b') \<Longrightarrow> inv l b'"
    and step_decision: "serves l \<Longrightarrow> inv l b \<Longrightarrow> step b l t = Some (d, b') \<Longrightarrow> decision_ok (quota_of l) d"
    and step_undegraded: "serves l \<Longrightarrow> inv l b \<Longrightarrow> step b l t = Some (d, b') \<Longrightarrow> \<not> degraded d"
begin

lemma run_returns:
  assumes "serves l" and "inv l b"
  shows "\<exists>ds b'. run step l b ts = Some (ds, b') \<and> inv l b'"
  using assms(2)
proof (induction ts arbitrary: b)
  case (Cons t ts)
  obtain d b' where s: "step b l t = Some (d, b')"
    using step_returns [OF assms(1) Cons.prems] by fastforce
  with Cons.IH [OF step_inv [OF assms(1) Cons.prems s]] show ?case by auto
qed simp

lemma run_inv: "serves l \<Longrightarrow> inv l b \<Longrightarrow> run step l b ts = Some (ds, b') \<Longrightarrow> inv l b'"
  using run_returns [of l b ts] by auto

lemma run_decisions:
  assumes "serves l" and "inv l b" and "run step l b ts = Some (ds, b')" and "(t, d) \<in> set ds"
  shows "decision_ok (quota_of l) d"
  using assms(2-)
proof (induction ts arbitrary: b ds)
  case (Cons u ts)
  obtain e c es where u: "step b l u = Some (e, c)" and r: "run step l c ts = Some (es, b')"
    and ds: "ds = (u, e) # es"
    using Cons.prems(2) by (auto simp: run_Cons simp del: run.simps)
  from Cons.IH [OF step_inv [OF assms(1) Cons.prems(1) u] r] Cons.prems(3)
    step_decision [OF assms(1) Cons.prems(1) u] ds
  show ?case by auto
qed simp

end

text \<open>
  A bucket whose \<open>RetryAfter\<close> is exact. \<open>tick\<close> is the clock reading the algorithm goes by,
  \<open>coh l t\<close> says that the reading \<open>t\<close> is of the clock's kind, \<open>fit l b x\<close> that the readings
  the state holds are, and that none is later than \<open>x\<close>.
\<close>

locale exact_bucket = bucket +
  fixes tick :: "gotime \<Rightarrow> int"
    and coh :: "limit \<Rightarrow> gotime \<Rightarrow> bool"
    and fit :: "limit \<Rightarrow> 'a \<Rightarrow> int \<Rightarrow> bool"
  assumes fit_fresh: "fit l (fresh l) x"
    and fit_step: "\<lbrakk>serves l; inv l b; fit l b x; x \<le> tick t; coh l t; step b l t = Some (d, b')\<rbrakk>
      \<Longrightarrow> fit l b' (tick t)"
    and deny_until:
      "\<lbrakk>serves l; inv l b; fit l b x; x \<le> tick t; coh l t; step b l t = Some (d, b'); \<not> allowed d;
        coh l u; tick t \<le> tick u; step b' l u = Some (e, b'')\<rbrakk>
       \<Longrightarrow> allowed e \<longleftrightarrow> tick t + retry_after d \<le> tick u"
    and deny_again:
      "\<lbrakk>serves l; inv l b; fit l b x; x \<le> tick t; coh l t; step b l t = Some (d, b'); \<not> allowed d;
        coh l u; tick t \<le> tick u; step b' l u = Some (e, b''); \<not> allowed e\<rbrakk>
       \<Longrightarrow> tick u + retry_after e = tick t + retry_after d"
begin

lemma run_fit:
  assumes "serves l" and "inv l b" and "fit l b x" and "\<forall>t \<in> set ts. coh l t"
    and "sorted (x # map tick ts)" and "run step l b ts = Some (ds, b')" and "\<forall>t \<in> set ts. tick t \<le> y" and "x \<le> y"
  shows "\<exists>z \<le> y. fit l b' z"
  using assms(2-)
proof (induction ts arbitrary: b ds x)
  case (Cons t ts)
  obtain d c es where t: "step b l t = Some (d, c)" and r: "run step l c ts = Some (es, b')"
    using Cons.prems(5) by (auto simp: run_Cons simp del: run.simps)
  have "fit l c (tick t)"
    using fit_step [OF assms(1) Cons.prems(1,2) _ _ t] Cons.prems(3,4) by simp
  from Cons.IH [OF step_inv [OF assms(1) Cons.prems(1) t] this _ _ r] show ?case
    using Cons.prems(3,4,6) by simp
qed auto

text \<open>A denied client that keeps asking is denied until the advised instant and admitted then.\<close>

lemma polling:
  assumes "serves l" and "inv l b" and "fit l b x" and "x \<le> tick t" and "coh l t"
    and "step b l t = Some (d, b')" and "\<not> allowed d"
    and "\<forall>u \<in> set us. coh l u" and "sorted (map tick (t # us))"
    and "run step l b' us = Some (ds, b'')" and "\<forall>u \<in> set us. tick u < tick t + retry_after d"
    and "coh l v" and "tick t + retry_after d \<le> tick v" and "\<forall>u \<in> set (t # us). tick u \<le> tick v"
    and "step b'' l v = Some (e, c)"
  shows "admitted ds = [] \<and> allowed e"
  using assms(2-)
proof (induction us arbitrary: b t d b' ds x)
  case Nil
  then have "ds = []" and v: "step b' l v = Some (e, c)" by auto
  moreover have "allowed e"
    using deny_until [OF assms(1) Nil.prems(1-6) Nil.prems(11) _ v] Nil.prems(12,13) by simp
  ultimately show ?case by simp
next
  case (Cons u us)
  obtain e' c' es where u: "step b' l u = Some (e', c')" and r: "run step l c' us = Some (es, b'')"
    and ds: "ds = (u, e') # es"
    using Cons.prems(9) by (auto simp: run_Cons simp del: run.simps)
  have i: "inv l b'" using step_inv assms(1) Cons.prems(1,5) by blast
  have f: "fit l b' (tick t)" using fit_step [OF assms(1) Cons.prems(1-5)] .
  have cu: "coh l u" and tu: "tick t \<le> tick u" using Cons.prems(7,8) by auto
  have na: "\<not> allowed e'"
    using deny_until [OF assms(1) Cons.prems(1-6) cu tu u] Cons.prems(10) by simp
  have eq: "tick u + retry_after e' = tick t + retry_after d"
    by (rule deny_again [OF assms(1) Cons.prems(1-6) cu tu u na])
  have "admitted es = [] \<and> allowed e"
    by (rule Cons.IH [OF i f tu cu u na _ _ r _ Cons.prems(11) _ _ Cons.prems(14)])
      (use Cons.prems(7,8,10,12,13) eq in auto)
  then show ?case using na ds by simp
qed

end

end
