(* ===== verification/Fixed_Window.thy ===== *)
theory Fixed_Window
  imports Bucket
begin

text \<open>
  The fixed_window algorithm, \<open>internal/limiter/fixed_window.go\<close>: a counter of admitted
  requests that restarts at every window of a grid anchored at Go's zero time.
\<close>

section \<open>The code\<close>

record fixed_window =
  window_start :: gotime
  count :: int

definition fixed_window_fresh :: fixed_window where
  "fixed_window_fresh = \<lparr>window_start = zero_time, count = 0\<rparr>"

definition fixed_window_step :: "fixed_window stepper" where
  "fixed_window_step b l now =
     (let ws = time_truncate now (window l);
          b1 = (if \<not> time_equal ws (window_start b) then b\<lparr>window_start := ws, count := 0\<rparr> else b);
          rst = time_add ws (window l);
          ok = count b1 < rate l;
          b2 = (if ok then b1\<lparr>count := wrap64 (count b1 + 1)\<rparr> else b1);
          rem = wrap64 (rate l - count b2)
      in Some (\<lparr>allowed = ok, quota = rate l, remaining = (if rem < 0 then 0 else rem), reset = rst,
                retry_after = (if ok then 0 else time_sub rst now), degraded = False\<rparr>,
               b2))"

section \<open>The bucket's contract\<close>

definition fixed_window_inv :: "limit \<Rightarrow> fixed_window \<Rightarrow> bool" where
  "fixed_window_inv l b \<longleftrightarrow> 0 \<le> count b \<and> count b \<le> rate l \<and> mono (window_start b) = None"

definition serves_fixed :: "limit \<Rightarrow> bool" where
  "serves_fixed l \<longleftrightarrow> limit64 l \<and> algorithm l = algo_fixed_window"

text \<open>The number already admitted in the window of \<open>t\<close>, and the state after a step.\<close>

definition counted :: "fixed_window \<Rightarrow> limit \<Rightarrow> gotime \<Rightarrow> int" where
  "counted b l t = (if wall (time_truncate t (window l)) = wall (window_start b) then count b else 0)"

lemma counted_bounds: "fixed_window_inv l b \<Longrightarrow> limit64 l \<Longrightarrow> 0 \<le> counted b l t \<and> counted b l t \<le> rate l"
  by (auto simp: counted_def fixed_window_inv_def)

lemma retry_wall:
  assumes "limit64 l"
  shows "time_sub (time_add (time_truncate t (window l)) (window l)) t
           = wall (time_truncate t (window l)) + window l - wall t"
proof -
  have w: "0 < window l" "in_int64 (window l)" using assms by auto
  then have "in_int64 (wall (time_truncate t (window l)) + window l - wall t)"
    using truncate_le [OF w(1), of t] truncate_gt [OF w(1), of t]
    by (auto simp: in_int64_def int64_min_def)
  then show ?thesis by (simp add: time_sub_def time_add_def sat64_id)
qed

lemma fixed_window_step_eq:
  assumes "limit64 l" and "fixed_window_inv l b"
  shows "fixed_window_step b l t =
    (let c = counted b l t; ok = c < rate l; c' = (if ok then c + 1 else c);
         ws = time_truncate t (window l)
     in Some (\<lparr>allowed = ok, quota = rate l, remaining = rate l - c', reset = time_add ws (window l),
               retry_after = (if ok then 0 else wall ws + window l - wall t), degraded = False\<rparr>,
              \<lparr>window_start = (if wall ws = wall (window_start b) then window_start b else ws),
               count = c'\<rparr>))"
proof -
  note c = counted_bounds [OF assms(2,1), of t]
  have r: "in_int64 (rate l)" using assms(1) by auto
  have "in_int64 (counted b l t + 1)" if "counted b l t < rate l"
    using that c r by (intro int64_between [OF _ _ r]) auto
  moreover have "in_int64 (rate l - k)" if "0 \<le> k" "k \<le> rate l" for k
    using that by (intro int64_between [OF _ _ r]) auto
  ultimately show ?thesis
    using assms c
    by (auto simp: fixed_window_step_def Let_def time_equal_wall retry_wall counted_def wrap64_id
        fixed_window_inv_def)
qed

lemma fixed_window_step_facts:
  assumes "limit64 l" and "fixed_window_inv l b" and "fixed_window_step b l t = Some (d, b')"
  shows "allowed d \<longleftrightarrow> counted b l t < rate l"
    and "count b' = counted b l t + (if allowed d then 1 else 0)"
    and "wall (window_start b') = wall (time_truncate t (window l))"
    and "fixed_window_inv l b'"
    and "decision_ok (rate l) d" and "\<not> degraded d"
    and "\<not> allowed d \<Longrightarrow> retry_after d = wall (time_truncate t (window l)) + window l - wall t"
  using assms(3) counted_bounds [OF assms(2,1), of t] assms(2) truncate_gt [of "window l" t]
    limit64D(2) [OF assms(1)]
  unfolding fixed_window_step_eq [OF assms(1,2)]
  by (auto simp: Let_def fixed_window_inv_def decision_ok_def)

interpretation fw: bucket fixed_window_step "\<lambda>l. fixed_window_fresh" fixed_window_inv rate serves_fixed
proof
  fix l b t d b'
  assume s: "serves_fixed l"
  then have l: "limit64 l" by (simp add: serves_fixed_def)
  show "fixed_window_inv l fixed_window_fresh"
    using l by (auto simp: fixed_window_inv_def fixed_window_fresh_def zero_time_def)
  show "fixed_window_step b l t \<noteq> None" by (simp add: fixed_window_step_def Let_def)
  assume "fixed_window_inv l b" and "fixed_window_step b l t = Some (d, b')"
  note f = fixed_window_step_facts [OF l this]
  show "fixed_window_inv l b'" "decision_ok (rate l) d" "\<not> degraded d" using f by auto
qed

text \<open>Later readings stay in the window exactly up to its end.\<close>

lemma same_window_iff:
  assumes "0 < w" and "wall t \<le> wall u"
  shows "wall (time_truncate u w) = wall (time_truncate t w) \<longleftrightarrow> wall u < wall (time_truncate t w) + w"
proof -
  have "wall (time_truncate t w) \<le> wall (time_truncate u w)"
    using assms by (rule truncate_mono_wall)
  moreover have "wall (time_truncate t w) + w \<le> wall (time_truncate u w)"
    if "wall (time_truncate t w) < wall (time_truncate u w)"
  proof -
    have "wall t div w < wall u div w" using that assms(1) by (simp add: truncate_wall)
    then have "(wall t div w + 1) * w \<le> wall u div w * w"
      using assms(1) by (intro mult_right_mono) auto
    then show ?thesis using assms(1) by (simp add: truncate_wall algebra_simps)
  qed
  ultimately show ?thesis
    using truncate_le [OF assms(1), of u] truncate_gt [OF assms(1), of u] by linarith
qed

interpretation fwx: exact_bucket fixed_window_step "\<lambda>l. fixed_window_fresh" fixed_window_inv rate serves_fixed
    wall "\<lambda>l t. True" "\<lambda>l b x. True"
proof
  fix l b t d b' u e b''
  assume "serves_fixed l" and i: "fixed_window_inv l b" and s: "fixed_window_step b l t = Some (d, b')"
    and na: "\<not> allowed d" and tu: "wall t \<le> wall u" and su: "fixed_window_step b' l u = Some (e, b'')"
  then have l: "limit64 l" and w: "0 < window l" by (auto simp: serves_fixed_def)
  note f = fixed_window_step_facts [OF l i s]
  note g = fixed_window_step_facts [OF l f(4) su]
  have full: "count b' = rate l"
    using f(1,2) na counted_bounds [OF i l, of t] by auto
  note same = same_window_iff [OF w tu]
  show "allowed e \<longleftrightarrow> wall t + retry_after d \<le> wall u"
    using g(1) f(3) f(7) [OF na] full same l by (auto simp: counted_def)
  show "wall u + retry_after e = wall t + retry_after d" if "\<not> allowed e"
    using g(1) f(3) f(7) [OF na] g(7) [OF that] that full same l by (auto simp: counted_def split: if_splits)
qed simp_all

section \<open>How many requests a window admits\<close>

definition in_grid :: "limit \<Rightarrow> int \<Rightarrow> gotime \<Rightarrow> bool" where
  "in_grid l g t \<longleftrightarrow> wall (time_truncate t (window l)) = g"

text \<open>
  From a state with \<open>c\<close> requests of the window \<open>g\<close> counted, requests in wall-clock order
  are admitted in \<open>g\<close> until the rate is used up; windows already left are not re-entered.
\<close>

lemma quota_from:
  assumes l: "limit64 l" and "fixed_window_inv l b" and "sorted (map wall ts)"
    and "run fixed_window_step l b ts = Some (ds, b')"
    and "g = wall (window_start b) \<Longrightarrow> count b = 0 \<or> (\<forall>t \<in> set ts. g \<le> wall (time_truncate t (window l)))"
  shows "int (admits (in_grid l g) ds) =
    min (rate l - (if g = wall (window_start b) then count b else 0)) (int (length (filter (in_grid l g) ts)))"
  using assms(2-)
proof (induction ts arbitrary: b ds)
  case Nil
  then show ?case using l by (auto simp: fixed_window_inv_def)
next
  case (Cons t ts)
  have w: "0 < window l" using l by auto
  obtain d c es where t: "fixed_window_step b l t = Some (d, c)"
    and r: "run fixed_window_step l c ts = Some (es, b')" and ds: "ds = (t, d) # es"
    using Cons.prems(3) by (auto simp: run_Cons simp del: run.simps)
  note f = fixed_window_step_facts [OF l Cons.prems(1) t]
  have later: "\<forall>u \<in> set ts. wall (time_truncate t (window l)) \<le> wall (time_truncate u (window l))"
    using Cons.prems(2) by (auto intro: truncate_mono_wall [OF w])
  have IH: "int (admits (in_grid l g) es) =
    min (rate l - (if g = wall (window_start c) then count c else 0)) (int (length (filter (in_grid l g) ts)))"
    by (rule Cons.IH [OF f(4) _ r]) (use Cons.prems(2) later f(3) in auto)
  show ?case
  proof (cases "in_grid l g t")
    case True
    define k n where "k = (if g = wall (window_start b) then count b else 0)"
      and "n = int (length (filter (in_grid l g) ts))"
    have g: "g = wall (time_truncate t (window l))" using True by (simp add: in_grid_def)
    have c: "counted b l t = k" by (auto simp: counted_def g k_def)
    have "int (admits (in_grid l g) es) = min (rate l - (k + (if allowed d then 1 else 0))) n"
      using IH f(2,3) by (simp add: c g n_def)
    moreover have "int (admits (in_grid l g) ds) = (if allowed d then 1 else 0) + int (admits (in_grid l g) es)"
      using True by (simp add: ds)
    moreover have "k \<le> rate l" "0 \<le> n" and "allowed d \<longleftrightarrow> k < rate l"
      using counted_bounds [OF Cons.prems(1) l, of t] f(1) by (auto simp: c n_def)
    ultimately have "int (admits (in_grid l g) ds) = min (rate l - k) (n + 1)"
      by (auto simp: min_def)
    then show ?thesis using True by (simp add: k_def n_def)
  next
    case False
    have "filter (in_grid l g) ts = []" if "g = wall (window_start b)" "count b \<noteq> 0"
    proof -
      have "g < wall (time_truncate t (window l))"
        using Cons.prems(4) that False by (fastforce simp: in_grid_def)
      then show ?thesis using later by (auto simp: filter_empty_conv in_grid_def)
    qed
    moreover have "g \<noteq> wall (window_start c)" using f(3) False by (auto simp: in_grid_def)
    moreover have "0 \<le> count b \<and> count b \<le> rate l"
      using Cons.prems(1) by (simp add: fixed_window_inv_def)
    ultimately show ?thesis using IH ds False by (cases "count b = 0") auto
  qed
qed

lemma fixed_window_inv_fresh: "limit64 l \<Longrightarrow> fixed_window_inv l fixed_window_fresh"
  by (auto simp: fixed_window_inv_def fixed_window_fresh_def zero_time_def)

lemma quota_fresh:
  assumes "serves_fixed l" and "sorted (map wall ts)"
    and "run fixed_window_step l fixed_window_fresh ts = Some (ds, b)"
  shows "int (admits (in_grid l g) ds) = min (rate l) (int (length (filter (in_grid l g) ts)))"
  using quota_from [OF _ fixed_window_inv_fresh assms(2,3), of g] assms(1)
  by (simp add: serves_fixed_def fixed_window_fresh_def)

text \<open>An interval one window long meets two windows of the grid at most.\<close>

lemma interval_in_grid:
  assumes "0 < w" and "x \<le> wall t" and "wall t < x + w"
  shows "wall (time_truncate t w) = x div w * w \<or> wall (time_truncate t w) = x div w * w + w"
proof -
  have "x div w \<le> wall t div w" using assms by (intro zdiv_mono1) auto
  moreover have "wall t div w \<le> (x + w) div w" using assms by (intro zdiv_mono1) auto
  ultimately have "wall t div w = x div w \<or> wall t div w = x div w + 1"
    using assms(1) by auto
  then show ?thesis using assms(1) by (auto simp: truncate_wall algebra_simps)
qed

lemma quota_interval:
  assumes "serves_fixed l" and "sorted (map wall ts)"
    and "run fixed_window_step l fixed_window_fresh ts = Some (ds, b)"
  shows "int (admits (\<lambda>t. x \<le> wall t \<and> wall t < x + window l) ds) \<le> 2 * rate l"
proof -
  define g where "g = x div window l * window l"
  have w: "0 < window l" using assms(1) by (auto simp: serves_fixed_def)
  have "admits (\<lambda>t. x \<le> wall t \<and> wall t < x + window l) ds
      \<le> admits (\<lambda>t. in_grid l g t \<or> in_grid l (g + window l) t) ds"
    using interval_in_grid [OF w, of x] by (intro admits_mono) (auto simp: in_grid_def g_def)
  also have "\<dots> \<le> admits (in_grid l g) ds + admits (in_grid l (g + window l)) ds"
    by (rule admits_union)
  finally show ?thesis
    using quota_fresh [OF assms, of g] quota_fresh [OF assms, of "g + window l"] by linarith
qed

section \<open>Bursts of requests at one instant\<close>

text \<open>\<open>burst_at m w n\<close>: \<open>n\<close> requests at the wall reading \<open>w\<close>, with the monotonic clock
  advancing by a nanosecond from \<open>m\<close>.\<close>

definition burst_at :: "nat \<Rightarrow> int \<Rightarrow> nat \<Rightarrow> gotime list" where
  "burst_at m w n = map (\<lambda>i. \<lparr>wall = w, mono = Some (int i)\<rparr>) [m..<m + n]"

lemma burst_at_simps [simp]:
  "length (burst_at m w n) = n" "map wall (burst_at m w n) = replicate n w"
  "map instant (burst_at m w n) = map int [m..<m + n]"
  by (auto simp: burst_at_def instant_def map_replicate_const intro!: nth_equalityI)

lemma burst_at_times: "t \<in> set (burst_at m w n) \<Longrightarrow> wall t = w"
  by (auto simp: burst_at_def)

lemma burst_at_grid:
  assumes "0 < window l"
  shows "filter (in_grid l g) (burst_at m w n) = (if w div window l * window l = g then burst_at m w n else [])"
proof -
  have "in_grid l g t \<longleftrightarrow> w div window l * window l = g" if "t \<in> set (burst_at m w n)" for t
    using burst_at_times [OF that] assms by (simp add: in_grid_def truncate_wall)
  then show ?thesis by (simp add: filter_id_conv filter_empty_conv)
qed

text \<open>
  A wall clock that steps back over a window boundary while the monotonic clock advances: the
  window it returns to is counted from zero again.
\<close>

lemma burst_at_run:
  assumes "limit64 l" and "fixed_window_inv l b" and "run fixed_window_step l b (burst_at m w n) = Some (ds, b')"
    and "g = w div window l * window l" and "g = wall (window_start b) \<Longrightarrow> count b = 0"
  shows "int (admits (in_grid l g) ds) = min (rate l) (int n)"
  using quota_from [OF assms(1,2) _ assms(3), of g] assms(1,4,5) burst_at_grid [of l g m w n]
  by (auto split: if_splits)

lemma run_window_start:
  assumes s: "serves_fixed l" and "fixed_window_inv l b"
    and "run fixed_window_step l b (ts @ [t]) = Some (ds, b')"
  shows "wall (window_start b') = wall (time_truncate t (window l))" and "fixed_window_inv l b'"
proof -
  obtain es c d where r: "run fixed_window_step l b ts = Some (es, c)"
    and t: "fixed_window_step c l t = Some (d, b')"
    using assms(3) by (auto simp: run_snoc)
  have l: "limit64 l" using s by (simp add: serves_fixed_def)
  have "fixed_window_inv l c" by (rule fw.run_inv [OF s assms(2) r])
  then show "wall (window_start b') = wall (time_truncate t (window l))" "fixed_window_inv l b'"
    using fixed_window_step_facts(3,4) [OF l _ t] by blast+
qed

definition step_back :: "limit \<Rightarrow> int \<Rightarrow> gotime list" where
  "step_back l w =
     burst_at 0 w (nat (rate l)) @ burst_at (nat (rate l)) (w + window l) 1
       @ burst_at (nat (rate l) + 1) w (nat (rate l))"

lemma step_back_monotonic: "sorted_wrt (<) (map instant (step_back l w))"
  by (auto simp: step_back_def sorted_wrt_append sorted_wrt_map)

lemma step_back_admits:
  assumes s: "serves_fixed l" and g: "g = w div window l * window l"
    and r: "run fixed_window_step l fixed_window_fresh (step_back l w) = Some (ds, b)"
  shows "int (admits (in_grid l g) ds) = 2 * rate l"
proof -
  have l: "limit64 l" and w: "0 < window l" and n: "0 < rate l"
    using s by (auto simp: serves_fixed_def)
  let ?A = "burst_at 0 w (nat (rate l))"
  let ?t = "\<lparr>wall = w + window l, mono = Some (int (nat (rate l)))\<rparr>"
  let ?C = "burst_at (nat (rate l) + 1) w (nat (rate l))"
  have eq: "step_back l w = (?A @ [?t]) @ ?C" by (simp add: step_back_def burst_at_def)
  obtain d1 b1 d2 where r1: "run fixed_window_step l fixed_window_fresh (?A @ [?t]) = Some (d1, b1)"
    and r2: "run fixed_window_step l b1 ?C = Some (d2, b)" and ds: "ds = d1 @ d2"
    using r unfolding eq run_append [of _ _ _ "?A @ [?t]"] by (auto split: option.splits)
  note b1 = run_window_start [OF s fixed_window_inv_fresh [OF l] r1]
  have ne: "g \<noteq> wall (window_start b1)"
    using w by (simp add: b1(1) truncate_wall g algebra_simps)
  have out: "\<not> in_grid l g ?t" using w by (simp add: in_grid_def truncate_wall g algebra_simps)
  have "sorted (map wall (?A @ [?t]))" using w by (auto simp: sorted_append)
  from quota_fresh [OF s this r1, of g] have "int (admits (in_grid l g) d1) = rate l"
    using out w n by (simp add: burst_at_grid g)
  moreover have "int (admits (in_grid l g) d2) = rate l"
    using burst_at_run [OF l b1(2) r2 g] ne n by simp
  ultimately show ?thesis by (simp add: ds)
qed

section \<open>Properties\<close>

text \<open>
  C12. Over any sequence of requests in wall-clock order, a fixed-window key admits in every window
  of the grid exactly the smaller of its rate and the number of requests that fell in it: never
  one more, and never a denial while quota is left.
\<close>

theorem fixed_window_exact_quota:
  assumes "serves_fixed l" and "sorted (map wall ts)"
    and "run fixed_window_step l fixed_window_fresh ts = Some (ds, b)"
  shows "int (admits (\<lambda>t. wall (time_truncate t (window l)) = g) ds)
    = min (rate l) (int (length (filter (\<lambda>t. wall (time_truncate t (window l)) = g) ts)))"
  using quota_fresh [OF assms, of g] by (simp add: in_grid_def [abs_def])

text \<open>
  The price of the grid is bounded: in wall-clock order, no interval of one window's length
  admits more than twice the rate.
\<close>

theorem fixed_window_interval_bound:
  assumes "serves_fixed l" and "sorted (map wall ts)"
    and "run fixed_window_step l fixed_window_fresh ts = Some (ds, b)"
  shows "int (admits (\<lambda>t. x \<le> wall t \<and> wall t < x + window l) ds) \<le> 2 * rate l"
  by (rule quota_interval [OF assms])

text \<open>
  And the bound is attained, the weakness the algorithm's comment concedes: under every
  fixed-window limit a burst that straddles a window boundary, all within two nanoseconds, has
  twice the rate admitted.
\<close>

theorem fixed_window_boundary_burst:
  assumes "serves_fixed l"
  shows "\<exists>ts ds b. run fixed_window_step l fixed_window_fresh ts = Some (ds, b) \<and>
      sorted (map wall ts) \<and> (\<forall>t \<in> set ts. wall t \<in> {10 * window l - 1, 10 * window l}) \<and>
      int (length (admitted ds)) = 2 * rate l"
proof -
  have l: "limit64 l" and w: "0 < window l" and n: "0 < rate l"
    using assms by (auto simp: serves_fixed_def)
  let ?A = "burst_at 0 (10 * window l - 1) (nat (rate l))"
  let ?B = "burst_at (nat (rate l)) (10 * window l) (nat (rate l))"
  obtain ds b where r: "run fixed_window_step l fixed_window_fresh (?A @ ?B) = Some (ds, b)"
    using fw.run_returns [OF assms fixed_window_inv_fresh [OF l]] by blast
  have so: "sorted (map wall (?A @ ?B))" by (auto simp: sorted_append)
  have g: "(10 * window l - 1) div window l = 9"
    by (rule int_div_pos_eq [where r = "window l - 1"]) (use w in auto)
  have "int (admits (in_grid l (9 * window l)) ds) = rate l"
    "int (admits (in_grid l (10 * window l)) ds) = rate l"
    using quota_fresh [OF assms so r] w n by (auto simp: burst_at_grid g)
  moreover have "admits (in_grid l (9 * window l)) ds + admits (in_grid l (10 * window l)) ds
      \<le> length (admitted ds)"
    using w by (auto simp: admits_def in_grid_def intro!: length_filter_disjoint)
  moreover have "length (admitted ds) \<le> length (?A @ ?B)"
    using run_times [OF r] by (metis admitted_def length_filter_le length_map)
  ultimately have "int (length (admitted ds)) = 2 * rate l" using n by simp
  then show "\<exists>ts ds b. run fixed_window_step l fixed_window_fresh ts = Some (ds, b) \<and>
      sorted (map wall ts) \<and> (\<forall>t \<in> set ts. wall t \<in> {10 * window l - 1, 10 * window l}) \<and>
      int (length (admitted ds)) = 2 * rate l"
    using r so burst_at_times by (intro exI [of _ "?A @ ?B"] exI [of _ ds] exI [of _ b]) auto
qed

text \<open>
  C36. \<open>Truncate\<close> and \<open>Equal\<close> read the wall clock, also when every reading carries a monotonic
  part: under every fixed-window limit there are requests at strictly increasing monotonic
  instants, the wall clock stepping back over a boundary once, for which one window admits twice
  the rate. The comment in \<open>scripts/fixed_window.lua\<close> says the in-memory backend is protected
  from this.
\<close>

theorem fixed_window_wall_step_back:
  assumes "serves_fixed l"
  shows "\<exists>ts ds b. run fixed_window_step l fixed_window_fresh ts = Some (ds, b) \<and>
      (\<forall>t \<in> set ts. mono t \<noteq> None) \<and> sorted_wrt (<) (map instant ts) \<and>
      int (admits (\<lambda>t. wall (time_truncate t (window l)) = 0) ds) = 2 * rate l"
proof -
  have "fixed_window_inv l fixed_window_fresh"
    using assms by (simp add: serves_fixed_def fixed_window_inv_fresh)
  then obtain ds b where r: "run fixed_window_step l fixed_window_fresh (step_back l 0) = Some (ds, b)"
    using fw.run_returns [OF assms] by blast
  have "int (admits (in_grid l 0) ds) = 2 * rate l"
    by (rule step_back_admits [OF assms _ r]) simp
  moreover have "\<forall>t \<in> set (step_back l 0). mono t \<noteq> None"
    by (auto simp: step_back_def burst_at_def)
  ultimately show ?thesis
    using r step_back_monotonic [of l 0]
    by (intro exI [of _ "step_back l 0"] exI [of _ ds] exI [of _ b]) (auto simp: in_grid_def [abs_def])
qed

text \<open>
  \<open>Retry-After\<close> of a fixed window is exact: a client denied at \<open>t\<close> that keeps asking is
  denied at every instant before \<open>t\<close> plus the advised wait, and the first request from then on is
  admitted.
\<close>

theorem fixed_window_retry_after_exact:
  assumes "serves_fixed l" and "fixed_window_inv l b"
    and "fixed_window_step b l t = Some (d, b1)" and "\<not> allowed d"
    and "run fixed_window_step l b1 us = Some (ds, b2)" and "sorted (map wall (t # us @ [v]))"
    and "\<forall>u \<in> set us. wall u < wall t + retry_after d" and "wall t + retry_after d \<le> wall v"
    and "fixed_window_step b2 l v = Some (e, b3)"
  shows "admitted ds = [] \<and> allowed e"
  using fwx.polling [OF assms(1,2) _ order_refl _ assms(3,4) _ _ assms(5,7) _ assms(8) _ assms(9)] assms(6)
  by (auto simp: sorted_append)

section \<open>Witnesses\<close>

text \<open>The \<open>/auth/\<close> limit of the example configuration: 3 requests in 10 seconds.\<close>

definition auth_limit :: limit where
  "auth_limit = \<lparr>algorithm = algo_fixed_window, rate = 3, burst = 0, window = 10 * second\<rparr>"

lemma auth_limit_serves: "serves_fixed auth_limit"
  by (simp add: serves_fixed_def limit64_def limit_ok_def auth_limit_def in_int64_def int64_min_def
      int64_max_def second_def)

lemma auth_limit_fields [simp]: "rate auth_limit = 3" "window auth_limit = 10000000000"
  by (simp_all add: auth_limit_def second_def)

definition at_wall :: "int \<Rightarrow> gotime" where "at_wall w = \<lparr>wall = w, mono = None\<rparr>"

definition five_requests :: "gotime list" where
  "five_requests = map at_wall [10000000001, 10000000002, 10000000003, 10000000004, 20000000000]"

definition five_decisions :: "(gotime \<times> decision) list \<times> fixed_window" where
  "five_decisions = the (run fixed_window_step auth_limit fixed_window_fresh five_requests)"

lemma five_requests_run:
  "run fixed_window_step auth_limit fixed_window_fresh five_requests
     = Some (fst five_decisions, snd five_decisions)"
  using fw.run_returns [OF auth_limit_serves fixed_window_inv_fresh [of auth_limit], of five_requests]
    auth_limit_serves
  by (auto simp: five_decisions_def serves_fixed_def)

lemma five_requests_sorted: "sorted (map wall five_requests)"
  by (simp add: five_requests_def at_wall_def)

theorem fixed_window_exact_quota_witness:
  "int (admits (\<lambda>t. wall (time_truncate t 10000000000) = 10000000000) (fst five_decisions)) = 3"
  using fixed_window_exact_quota [OF auth_limit_serves five_requests_sorted five_requests_run, of 10000000000]
  by (simp add: five_requests_def at_wall_def time_truncate_def)

theorem fixed_window_interval_bound_witness:
  "int (admits (\<lambda>t. 10000000004 \<le> wall t \<and> wall t < 20000000004) (fst five_decisions)) \<le> 6"
  using fixed_window_interval_bound [OF auth_limit_serves five_requests_sorted five_requests_run, of 10000000004]
  by simp

theorem fixed_window_boundary_burst_witness:
  "\<exists>ts ds b. run fixed_window_step auth_limit fixed_window_fresh ts = Some (ds, b) \<and>
      (\<forall>t \<in> set ts. wall t \<in> {99999999999, 100000000000}) \<and> int (length (admitted ds)) = 6"
  using fixed_window_boundary_burst [OF auth_limit_serves] by auto

theorem fixed_window_wall_step_back_witness:
  "\<exists>ts ds b. run fixed_window_step auth_limit fixed_window_fresh ts = Some (ds, b) \<and>
      sorted_wrt (<) (map instant ts) \<and>
      int (admits (\<lambda>t. wall (time_truncate t 10000000000) = 0) ds) = 6"
  using fixed_window_wall_step_back [OF auth_limit_serves] by auto

definition full_window :: fixed_window where
  "full_window = \<lparr>window_start = at_wall 10000000000, count = 3\<rparr>"

definition denied_step :: "gotime \<Rightarrow> decision \<times> fixed_window" where
  "denied_step t = the (fixed_window_step full_window auth_limit t)"

theorem fixed_window_retry_after_exact_witness:
  "admitted (fst (the (run fixed_window_step auth_limit (snd (denied_step (at_wall 15000000000)))
      [at_wall 19999999999]))) = []
   \<and> allowed (fst (the (fixed_window_step full_window auth_limit (at_wall 20000000000))))"
proof -
  have "admitted (fst (the (run fixed_window_step auth_limit (snd (denied_step (at_wall 15000000000)))
      [at_wall 19999999999]))) = [] \<and> allowed (fst (the (fixed_window_step full_window auth_limit
        (at_wall 20000000000))))"
    by (rule fixed_window_retry_after_exact [OF auth_limit_serves, where b = full_window
          and t = "at_wall 15000000000" and d = "fst (denied_step (at_wall 15000000000))"
          and us = "[at_wall 19999999999]" and v = "at_wall 20000000000"]) code_simp+
  then show ?thesis .
qed

end
