(* ===== verification/Sliding_Window.thy ===== *)
theory Sliding_Window
  imports Bucket
begin

text \<open>
  The sliding_window algorithm, \<open>internal/limiter/sliding_window.go\<close>: a log of the instants
  of the admitted requests, from which everything a window old is evicted at every step.
\<close>

section \<open>The code\<close>

record sliding_window =
  timestamps :: "gotime list"

definition sliding_window_fresh :: sliding_window where
  "sliding_window_fresh = \<lparr>timestamps = []\<rparr>"

text \<open>
  The eviction loop works in place: \<open>i\<close> is the index of the range loop, \<open>n\<close> the number kept
  so far, \<open>xs\<close> the backing array, which the loop overwrites as it goes.
\<close>

function evict_loop :: "gotime \<Rightarrow> nat \<Rightarrow> nat \<Rightarrow> gotime list \<Rightarrow> gotime list" where
  "evict_loop cutoff i n xs =
     (if i < length xs then
        if time_after (xs ! i) cutoff then evict_loop cutoff (Suc i) (Suc n) (xs[n := xs ! i])
        else evict_loop cutoff (Suc i) n xs
      else take n xs)"
  by pat_completeness auto
termination
  by (relation "measure (\<lambda>(cutoff, i, n, xs). length xs - i)") auto

declare evict_loop.simps [simp del]

definition evict :: "gotime \<Rightarrow> gotime list \<Rightarrow> gotime list" where
  "evict cutoff xs = evict_loop cutoff 0 0 xs"

text \<open>
  The last read, \<open>b.timestamps[0]\<close>, is of an empty slice when nothing is kept and the rate is
  not positive: an index panic, \<open>None\<close>.
\<close>

definition sliding_window_step :: "sliding_window stepper" where
  "sliding_window_step b l now =
     (let cutoff = time_add now (wrap64 (- window l));
          kept = evict cutoff (timestamps b);
          ok = int (length kept) < rate l;
          log = (if ok then kept @ [now] else kept);
          rem = wrap64 (rate l - int (length log));
          rst = (if log \<noteq> [] then time_add (last log) (window l) else now);
          dec = \<lparr>allowed = ok, quota = rate l, remaining = (if rem < 0 then 0 else rem), reset = rst,
                 retry_after = 0, degraded = False\<rparr>
      in if ok then Some (dec, b\<lparr>timestamps := log\<rparr>)
         else (case log of
                 [] \<Rightarrow> None
               | oldest # _ \<Rightarrow>
                   Some (dec\<lparr>retry_after := time_sub (time_add oldest (window l)) now\<rparr>,
                         b\<lparr>timestamps := log\<rparr>)))"

section \<open>The eviction loop is a filter\<close>

lemma evict_loop_filter:
  assumes "n \<le> i" and "i \<le> length xs"
  shows "evict_loop cutoff i n xs = take n xs @ filter (\<lambda>t. time_after t cutoff) (drop i xs)"
  using assms
proof (induction cutoff i n xs rule: evict_loop.induct)
  case (1 cutoff i n xs)
  show ?case
  proof (cases "i < length xs")
    case False
    then show ?thesis using "1.prems" by (simp add: evict_loop.simps)
  next
    case True
    have d: "drop i xs = xs ! i # drop (Suc i) xs" using True by (simp add: Cons_nth_drop_Suc)
    show ?thesis
    proof (cases "time_after (xs ! i) cutoff")
      case True
      have "evict_loop cutoff (Suc i) (Suc n) (xs[n := xs ! i])
        = take (Suc n) (xs[n := xs ! i]) @ filter (\<lambda>t. time_after t cutoff) (drop (Suc i) (xs[n := xs ! i]))"
        using "1.IH"(1) [OF \<open>i < length xs\<close> True] "1.prems" \<open>i < length xs\<close> by simp
      also have "take (Suc n) (xs[n := xs ! i]) = take n xs @ [xs ! i]"
        using "1.prems" \<open>i < length xs\<close> by (simp add: take_Suc_conv_app_nth)
      also have "drop (Suc i) (xs[n := xs ! i]) = drop (Suc i) xs"
        using "1.prems" by simp
      finally show ?thesis using True \<open>i < length xs\<close> d by (simp add: evict_loop.simps [of cutoff i n xs])
    next
      case False
      have "evict_loop cutoff (Suc i) n xs
        = take n xs @ filter (\<lambda>t. time_after t cutoff) (drop (Suc i) xs)"
        using "1.IH"(2) [OF True False] "1.prems" True by simp
      then show ?thesis using False True d by (simp add: evict_loop.simps [of cutoff i n xs])
    qed
  qed
qed

lemma evict_filter: "evict cutoff xs = filter (\<lambda>t. time_after t cutoff) xs"
  by (simp add: evict_def evict_loop_filter)

section \<open>The bucket's contract\<close>

definition sliding_window_inv :: "limit \<Rightarrow> sliding_window \<Rightarrow> bool" where
  "sliding_window_inv l b \<longleftrightarrow> int (length (timestamps b)) \<le> rate l"

definition serves_sliding :: "limit \<Rightarrow> bool" where
  "serves_sliding l \<longleftrightarrow> limit64 l \<and> algorithm l = algo_sliding_window"

definition kept :: "sliding_window \<Rightarrow> limit \<Rightarrow> gotime \<Rightarrow> gotime list" where
  "kept b l t = filter (\<lambda>s. time_after s (time_add t (- window l))) (timestamps b)"

lemma kept_length: "sliding_window_inv l b \<Longrightarrow> int (length (kept b l t)) \<le> rate l"
  unfolding sliding_window_inv_def kept_def
  by (meson length_filter_le of_nat_mono order_trans)

lemma minus_window: "limit64 l \<Longrightarrow> wrap64 (- window l) = - window l"
  using limit64D(2,4) [of l]
  by (intro wrap64_id) (auto simp: in_int64_def int64_min_def int64_max_def)

lemma sliding_window_step_facts:
  assumes "limit64 l" and "sliding_window_inv l b" and "sliding_window_step b l t = Some (d, b')"
  shows "allowed d \<longleftrightarrow> int (length (kept b l t)) < rate l"
    and "timestamps b' = (if allowed d then kept b l t @ [t] else kept b l t)"
    and "sliding_window_inv l b'"
    and "decision_ok (rate l) d" and "\<not> degraded d"
    and "\<not> allowed d \<Longrightarrow> kept b l t \<noteq> [] \<and> retry_after d = time_sub (time_add (hd (kept b l t)) (window l)) t"
proof -
  note k = kept_length [OF assms(2), of t]
  have r: "in_int64 (rate l)" and p: "0 < rate l" using assms(1) by auto
  have e: "evict (time_add t (wrap64 (- window l))) (timestamps b) = kept b l t"
    by (simp add: evict_filter kept_def minus_window [OF assms(1)])
  have w: "wrap64 (rate l - int n) = rate l - int n" if "int n \<le> rate l" for n
    using that r p by (intro wrap64_id) (auto simp: in_int64_def int64_min_def)
  note s = assms(3) [unfolded sliding_window_step_def e Let_def]
  show "allowed d \<longleftrightarrow> int (length (kept b l t)) < rate l"
    "timestamps b' = (if allowed d then kept b l t @ [t] else kept b l t)"
    "\<not> allowed d \<Longrightarrow> kept b l t \<noteq> [] \<and> retry_after d = time_sub (time_add (hd (kept b l t)) (window l)) t"
    "\<not> degraded d"
    using s by (auto split: if_splits list.splits)
  then show "sliding_window_inv l b'"
    using k by (auto simp: sliding_window_inv_def)
  show "decision_ok (rate l) d"
    using s k p w [of "length (kept b l t)"] w [of "Suc (length (kept b l t))"]
    by (auto simp: decision_ok_def split: if_splits list.splits)
qed

interpretation sw: bucket sliding_window_step "\<lambda>l. sliding_window_fresh" sliding_window_inv rate serves_sliding
proof
  fix l b t d b'
  assume "serves_sliding l"
  then have l: "limit64 l" and p: "0 < rate l" by (auto simp: serves_sliding_def)
  show "sliding_window_inv l sliding_window_fresh"
    using p by (simp add: sliding_window_inv_def sliding_window_fresh_def)
  assume i: "sliding_window_inv l b"
  show "sliding_window_step b l t \<noteq> None"
    using p by (auto simp: sliding_window_step_def Let_def split: list.split)
  assume "sliding_window_step b l t = Some (d, b')"
  note f = sliding_window_step_facts [OF l i this]
  show "sliding_window_inv l b'" "decision_ok (rate l) d" "\<not> degraded d" using f by auto
qed

section \<open>Readings of one clock\<close>

definition sliding_coh :: "bool \<Rightarrow> limit \<Rightarrow> gotime \<Rightarrow> bool" where
  "sliding_coh c l t \<longleftrightarrow> same_clock c t \<and> moves_by t (window l) \<and> moves_by t (- window l)"

definition sliding_fit :: "bool \<Rightarrow> limit \<Rightarrow> sliding_window \<Rightarrow> int \<Rightarrow> bool" where
  "sliding_fit c l b x \<longleftrightarrow>
     sorted (map instant (timestamps b)) \<and>
     (\<forall>s \<in> set (timestamps b). same_clock c s \<and> moves_by s (window l) \<and> instant s \<le> x)"

lemma time_after_cutoff:
  "sliding_coh c l t \<Longrightarrow> same_clock c s \<Longrightarrow>
     time_after s (time_add t (- window l)) \<longleftrightarrow> instant t - window l < instant s"
  using time_after_instant [of c s "time_add t (- window l)"]
  by (simp add: sliding_coh_def same_clock_add instant_add)

lemma kept_instants:
  assumes "sliding_coh c l t" and "\<forall>s \<in> set (timestamps b). same_clock c s"
  shows "kept b l t = filter (\<lambda>s. instant t - window l < instant s) (timestamps b)"
  unfolding kept_def by (rule filter_cong) (use assms time_after_cutoff in auto)

lemma kept_fit:
  assumes "sliding_coh c l t" and "sliding_fit c l b x"
  shows "kept b l t = filter (\<lambda>s. instant t - window l < instant s) (timestamps b)"
  using assms by (intro kept_instants) (auto simp: sliding_fit_def)

lemma sliding_fit_step:
  assumes "limit64 l" and "sliding_window_inv l b" and "sliding_fit c l b x" and "x \<le> instant t"
    and "sliding_coh c l t" and "sliding_window_step b l t = Some (d, b')"
  shows "sliding_fit c l b' (instant t)"
  using sliding_window_step_facts(2) [OF assms(1,2,6)] kept_fit [OF assms(5,3)] assms(3-5)
  by (auto simp: sliding_fit_def sliding_coh_def sorted_append sorted_filter)

text \<open>The oldest entry of a full log decides when the next request is admitted.\<close>

lemma sliding_deny:
  assumes l: "limit64 l" and i: "sliding_window_inv l b" and f: "sliding_fit c l b x"
    and x: "x \<le> instant t" and ct: "sliding_coh c l t"
    and s: "sliding_window_step b l t = Some (d, b')" and na: "\<not> allowed d"
  shows "int (length (timestamps b')) = rate l" and "timestamps b' \<noteq> []"
    and "instant t + retry_after d = instant (hd (timestamps b')) + window l"
proof -
  note k = sliding_window_step_facts [OF l i s]
  have b': "timestamps b' = kept b l t" using k(2) na by simp
  note kf = kept_fit [OF ct f]
  show "int (length (timestamps b')) = rate l"
    using k(1) na kept_length [OF i, of t] by (simp add: b')
  show ne: "timestamps b' \<noteq> []" using k(6) na by (simp add: b')
  let ?h = "hd (timestamps b')"
  have "?h \<in> set (kept b l t)" using ne by (simp add: b')
  then have h: "?h \<in> set (timestamps b)" "instant t - window l < instant ?h"
    using kf by auto
  then have hh: "same_clock c ?h" "moves_by ?h (window l)" "instant ?h \<le> instant t"
    using f x by (auto simp: sliding_fit_def)
  have "retry_after d = time_sub (time_add ?h (window l)) t" using k(6) na by (simp add: b')
  also have "\<dots> = sat64 (instant ?h + window l - instant t)"
    using hh ct time_sub_instant [of c "time_add ?h (window l)" t]
    by (simp add: same_clock_add instant_add sliding_coh_def)
  also have "\<dots> = instant ?h + window l - instant t"
    using hh(3) h(2) limit64D(4) [OF l]
    by (intro sat64_id) (auto simp: in_int64_def int64_min_def)
  finally show "instant t + retry_after d = instant ?h + window l" by simp
qed

lemma sliding_deny_next:
  assumes l: "limit64 l" and i: "sliding_window_inv l b" and f: "sliding_fit c l b x"
    and x: "x \<le> instant t" and ct: "sliding_coh c l t"
    and s: "sliding_window_step b l t = Some (d, b')" and na: "\<not> allowed d"
    and cu: "sliding_coh c l u" and tu: "instant t \<le> instant u"
    and su: "sliding_window_step b' l u = Some (e, b'')"
  shows "allowed e \<longleftrightarrow> instant t + retry_after d \<le> instant u"
    and "\<not> allowed e \<Longrightarrow> instant u + retry_after e = instant t + retry_after d"
proof -
  note D = sliding_deny [OF l i f x ct s na]
  have i': "sliding_window_inv l b'" by (rule sliding_window_step_facts(3) [OF l i s])
  have f': "sliding_fit c l b' (instant t)" by (rule sliding_fit_step [OF l i f x ct s])
  let ?xs = "timestamps b'" and ?P = "\<lambda>s. instant u - window l < instant s"
  have kept': "kept b' l u = filter ?P ?xs" by (rule kept_fit [OF cu f'])
  have so: "\<forall>s \<in> set ?xs. instant (hd ?xs) \<le> instant s"
    using f' D(2) by (cases ?xs) (auto simp: sliding_fit_def)
  show iff: "allowed e \<longleftrightarrow> instant t + retry_after d \<le> instant u"
  proof (cases "?P (hd ?xs)")
    case True
    then have "kept b' l u = ?xs" using so unfolding kept' filter_id_conv by auto
    then show ?thesis
      using sliding_window_step_facts(1) [OF l i' su] D True by simp
  next
    case False
    then have "length (filter ?P ?xs) < length ?xs"
      using D(2) by (intro length_filter_less [of "hd ?xs"]) auto
    then show ?thesis
      using sliding_window_step_facts(1) [OF l i' su] D False kept' by simp
  qed
  show "instant u + retry_after e = instant t + retry_after d" if ne: "\<not> allowed e"
  proof -
    have "?P (hd ?xs)" using iff ne D(3) by linarith
    then have "kept b' l u = ?xs" using so unfolding kept' filter_id_conv by auto
    then have "timestamps b'' = ?xs"
      using sliding_window_step_facts(2) [OF l i' su] ne by simp
    then show ?thesis
      using sliding_deny(3) [OF l i' f' tu cu su ne] D(3) by simp
  qed
qed

interpretation swx: exact_bucket sliding_window_step "\<lambda>l. sliding_window_fresh" sliding_window_inv rate
    serves_sliding instant "sliding_coh c" "sliding_fit c" for c
proof
  fix l b x t d b' u e b''
  show "sliding_fit c l sliding_window_fresh x"
    by (simp add: sliding_fit_def sliding_window_fresh_def)
  assume "serves_sliding l" and i: "sliding_window_inv l b" and f: "sliding_fit c l b x"
    and x: "x \<le> instant t" and ct: "sliding_coh c l t"
    and s: "sliding_window_step b l t = Some (d, b')"
  then have l: "limit64 l" by (simp add: serves_sliding_def)
  show "sliding_fit c l b' (instant t)" by (rule sliding_fit_step [OF l i f x ct s])
  assume d: "\<not> allowed d" "sliding_coh c l u" "instant t \<le> instant u"
    "sliding_window_step b' l u = Some (e, b'')"
  note n = sliding_deny_next [OF l i f x ct s d]
  show "allowed e \<longleftrightarrow> instant t + retry_after d \<le> instant u" by (rule n(1))
  show "instant u + retry_after e = instant t + retry_after d" if "\<not> allowed e" using that by (rule n(2))
qed

section \<open>The log is the admitted requests of the last window\<close>

lemma timestamps_of_run:
  assumes s: "serves_sliding l" and "run sliding_window_step l sliding_window_fresh ts = Some (ds, b)"
  shows "set (timestamps b) \<subseteq> set ts"
  using assms(2)
proof (induction ts arbitrary: ds b rule: rev_induct)
  case Nil
  then show ?case by (auto simp: sliding_window_fresh_def)
next
  case (snoc t ts)
  have l: "limit64 l" using s by (simp add: serves_sliding_def)
  obtain es b1 d where r: "run sliding_window_step l sliding_window_fresh ts = Some (es, b1)"
    and t: "sliding_window_step b1 l t = Some (d, b)"
    using snoc.prems by (auto simp: run_snoc)
  have "sliding_window_inv l b1" using sw.run_inv [OF s sw.inv_fresh [OF s] r] .
  from sliding_window_step_facts(2) [OF l this t] snoc.IH [OF r] show ?case
    by (auto simp: kept_def)
qed

lemma sliding_log:
  assumes s: "serves_sliding l" and "\<forall>t \<in> set ts. sliding_coh c l t" and "sorted (map instant ts)"
    and "run sliding_window_step l sliding_window_fresh ts = Some (ds, b)"
    and "sliding_coh c l t0" and "\<forall>t \<in> set ts. instant t \<le> instant t0"
  shows "kept b l t0 = filter (\<lambda>s. instant t0 - window l < instant s) (admitted ds)"
  using assms(2-)
proof (induction ts arbitrary: ds b t0 rule: rev_induct)
  case Nil
  then show ?case by (auto simp: kept_def sliding_window_fresh_def)
next
  case (snoc t ts)
  have l: "limit64 l" using s by (simp add: serves_sliding_def)
  have P: "sliding_coh c l t" "\<forall>u \<in> set ts. sliding_coh c l u" "sorted (map instant ts)"
    "\<forall>u \<in> set ts. instant u \<le> instant t" "instant t \<le> instant t0"
    using snoc.prems by (auto simp: sorted_append)
  obtain es b1 d where r: "run sliding_window_step l sliding_window_fresh ts = Some (es, b1)"
    and t: "sliding_window_step b1 l t = Some (d, b)" and ds: "ds = es @ [(t, d)]"
    using snoc.prems(3) by (auto simp: run_snoc)
  have i: "sliding_window_inv l b1" using sw.run_inv [OF s sw.inv_fresh [OF s] r] .
  have k: "kept b1 l t = filter (\<lambda>s. instant t - window l < instant s) (admitted es)"
    by (rule snoc.IH [OF P(2,3) r P(1,4)])
  have b: "timestamps b = kept b1 l t @ (if allowed d then [t] else [])"
    using sliding_window_step_facts(2) [OF l i t] by simp
  have "\<forall>u \<in> set (timestamps b). same_clock c u"
    using timestamps_of_run [OF s snoc.prems(3)] snoc.prems(1) by (auto simp: sliding_coh_def)
  from kept_instants [OF snoc.prems(4) this] show ?case
    using P(5) unfolding b k ds by (auto intro!: filter_cong)
qed

lemma sliding_decision:
  assumes s: "serves_sliding l" and c: "\<forall>t \<in> set (ts @ [t]). sliding_coh c l t"
    and so: "sorted (map instant (ts @ [t]))"
    and r: "run sliding_window_step l sliding_window_fresh (ts @ [t]) = Some (ds @ [(t, d)], b)"
  shows "allowed d \<longleftrightarrow> int (admits (\<lambda>s. instant t - window l < instant s) ds) < rate l"
    and "allowed d \<Longrightarrow> int (admits (\<lambda>s. instant t - window l < instant s) (ds @ [(t, d)])) \<le> rate l"
proof -
  have l: "limit64 l" and w: "0 < window l" using s by (auto simp: serves_sliding_def)
  obtain b1 where r1: "run sliding_window_step l sliding_window_fresh ts = Some (ds, b1)"
    and t: "sliding_window_step b1 l t = Some (d, b)"
    using r by (auto simp: run_snoc)
  have k: "kept b1 l t = filter (\<lambda>s. instant t - window l < instant s) (admitted ds)"
    by (rule sliding_log [OF s _ _ r1]) (use c so in \<open>auto simp: sorted_append\<close>)
  have "sliding_window_inv l b1" using sw.run_inv [OF s sw.inv_fresh [OF s] r1] .
  from sliding_window_step_facts(1) [OF l this t] k
  show "allowed d \<longleftrightarrow> int (admits (\<lambda>s. instant t - window l < instant s) ds) < rate l"
    by (simp add: admits_def)
  then show "allowed d \<Longrightarrow> int (admits (\<lambda>s. instant t - window l < instant s) (ds @ [(t, d)])) \<le> rate l"
    using w by simp
qed

lemma sliding_interval:
  assumes s: "serves_sliding l" and c: "\<forall>t \<in> set ts. sliding_coh c l t"
    and so: "sorted (map instant ts)"
    and r: "run sliding_window_step l sliding_window_fresh ts = Some (ds, b)"
  shows "int (admits (\<lambda>t. x < instant t \<and> instant t \<le> x + window l) ds) \<le> rate l"
  using c so r
proof (induction ts arbitrary: ds b rule: rev_induct)
  case Nil
  then show ?case using s by (auto simp: serves_sliding_def)
next
  case (snoc t ts)
  obtain es b1 d where r1: "run sliding_window_step l sliding_window_fresh ts = Some (es, b1)"
    and ds: "ds = es @ [(t, d)]"
    using snoc.prems(3) by (auto simp: run_snoc)
  have IH: "int (admits (\<lambda>t. x < instant t \<and> instant t \<le> x + window l) es) \<le> rate l"
    by (rule snoc.IH [OF _ _ r1]) (use snoc.prems(1,2) in \<open>auto simp: sorted_append\<close>)
  show ?case
  proof (cases "allowed d \<and> x < instant t \<and> instant t \<le> x + window l")
    case False
    then have "admits (\<lambda>t. x < instant t \<and> instant t \<le> x + window l) [(t, d)] = 0" by auto
    then show ?thesis using IH unfolding ds admits_simps by linarith
  next
    case True
    have "int (admits (\<lambda>s. instant t - window l < instant s) (es @ [(t, d)])) \<le> rate l"
      using sliding_decision(2) [OF s snoc.prems(1,2)] snoc.prems(3) ds True by blast
    moreover have "admits (\<lambda>t. x < instant t \<and> instant t \<le> x + window l) ds
        \<le> admits (\<lambda>s. instant t - window l < instant s) (es @ [(t, d)])"
      unfolding ds using True by (intro admits_mono) auto
    ultimately show ?thesis by linarith
  qed
qed

section \<open>Properties\<close>

text \<open>
  C4. What the sliding window exists for: over any sequence of requests at non-decreasing
  instants of one clock, every interval of one window's length, wherever it starts, admits at
  most the rate.
\<close>

theorem sliding_window_any_interval:
  assumes "serves_sliding l" and "\<forall>t \<in> set ts. sliding_coh c l t" and "sorted (map instant ts)"
    and "run sliding_window_step l sliding_window_fresh ts = Some (ds, b)"
  shows "int (admits (\<lambda>t. x < instant t \<and> instant t \<le> x + window l) ds) \<le> rate l"
  by (rule sliding_interval [OF assms])

text \<open>
  And it never denies without need: a request is denied exactly when the full rate was
  admitted within the window that ends at it.
\<close>

theorem sliding_window_denies_only_at_capacity:
  assumes "serves_sliding l" and "\<forall>t \<in> set (ts @ [t]). sliding_coh c l t"
    and "sorted (map instant (ts @ [t]))"
    and "run sliding_window_step l sliding_window_fresh ts = Some (ds, b)"
    and "sliding_window_step b l t = Some (d, b')"
  shows "\<not> allowed d \<longleftrightarrow> int (admits (\<lambda>s. instant t - window l < instant s) ds) = rate l"
proof -
  have "admits (\<lambda>s. instant t - window l < instant s) ds
      \<le> admits (\<lambda>s. instant t - window l < instant s \<and> instant s \<le> instant t - window l + window l) ds"
    using admitted_times [of ds] run_times [OF assms(4)] assms(3)
    by (intro admits_mono) (auto simp: sorted_append)
  then have "int (admits (\<lambda>s. instant t - window l < instant s) ds) \<le> rate l"
    using sliding_interval [OF assms(1) _ _ assms(4), of c "instant t - window l"] assms(2,3)
    by (auto simp: sorted_append)
  moreover have "run sliding_window_step l sliding_window_fresh (ts @ [t]) = Some (ds @ [(t, d)], b')"
    using assms(4,5) by (simp add: run_snoc)
  ultimately show ?thesis using sliding_decision(1) [OF assms(1-3)] by auto
qed

text \<open>
  C18. \<open>Retry-After\<close> of a sliding window is exact, on whichever clock the readings carry: a client
  denied at \<open>t\<close> that keeps asking is denied until \<open>t\<close> plus the advised wait and admitted at the
  first request from then on.
\<close>

theorem sliding_window_retry_after_exact:
  assumes "serves_sliding l" and "sliding_window_inv l b" and "sliding_fit c l b (instant t)"
    and "sliding_window_step b l t = Some (d, b1)" and "\<not> allowed d"
    and "run sliding_window_step l b1 us = Some (ds, b2)"
    and "sorted (map instant (t # us @ [v]))" and "\<forall>u \<in> set (t # us @ [v]). sliding_coh c l u"
    and "\<forall>u \<in> set us. instant u < instant t + retry_after d"
    and "instant t + retry_after d \<le> instant v"
    and "sliding_window_step b2 l v = Some (e, b3)"
  shows "admitted ds = [] \<and> allowed e"
  using swx.polling [OF assms(1-3) order_refl _ assms(4,5) _ _ assms(6,9) _ assms(10) _ assms(11)]
    assms(7,8)
  by (auto simp: sorted_append)

text \<open>
  The eviction loop, which compacts the slice in place while it ranges over it, keeps exactly
  the entries after the cutoff, in order: overwriting never loses an entry still to be read.
\<close>

theorem evict_in_place: "evict cutoff xs = filter (\<lambda>t. time_after t cutoff) xs"
  by (rule evict_filter)

section \<open>Witnesses\<close>

text \<open>The \<open>/search/\<close> limit of the example configuration, and a process clock in 2025.\<close>

definition search_limit :: limit where
  "search_limit = \<lparr>algorithm = algo_sliding_window, rate = 5, burst = 0, window = 10 * second\<rparr>"

lemma search_limit_serves: "serves_sliding search_limit"
  by (simp add: serves_sliding_def limit64_def limit_ok_def search_limit_def in_int64_def
      int64_min_def int64_max_def second_def)

lemma search_limit_fields [simp]: "rate search_limit = 5" "window search_limit = 10000000000"
  by (simp_all add: search_limit_def second_def)

definition process_time :: "int \<Rightarrow> gotime" where
  "process_time m = \<lparr>wall = 63900000000000000000 + m, mono = Some m\<rparr>"

lemma instant_process_time [simp]: "instant (process_time m) = m"
  by (simp add: process_time_def instant_def)

lemma process_time_coh: "0 \<le> m \<Longrightarrow> m \<le> 1000000000000 \<Longrightarrow> sliding_coh True search_limit (process_time m)"
  by (auto simp: sliding_coh_def same_clock_def moves_by_def process_time_def wall_fits_mono_def
      in_int64_def int64_min_def int64_max_def)

definition six_requests :: "gotime list" where
  "six_requests = map process_time [100, 200, 300, 400, 500, 10000000099]"

lemma six_requests_clock:
  "\<forall>t \<in> set six_requests. sliding_coh True search_limit t" "sorted (map instant six_requests)"
  by (simp_all add: six_requests_def process_time_coh)

definition six_decisions :: "(gotime \<times> decision) list \<times> sliding_window" where
  "six_decisions = the (run sliding_window_step search_limit sliding_window_fresh six_requests)"

lemma six_requests_run:
  "run sliding_window_step search_limit sliding_window_fresh six_requests = Some (fst six_decisions, snd six_decisions)"
  using sw.run_returns [OF search_limit_serves sw.inv_fresh [OF search_limit_serves], of six_requests]
  by (auto simp: six_decisions_def)

theorem sliding_window_any_interval_witness:
  "int (admits (\<lambda>t. 100 < instant t \<and> instant t \<le> 10000000100) (fst six_decisions)) \<le> 5"
  using sliding_window_any_interval [OF search_limit_serves six_requests_clock six_requests_run, of 100]
  by simp

theorem sliding_window_denies_only_at_capacity_witness:
  "\<not> allowed (fst (the (sliding_window_step (snd six_decisions) search_limit (process_time 10000000099))))
   \<longleftrightarrow> int (admits (\<lambda>s. 99 < instant s) (fst six_decisions)) = 5"
proof -
  obtain d b where d: "sliding_window_step (snd six_decisions) search_limit (process_time 10000000099) = Some (d, b)"
    using sw.step_returns [OF search_limit_serves
        sw.run_inv [OF search_limit_serves sw.inv_fresh [OF search_limit_serves] six_requests_run]]
    by fastforce
  have "\<forall>t \<in> set (six_requests @ [process_time 10000000099]). sliding_coh True search_limit t"
    "sorted (map instant (six_requests @ [process_time 10000000099]))"
    by (simp_all add: six_requests_def process_time_coh)
  from sliding_window_denies_only_at_capacity [OF search_limit_serves this six_requests_run d] d
  show ?thesis by simp
qed

definition full_log :: sliding_window where
  "full_log = \<lparr>timestamps = map process_time [100, 200, 300, 400, 500]\<rparr>"

definition log_step :: "sliding_window \<Rightarrow> gotime \<Rightarrow> decision \<times> sliding_window" where
  "log_step b t = the (sliding_window_step b search_limit t)"

theorem sliding_window_retry_after_exact_witness:
  "admitted (fst (the (run sliding_window_step search_limit (snd (log_step full_log (process_time 600)))
      [process_time 10000000099]))) = []
   \<and> allowed (fst (log_step (snd (log_step full_log (process_time 600))) (process_time 10000000100)))"
proof -
  have c: "sliding_coh True search_limit (process_time 600)"
    "sliding_coh True search_limit (process_time 10000000099)"
    "sliding_coh True search_limit (process_time 10000000100)"
    by (simp_all add: process_time_coh)
  have f: "sliding_fit True search_limit full_log (instant (process_time 600))"
    by (auto simp: sliding_fit_def full_log_def same_clock_def moves_by_def process_time_def
        wall_fits_mono_def in_int64_def int64_min_def int64_max_def instant_def)
  show ?thesis
    by (rule sliding_window_retry_after_exact [OF search_limit_serves _ f, where
          d = "fst (log_step full_log (process_time 600))" and us = "[process_time 10000000099]"
          and v = "process_time 10000000100"]) (code_simp | simp add: c)+
qed

end
