(* ===== verification/Token_Bucket.thy ===== *)
theory Token_Bucket
  imports Bucket
begin

text \<open>
  The token_bucket algorithm, \<open>internal/limiter/token_bucket.go\<close>: a bucket of \<open>burst\<close> tokens,
  refilled at \<open>rate\<close> tokens per window, in doubles as the code computes it. The parameter
  \<open>oor\<close> is what the platform makes of a double outside of \<open>int64\<close>. Go may fuse a
  multiplication and an addition on some platforms; this is the amd64 reading, where it does not.
\<close>

section \<open>The code\<close>

record token_bucket =
  tokens :: float64
  last_step :: gotime

definition token_bucket_fresh :: token_bucket where
  "token_bucket_fresh = \<lparr>tokens = 0, last_step = zero_time\<rparr>"

text \<open>The constant expression \<open>1 - tokenEpsilon\<close>, exact until it becomes a double.\<close>

definition token_epsilon :: rat where "token_epsilon = 1 / 10 ^ 9"
definition admit_threshold :: float64 where "admit_threshold = fl (1 - token_epsilon)"

definition seconds_to_duration :: "(float64 \<Rightarrow> int) \<Rightarrow> float64 \<Rightarrow> duration" where
  "seconds_to_duration oor s = (if s \<le> 0 then 0 else f2i oor (fmul s (i2f second)))"

definition refill_per_sec :: "limit \<Rightarrow> float64" where
  "refill_per_sec l = fdiv (i2f (rate l)) (duration_seconds (window l))"

definition refill :: "token_bucket \<Rightarrow> limit \<Rightarrow> gotime \<Rightarrow> token_bucket" where
  "refill b l now =
     (if is_zero (last_step b) then b\<lparr>tokens := i2f (burst l), last_step := now\<rparr>
      else if time_after now (last_step b) then
        b\<lparr>tokens := min (i2f (burst l))
            (fadd (tokens b) (fmul (duration_seconds (time_sub now (last_step b))) (refill_per_sec l))),
          last_step := now\<rparr>
      else b)"

definition take_token :: "float64 \<Rightarrow> float64" where
  "take_token x = (let y = fsub x 1 in if y < 0 then 0 else y)"

definition token_bucket_step :: "(float64 \<Rightarrow> int) \<Rightarrow> token_bucket stepper" where
  "token_bucket_step oor b l now =
     (let b1 = refill b l now;
          ok = admit_threshold \<le> tokens b1;
          b2 = (if ok then b1\<lparr>tokens := take_token (tokens b1)\<rparr> else b1);
          rem = f2i oor (of_int \<lfloor>tokens b2\<rfloor>)
      in Some (\<lparr>allowed = ok, quota = burst l, remaining = (if rem < 0 then 0 else rem),
                reset = time_add now (seconds_to_duration oor
                  (fdiv (fsub (i2f (burst l)) (tokens b2)) (refill_per_sec l))),
                retry_after = (if ok then 0
                  else seconds_to_duration oor (fdiv (fsub 1 (tokens b2)) (refill_per_sec l))),
                degraded = False\<rparr>,
               b2))"

section \<open>The bucket's contract\<close>

text \<open>
  Up to a burst of \<open>2 ^ 53\<close> the whole numbers of tokens are doubles; a larger burst is accepted
  by the validation, but see the last property below.
\<close>

definition serves_token :: "limit \<Rightarrow> bool" where
  "serves_token l \<longleftrightarrow> limit64 l \<and> algorithm l = algo_token_bucket \<and> burst l \<le> 2 ^ 53"

definition token_bucket_inv :: "limit \<Rightarrow> token_bucket \<Rightarrow> bool" where
  "token_bucket_inv l b \<longleftrightarrow> 0 \<le> tokens b \<and> tokens b \<le> of_int (burst l)"

lemma serves_tokenD:
  assumes "serves_token l"
  shows "limit64 l" and "1 \<le> burst l" and "burst l \<le> 2 ^ 53" and "i2f (burst l) = of_int (burst l)"
    and "1 \<le> rate l" and "0 < window l" and "in_int64 (window l)" and "in_int64 (rate l)"
  using assms by (auto simp: serves_token_def limit_ok_def limit64_def intro: i2f_exact)

lemma admit_threshold_bounds: "1 - 2 / 10 ^ 9 \<le> admit_threshold" "admit_threshold \<le> 1" "0 < admit_threshold"
proof -
  have "tiny \<le> 1 - token_epsilon" by (intro tiny_le) (simp add: token_epsilon_def)
  from fl_normal(2) [OF this] have "(1 - token_epsilon) * (1 - ulp_half) \<le> admit_threshold"
    by (simp add: admit_threshold_def)
  moreover have "1 - 2 / 10 ^ 9 \<le> (1 - token_epsilon) * (1 - ulp_half)"
    by (simp add: token_epsilon_def ulp_half_def)
  ultimately show 1: "1 - 2 / 10 ^ 9 \<le> admit_threshold" by linarith
  show "admit_threshold \<le> 1"
    unfolding admit_threshold_def by (rule fl_le_exact) (use fl_of_int [of 1] in \<open>simp_all add: token_epsilon_def\<close>)
  show "0 < admit_threshold" using 1 by simp
qed

lemma duration_seconds_positive:
  assumes "0 < d" and "in_int64 d"
  shows "0 < duration_seconds d"
proof -
  have "0 < of_int d / (10 ^ 9 :: rat) * (1 - ulp_half) ^ 2"
    using assms(1) by (simp add: ulp_half_def)
  then show ?thesis using duration_seconds_bounds(2) [OF assms] by linarith
qed

lemma refill_per_sec_nonneg: "limit64 l \<Longrightarrow> 0 \<le> refill_per_sec l"
  unfolding refill_per_sec_def fdiv_def
  by (intro fl_nonneg divide_nonneg_nonneg i2f_nonneg duration_seconds_nonneg) (auto dest: limit64D)

lemma refill_inv:
  assumes "serves_token l" and "token_bucket_inv l b"
  shows "token_bucket_inv l (refill b l t)"
proof -
  note s = serves_tokenD [OF assms(1)]
  have "0 \<le> fadd (tokens b) (fmul (duration_seconds (time_sub t (last_step b))) (refill_per_sec l))"
    if "time_after t (last_step b)"
  proof -
    have "0 \<le> time_sub t (last_step b)" "in_int64 (time_sub t (last_step b))"
      using that by (auto simp: time_after_def time_sub_def sat64_range less_imp_le sat64_pos split: option.splits)
    then have "0 \<le> duration_seconds (time_sub t (last_step b))" by (rule duration_seconds_nonneg)
    then show ?thesis
      using refill_per_sec_nonneg [OF s(1)] assms(2)
      by (auto simp: fadd_def fmul_def token_bucket_inv_def intro!: fl_nonneg add_nonneg_nonneg mult_nonneg_nonneg)
  qed
  then show ?thesis
    using assms(2) s(2,4) by (auto simp: refill_def token_bucket_inv_def min_le_iff_disj)
qed

lemma take_token_bounds:
  assumes "x \<le> of_int n" and "1 \<le> n" and "n \<le> 2 ^ 53"
  shows "0 \<le> take_token x" and "take_token x \<le> of_int (n - 1)"
proof -
  have "fl (x - 1) \<le> of_int (n - 1)"
    by (rule fl_le_exact) (use assms fl_of_int [of "n - 1"] in auto)
  then show "take_token x \<le> of_int (n - 1)" "0 \<le> take_token x"
    using assms(2) by (auto simp: take_token_def fsub_def Let_def not_less)
qed

lemma token_bucket_step_facts:
  assumes s: "serves_token l" and i: "token_bucket_inv l b" and t: "token_bucket_step oor b l t = Some (d, b')"
  shows "allowed d \<longleftrightarrow> admit_threshold \<le> tokens (refill b l t)"
    and "tokens b' = (if allowed d then take_token (tokens (refill b l t)) else tokens (refill b l t))"
    and "last_step b' = last_step (refill b l t)"
    and "token_bucket_inv l b'" and "decision_ok (burst l) d" and "\<not> degraded d"
proof -
  note l = serves_tokenD [OF s]
  note r = refill_inv [OF s i, of t]
  show 1: "allowed d \<longleftrightarrow> admit_threshold \<le> tokens (refill b l t)"
    "tokens b' = (if allowed d then take_token (tokens (refill b l t)) else tokens (refill b l t))"
    "last_step b' = last_step (refill b l t)" "\<not> degraded d"
    using t by (auto simp: token_bucket_step_def Let_def)
  have tb: "0 \<le> take_token (tokens (refill b l t))" "take_token (tokens (refill b l t)) \<le> of_int (burst l - 1)"
    using take_token_bounds [of "tokens (refill b l t)" "burst l"] r l(2,3) by (auto simp: token_bucket_inv_def)
  then show i': "token_bucket_inv l b'"
    using 1(2) r by (auto simp: token_bucket_inv_def)
  have rem: "remaining d = \<lfloor>tokens b'\<rfloor>"
  proof -
    have "0 \<le> \<lfloor>tokens b'\<rfloor>" "\<lfloor>tokens b'\<rfloor> \<le> burst l"
      using i' by (auto simp: token_bucket_inv_def floor_le_iff)
    moreover from this have "in_int64 \<lfloor>tokens b'\<rfloor>"
      using l(3) by (intro int64_small) linarith+
    then have "f2i oor (of_int \<lfloor>tokens b'\<rfloor>) = \<lfloor>tokens b'\<rfloor>" by (simp add: f2i_in_range)
    ultimately show ?thesis using t by (auto simp: token_bucket_step_def Let_def)
  qed
  have "\<lfloor>tokens b'\<rfloor> = 0" if "\<not> allowed d"
    using that 1(1,2) r admit_threshold_bounds(2) by (auto simp: token_bucket_inv_def floor_eq_iff)
  moreover have "\<lfloor>tokens b'\<rfloor> < burst l" if "allowed d"
    using that 1(2) tb(2) by (simp add: floor_less_iff)
  moreover have "0 \<le> \<lfloor>tokens b'\<rfloor>" "\<lfloor>tokens b'\<rfloor> \<le> burst l"
    using i' by (auto simp: token_bucket_inv_def floor_le_iff)
  moreover have "quota d = burst l" "allowed d \<longrightarrow> retry_after d = 0"
    using t by (auto simp: token_bucket_step_def Let_def)
  ultimately show "decision_ok (burst l) d" by (auto simp: decision_ok_def rem)
qed

interpretation tb: bucket "token_bucket_step oor" "\<lambda>l. token_bucket_fresh" token_bucket_inv burst serves_token for oor
proof
  fix l b t d b'
  assume s: "serves_token l"
  then show "token_bucket_inv l token_bucket_fresh"
    using serves_tokenD(2) [OF s] by (simp add: token_bucket_inv_def token_bucket_fresh_def)
  show "token_bucket_step oor b l t \<noteq> None" by (simp add: token_bucket_step_def Let_def)
  assume i: "token_bucket_inv l b" and "token_bucket_step oor b l t = Some (d, b')"
  note f = token_bucket_step_facts [OF s this]
  show "token_bucket_inv l b'" "decision_ok (burst l) d" "\<not> degraded d" using f by auto
qed

section \<open>What a refill can add\<close>

text \<open>
  The tokens a lapse of \<open>e\<close> nanoseconds is worth, in exact arithmetic, and the bounds on the
  rounding errors: a factor on the credit and an amount per request.
\<close>

definition exact_credit :: "limit \<Rightarrow> int \<Rightarrow> rat" where
  "exact_credit l e = of_int (rate l) * of_int e / of_int (window l)"

definition credit_slack :: rat where "credit_slack = 1 + 1 / 2 ^ 49"
definition request_slack :: "limit \<Rightarrow> rat" where "request_slack l = of_int (burst l) / 2 ^ 51"

lemma credit_slack_bound: "(1 + ulp_half) ^ 5 / (1 - ulp_half) ^ 2 \<le> credit_slack"
  unfolding ulp_half_def credit_slack_def by code_simp

lemma refill_per_sec_upper:
  assumes "serves_token l"
  shows "refill_per_sec l \<le> of_int (rate l) / (of_int (window l) / 10 ^ 9) * ((1 + ulp_half) ^ 2 / (1 - ulp_half) ^ 2)"
proof -
  note s = serves_tokenD [OF assms]
  define W r f where "W = duration_seconds (window l)" and "r = (of_int (rate l) :: rat)"
    and "f = i2f (rate l)"
  define w where "w = (of_int (window l) / 10 ^ 9 :: rat)"
  have r: "1 \<le> r" using s(5) by (simp add: r_def)
  have w0: "0 < w" using s(6) by (simp add: w_def)
  have W: "w * (1 - ulp_half) ^ 2 \<le> W" "W \<le> w * (1 + ulp_half) ^ 2" "0 < W"
    using duration_seconds_bounds [OF s(6,7)] duration_seconds_positive [OF s(6,7)]
    by (auto simp: W_def w_def)
  have u: "0 < (1 - ulp_half) ^ 2" by (simp add: ulp_half_def)
  have f: "1 \<le> f" "f \<le> r * (1 + ulp_half)"
    using i2f_ge_1 [OF s(5)] fl_normal(1) [of r] tiny_le [of r] r
    by (auto simp: f_def r_def i2f_def)
  have "window l \<le> 10 ^ 19" using s(7) by (simp add: in_int64_def int64_max_def)
  then have "(of_int (window l) :: rat) \<le> of_int (10 ^ 19)" by (simp only: of_int_le_iff)
  then have "w \<le> 10 ^ 10" by (simp add: w_def)
  then have "W \<le> 10 ^ 10 * (1 + ulp_half) ^ 2"
    using W(2) by (meson mult_right_mono order_trans zero_le_power2)
  also have "\<dots> \<le> 10 ^ 30" unfolding ulp_half_def by code_simp
  finally have "1 / 10 ^ 30 \<le> 1 / W" using W(3) by (intro divide_left_mono) auto
  also have "\<dots> \<le> f / W" using W(3) f(1) by (intro divide_right_mono) auto
  finally have "refill_per_sec l \<le> f / W * (1 + ulp_half)"
    unfolding refill_per_sec_def fdiv_def f_def [symmetric] W_def [symmetric]
    by (intro fl_normal(1) tiny_le)
  also have "f / W \<le> r * (1 + ulp_half) / (w * (1 - ulp_half) ^ 2)"
    using f W w0 r u by (intro frac_le) auto
  finally have "refill_per_sec l \<le> r * (1 + ulp_half) / (w * (1 - ulp_half) ^ 2) * (1 + ulp_half)"
    by (simp add: mult_right_mono)
  moreover have "r * p / (w * k) * p = r / w * (p ^ 2 / k)" for p k :: rat
    by (simp add: power2_eq_square)
  ultimately show ?thesis by (simp only: r_def w_def)
qed

text \<open>What rounding adds to a sum that is cut off at the burst.\<close>

lemma two_tiny:
  assumes "1 \<le> B"
  shows "2 * tiny \<le> B * ulp_half" and "B / 2 ^ 52 = B * ulp_half + B * ulp_half"
proof -
  have "2 * tiny \<le> 1 * ulp_half" by (simp add: tiny_def ulp_half_def)
  also have "1 * ulp_half \<le> B * ulp_half" using assms by (intro mult_right_mono) auto
  finally show "2 * tiny \<le> B * ulp_half" .
qed (simp add: ulp_half_def)

lemma capped_sum:
  assumes "1 \<le> B" and "0 \<le> x"
  shows "min B (fl x) + tiny \<le> x + B / 2 ^ 52"
proof -
  have "min B (fl x) \<le> x + B * ulp_half + tiny"
  proof (cases "x \<le> B")
    case True
    then have "fl x \<le> x + x * ulp_half + tiny" using fl_upper [OF assms(2)] by (simp add: algebra_simps)
    also have "x * ulp_half \<le> B * ulp_half" using True by (simp add: mult_right_mono)
    finally show ?thesis by simp
  next
    case False
    then have "B \<le> x + B * ulp_half + tiny" using assms(1) by (simp add: add_increasing2)
    then show ?thesis by (simp add: min_le_iff_disj)
  qed
  with two_tiny [OF assms(1)] show ?thesis by linarith
qed

lemma refill_credit:
  assumes s: "serves_token l" and i: "token_bucket_inv l b" and e: "0 < e"
  shows "min (i2f (burst l)) (fadd (tokens b) (fmul (duration_seconds (sat64 e)) (refill_per_sec l)))
    \<le> tokens b + exact_credit l e * credit_slack + request_slack l / 2"
proof -
  note l = serves_tokenD [OF s]
  define B where "B = (of_int (burst l) :: rat)"
  define e' where "e' = sat64 e"
  define S R where "S = duration_seconds e'" and "R = refill_per_sec l"
  define a where "a = of_int (rate l) / (of_int (window l) / 10 ^ 9 :: rat)"
  define sec where "sec = (of_int e' / 10 ^ 9 :: rat)"
  have e': "0 < e'" "in_int64 e'" "e' \<le> e"
    using e by (auto simp: e'_def sat64_pos sat64_range sat64_le)
  have B: "1 \<le> B" using l(2) by (simp add: B_def)
  have a: "0 \<le> a" using l(5,6) by (simp add: a_def)
  have S: "0 \<le> S" "S \<le> sec * (1 + ulp_half) ^ 2"
    using duration_seconds_bounds(1) [OF e'(1,2)] duration_seconds_nonneg [of e'] e'
    by (auto simp: S_def sec_def)
  have R: "0 \<le> R" "R \<le> a * ((1 + ulp_half) ^ 2 / (1 - ulp_half) ^ 2)"
    using refill_per_sec_upper [OF s] refill_per_sec_nonneg [OF l(1)] by (auto simp: R_def a_def)
  have "S * R \<le> (sec * (1 + ulp_half) ^ 2) * (a * ((1 + ulp_half) ^ 2 / (1 - ulp_half) ^ 2))"
    using S R e'(1) by (intro mult_mono) (auto simp: sec_def)
  then have "S * R * (1 + ulp_half)
      \<le> (sec * (1 + ulp_half) ^ 2) * (a * ((1 + ulp_half) ^ 2 / (1 - ulp_half) ^ 2)) * (1 + ulp_half)"
    by (rule mult_right_mono) simp
  also have "\<dots> = sec * a * ((1 + ulp_half) ^ 5 / (1 - ulp_half) ^ 2)"
    by (simp add: power2_eq_square power_numeral_reduce mult_ac)
  also have "\<dots> \<le> sec * a * credit_slack"
    using e'(1) a credit_slack_bound by (intro mult_left_mono) (auto simp: sec_def)
  also have "sec * a = exact_credit l e'"
    by (simp add: sec_def a_def exact_credit_def)
  also have "\<dots> * credit_slack \<le> exact_credit l e * credit_slack"
    using e'(3) l(5,6)
    by (intro mult_right_mono) (auto simp: exact_credit_def credit_slack_def intro!: divide_right_mono mult_left_mono)
  finally have P: "S * R * (1 + ulp_half) \<le> exact_credit l e * credit_slack" .
  have "0 \<le> S * R" using S R by simp
  then have "fl (S * R) \<le> S * R * (1 + ulp_half) + tiny" by (rule fl_upper)
  with P have F: "fl (S * R) \<le> exact_credit l e * credit_slack + tiny" by linarith
  define x where "x = tokens b + fl (S * R)"
  have x0: "0 \<le> x" using i \<open>0 \<le> S * R\<close> by (auto simp: x_def token_bucket_inv_def intro!: add_nonneg_nonneg fl_nonneg)
  from capped_sum [OF B x0] F
  have "min B (fl x) \<le> tokens b + exact_credit l e * credit_slack + B / 2 ^ 52" by (simp add: x_def)
  then show ?thesis
    using l(4) by (simp add: B_def fadd_def fmul_def x_def S_def R_def e'_def request_slack_def)
qed

lemma take_token_price:
  assumes "1 \<le> B" and "1 - 2 / 10 ^ 9 \<le> x" and "x \<le> B"
  shows "take_token x + (1 - 2 / 10 ^ 9) \<le> x + B / 2 ^ 52"
proof (cases "1 \<le> x")
  case True
  have "B * ulp_half + tiny \<le> B / 2 ^ 52"
    using two_tiny [OF assms(1)] tiny_pos(2) by linarith
  moreover have "fl (x - 1) \<le> (x - 1) + (x - 1) * ulp_half + tiny"
    using fl_upper [of "x - 1"] True by (simp add: algebra_simps)
  moreover have "(x - 1) * ulp_half \<le> B * ulp_half"
    using assms(3) by (intro mult_right_mono) auto
  moreover have "take_token x = fl (x - 1)"
    using fl_nonneg [of "x - 1"] True by (simp add: take_token_def fsub_def Let_def)
  ultimately have "take_token x \<le> (x - 1) + B / 2 ^ 52" by linarith
  then show ?thesis by simp
next
  case False
  then have "fl (x - 1) \<le> 0" using fl_mono [of "x - 1" 0] by simp
  then have "take_token x = 0" by (auto simp: take_token_def fsub_def Let_def)
  then show ?thesis using assms(1,2) by simp
qed

lemma take_token_cost:
  assumes "serves_token l" and "admit_threshold \<le> x" and "x \<le> of_int (burst l)"
  shows "take_token x + (1 - 2 / 10 ^ 9) \<le> x + request_slack l / 2"
  using take_token_price [of "of_int (burst l)" x] serves_tokenD(2) [OF assms(1)] assms(3)
    order_trans [OF admit_threshold_bounds(1) assms(2)]
  by (simp add: request_slack_def)

section \<open>The balance of a run\<close>

definition admit_cost :: rat where "admit_cost = 1 - 2 / 10 ^ 9"

text \<open>\<open>balanced c b\<close>: the bucket has been used, with readings of the clock \<open>c\<close>.\<close>

definition used :: "bool \<Rightarrow> token_bucket \<Rightarrow> bool" where
  "used c b \<longleftrightarrow> \<not> is_zero (last_step b) \<and> same_clock c (last_step b)"

lemma exact_credit_0 [simp]: "exact_credit l 0 = 0"
  by (simp add: exact_credit_def)

lemma exact_credit_add: "exact_credit l a + exact_credit l b = exact_credit l (a + b)"
  by (simp add: exact_credit_def add_divide_distrib distrib_left)

lemma exact_credit_mono:
  "serves_token l \<Longrightarrow> a \<le> b \<Longrightarrow> exact_credit l a \<le> exact_credit l b"
  using serves_tokenD(5,6) [of l]
  by (auto simp: exact_credit_def intro!: divide_right_mono mult_left_mono)

lemma step_balance:
  assumes s: "serves_token l" and i: "token_bucket_inv l b" and u: "used c b"
    and t: "same_clock c t" "\<not> is_zero t" and st: "token_bucket_step oor b l t = Some (d, b')"
  shows "(if allowed d then admit_cost else 0) + tokens b'
      \<le> tokens b + exact_credit l (instant (last_step b') - instant (last_step b)) * credit_slack + request_slack l"
    and "used c b'" and "last_step b' \<in> {last_step b, t}" and "instant (last_step b) \<le> instant (last_step b')"
proof -
  note f = token_bucket_step_facts [OF s i st]
  define r where "r = refill b l t"
  have a: "time_after t (last_step b) \<longleftrightarrow> 0 < instant t - instant (last_step b)"
    using time_after_instant [OF t(1), of "last_step b"] u by (auto simp: used_def)
  have r: "last_step r = (if time_after t (last_step b) then t else last_step b)"
    using u by (simp add: r_def refill_def used_def)
  have b': "last_step b' = last_step r" using f(3) by (simp add: r_def)
  have "0 \<le> request_slack l" using serves_tokenD(2) [OF s] by (simp add: request_slack_def)
  moreover have "tokens r \<le> tokens b
      + exact_credit l (instant t - instant (last_step b)) * credit_slack + request_slack l / 2"
    if "time_after t (last_step b)"
    using refill_credit [OF s i, of "instant t - instant (last_step b)"] that a u
      time_sub_instant [OF t(1), of "last_step b"]
    by (simp add: r_def refill_def used_def)
  moreover have "tokens r = tokens b" if "\<not> time_after t (last_step b)"
    using that u by (simp add: r_def refill_def used_def)
  ultimately have gain: "tokens r \<le> tokens b
      + exact_credit l (instant (last_step b') - instant (last_step b)) * credit_slack + request_slack l / 2"
    by (auto simp: b' r)
  have "(if allowed d then admit_cost else 0) + tokens b' \<le> tokens r + request_slack l / 2"
  proof (cases "allowed d")
    case True
    have "tokens r \<le> of_int (burst l)"
      using refill_inv [OF s i, of t] by (simp add: r_def token_bucket_inv_def)
    then have "take_token (tokens r) + (1 - 2 / 10 ^ 9) \<le> tokens r + request_slack l / 2"
      using f(1) True by (intro take_token_cost [OF s]) (simp_all add: r_def)
    then show ?thesis using f(2) True by (simp add: r_def admit_cost_def add.commute)
  next
    case False
    then show ?thesis using f(2) \<open>0 \<le> request_slack l\<close> by (simp add: r_def)
  qed
  with gain show "(if allowed d then admit_cost else 0) + tokens b'
      \<le> tokens b + exact_credit l (instant (last_step b') - instant (last_step b)) * credit_slack + request_slack l"
    by linarith
  show "used c b'" "last_step b' \<in> {last_step b, t}" "instant (last_step b) \<le> instant (last_step b')"
    using u t a by (auto simp: used_def b' r)
qed

lemma run_balance:
  assumes s: "serves_token l" and "token_bucket_inv l b" and "used c b"
    and "\<forall>t \<in> set ts. same_clock c t \<and> \<not> is_zero t \<and> instant t \<le> x" and "instant (last_step b) \<le> x"
    and "run (token_bucket_step oor) l b ts = Some (ds, b')"
  shows "of_nat (length (admitted ds)) * admit_cost + tokens b'
      \<le> tokens b + exact_credit l (x - instant (last_step b)) * credit_slack + of_nat (length ts) * request_slack l"
  using assms(2-)
proof (induction ts arbitrary: b ds)
  case Nil
  moreover have "0 \<le> exact_credit l (x - instant (last_step b)) * credit_slack"
    using exact_credit_mono [OF s, of 0 "x - instant (last_step b)"] Nil.prems(4)
    by (simp add: credit_slack_def)
  ultimately show ?case by simp
next
  case (Cons t ts)
  obtain d c' es where t: "token_bucket_step oor b l t = Some (d, c')"
    and r: "run (token_bucket_step oor) l c' ts = Some (es, b')" and ds: "ds = (t, d) # es"
    using Cons.prems(5) by (auto simp: run_Cons simp del: run.simps)
  have tt: "same_clock c t" "\<not> is_zero t" "instant t \<le> x" using Cons.prems(3) by auto
  note st = step_balance [OF s Cons.prems(1,2) tt(1,2) t]
  have inv': "token_bucket_inv l c'" by (rule token_bucket_step_facts(4) [OF s Cons.prems(1) t])
  have "instant (last_step c') \<le> x" using st(3) tt(3) Cons.prems(4) by auto
  from Cons.IH [OF inv' st(2) _ this r]
  have IH: "of_nat (length (admitted es)) * admit_cost + tokens b'
      \<le> tokens c' + exact_credit l (x - instant (last_step c')) * credit_slack + of_nat (length ts) * request_slack l"
    using Cons.prems(3) by simp
  have "exact_credit l (instant (last_step c') - instant (last_step b)) * credit_slack
      + exact_credit l (x - instant (last_step c')) * credit_slack
      = exact_credit l (x - instant (last_step b)) * credit_slack"
    unfolding distrib_right [symmetric] exact_credit_add by simp
  then show ?case using IH st(1) by (simp add: ds algebra_simps split: if_splits)
qed

lemma first_step:
  assumes s: "serves_token l" and st: "token_bucket_step oor token_bucket_fresh l t = Some (d, b)"
  shows "allowed d" and "tokens b = of_int (burst l - 1)" and "last_step b = t" and "token_bucket_inv l b"
proof -
  note l = serves_tokenD [OF s]
  note f = token_bucket_step_facts [OF s tb.inv_fresh [OF s] st]
  have r: "refill token_bucket_fresh l t = \<lparr>tokens = of_int (burst l), last_step = t\<rparr>"
    using l(4) by (simp add: refill_def token_bucket_fresh_def is_zero_def zero_time_def)
  have "(1::rat) \<le> of_int (burst l)" using l(2) by simp
  then show a: "allowed d" using f(1) admit_threshold_bounds(2) by (simp add: r)
  have "fl (of_int (burst l) - 1) = of_int (burst l - 1)"
    using fl_of_int [of "burst l - 1"] l(2,3) by simp
  then show "tokens b = of_int (burst l - 1)"
    using f(2) a l(2) by (simp add: r take_token_def fsub_def Let_def)
  show "last_step b = t" "token_bucket_inv l b" using f(3,4) by (simp_all add: r)
qed

section \<open>Bursts\<close>

lemma fl_whole: "0 \<le> k \<Longrightarrow> k \<le> 2 ^ 53 \<Longrightarrow> fl (of_int k) = of_int k"
  by (rule fl_of_int) simp

text \<open>
  With \<open>k\<close> whole tokens, requests whose clock does not pass the last refill are admitted until
  the tokens are gone; nothing is refilled, also when the clock steps backwards.
\<close>

lemma burst_from:
  assumes s: "serves_token l" and "token_bucket_inv l b" and "used c b"
    and "tokens b = of_int k" and "0 \<le> k" and "k \<le> 2 ^ 53"
    and "\<forall>t \<in> set ts. same_clock c t \<and> instant t \<le> instant (last_step b)"
    and "run (token_bucket_step oor) l b ts = Some (ds, b')"
  shows "int (length (admitted ds)) = min k (int (length ts))"
  using assms(2-)
proof (induction ts arbitrary: b ds k)
  case (Cons t ts)
  obtain d c' es where t: "token_bucket_step oor b l t = Some (d, c')"
    and r: "run (token_bucket_step oor) l c' ts = Some (es, b')" and ds: "ds = (t, d) # es"
    using Cons.prems(7) by (auto simp: run_Cons simp del: run.simps)
  note f = token_bucket_step_facts [OF s Cons.prems(1) t]
  have "\<not> time_after t (last_step b)"
    using time_after_instant [of c t "last_step b"] Cons.prems(2,6) by (auto simp: used_def)
  then have rf: "refill b l t = b" using Cons.prems(2) by (simp add: refill_def used_def)
  have ok: "allowed d \<longleftrightarrow> 1 \<le> k"
  proof
    assume "allowed d"
    then have "0 < tokens b" using f(1) admit_threshold_bounds(3) by (simp add: rf)
    then show "1 \<le> k" using Cons.prems(3) by simp
  next
    assume "1 \<le> k"
    then have "1 \<le> tokens b" using Cons.prems(3) by simp
    then show "allowed d" using f(1) admit_threshold_bounds(2) by (simp add: rf)
  qed
  define k' where "k' = (if allowed d then k - 1 else k)"
  have "tokens c' = of_int k'"
    using f(2) ok Cons.prems(3,5) fl_whole [of "k - 1"]
    by (simp add: rf k'_def take_token_def fsub_def Let_def)
  moreover have "0 \<le> k'" "k' \<le> 2 ^ 53" using Cons.prems(4,5) ok by (auto simp: k'_def)
  moreover have "used c c'" "last_step c' = last_step b" using f(3) Cons.prems(2) by (auto simp: rf used_def)
  ultimately have "int (length (admitted es)) = min k' (int (length ts))"
    using Cons.IH [OF f(4) _ _ _ _ _ r] Cons.prems(6) by simp
  then show ?case using ok Cons.prems(4) by (auto simp: ds k'_def)
qed simp

lemma fl_huge: "fl (of_int (2 ^ 54) - 1) = of_int (2 ^ 54)"
  by code_simp

lemma i2f_huge: "i2f (2 ^ 54) = of_int (2 ^ 54)"
  by code_simp

lemma huge_step:
  assumes "burst l = 2 ^ 54" and "tokens (refill b l t) = of_int (2 ^ 54)"
    and "token_bucket_step oor b l t = Some (d, b')"
  shows "allowed d" and "tokens b' = of_int (2 ^ 54)" and "last_step b' = last_step (refill b l t)"
proof -
  have "admit_threshold \<le> (of_int (2 ^ 54) :: rat)"
    using admit_threshold_bounds(2) by (rule order_trans) simp
  then show "allowed d" "tokens b' = of_int (2 ^ 54)" "last_step b' = last_step (refill b l t)"
    using assms(2,3) fl_huge by (auto simp: token_bucket_step_def Let_def take_token_def fsub_def)
qed

lemma huge_run:
  assumes "burst l = 2 ^ 54" and "tokens b = of_int (2 ^ 54)" and "last_step b = t" and "\<not> is_zero t"
    and "run (token_bucket_step oor) l b (replicate n t) = Some (ds, b')"
  shows "length (admitted ds) = n"
  using assms(2-)
proof (induction n arbitrary: b ds)
  case (Suc n)
  obtain d c' es where t: "token_bucket_step oor b l t = Some (d, c')"
    and r: "run (token_bucket_step oor) l c' (replicate n t) = Some (es, b')" and ds: "ds = (t, d) # es"
    using Suc.prems(4) by (auto simp: run_Cons simp del: run.simps)
  have "\<not> time_after t t" by (simp add: time_after_def split: option.split)
  then have rf: "refill b l t = b" using Suc.prems(2,3) by (simp add: refill_def)
  note h = huge_step [OF assms(1) _ t, unfolded rf, OF Suc.prems(1)]
  show ?case using Suc.IH [OF h(2) _ Suc.prems(3) r] h Suc.prems(2) by (simp add: ds)
qed simp

section \<open>Properties\<close>

text \<open>
  C11. What a token bucket admits over time, on the doubles the code computes with: after any run
  of requests on one clock, in any order of their instants, the number admitted is at most the
  burst plus the exact refill of the elapsed time, up to the epsilon of the admission test
  (two parts in a billion per request), a factor of \<open>1 + 2 ^ -49\<close> on the refill and
  \<open>burst / 2 ^ 51\<close> per request for the rounding.
\<close>

theorem token_bucket_admission_bound:
  assumes "serves_token l" and "\<forall>t \<in> set (t0 # ts). same_clock c t \<and> \<not> is_zero t \<and> instant t \<le> x"
    and "run (token_bucket_step oor) l token_bucket_fresh (t0 # ts) = Some (ds, b)"
  shows "of_nat (length (admitted ds)) * (1 - 2 / 10 ^ 9)
    \<le> of_int (burst l)
      + of_int (rate l) * of_int (x - instant t0) / of_int (window l) * (1 + 1 / 2 ^ 49)
      + of_nat (length (t0 # ts)) * (of_int (burst l) / (2 ^ 51 :: rat))"
proof -
  obtain d b1 es where t: "token_bucket_step oor token_bucket_fresh l t0 = Some (d, b1)"
    and r: "run (token_bucket_step oor) l b1 ts = Some (es, b)" and ds: "ds = (t0, d) # es"
    using assms(3) by (auto simp: run_Cons simp del: run.simps)
  note f = first_step [OF assms(1) t]
  have "used c b1" using assms(2) f(3) by (simp add: used_def)
  from run_balance [OF assms(1) f(4) this _ _ r, of x] assms(2)
  have "of_nat (length (admitted es)) * admit_cost + tokens b \<le> of_int (burst l - 1)
      + exact_credit l (x - instant t0) * credit_slack + of_nat (length ts) * request_slack l"
    by (simp add: f(2,3))
  moreover have "token_bucket_inv l b" by (rule tb.run_inv [OF assms(1) f(4) r])
  then have "0 \<le> tokens b" by (simp add: token_bucket_inv_def)
  moreover have "0 \<le> request_slack l" using serves_tokenD(2) [OF assms(1)] by (simp add: request_slack_def)
  moreover have "admit_cost \<le> 1" by (simp add: admit_cost_def)
  moreover have "of_nat (length (admitted ds)) * admit_cost = of_nat (length (admitted es)) * admit_cost + admit_cost"
    "of_nat (length (t0 # ts)) * request_slack l = of_nat (length ts) * request_slack l + request_slack l"
    using f(1) by (simp_all add: ds algebra_simps)
  ultimately have "of_nat (length (admitted ds)) * admit_cost \<le> of_int (burst l)
      + exact_credit l (x - instant t0) * credit_slack + of_nat (length (t0 # ts)) * request_slack l"
    by simp
  then show ?thesis
    by (simp only: admit_cost_def exact_credit_def credit_slack_def request_slack_def)
qed

text \<open>
  A fresh token bucket admits exactly its burst at once: of any number of requests none of
  whose instants passes the first one's, the smaller of the burst and their number is admitted,
  also when the clock steps backwards between them.
\<close>

theorem token_bucket_burst_exact:
  assumes "serves_token l" and "\<forall>t \<in> set (t0 # ts). same_clock c t \<and> \<not> is_zero t \<and> instant t \<le> instant t0"
    and "run (token_bucket_step oor) l token_bucket_fresh (t0 # ts) = Some (ds, b)"
  shows "int (length (admitted ds)) = min (burst l) (int (length (t0 # ts)))"
proof -
  obtain d b1 es where t: "token_bucket_step oor token_bucket_fresh l t0 = Some (d, b1)"
    and r: "run (token_bucket_step oor) l b1 ts = Some (es, b)" and ds: "ds = (t0, d) # es"
    using assms(3) by (auto simp: run_Cons simp del: run.simps)
  note f = first_step [OF assms(1) t]
  have "used c b1" using assms(2) f(3) by (simp add: used_def)
  from burst_from [OF assms(1) f(4) this f(2) _ _ _ r] assms(2) serves_tokenD(2,3) [OF assms(1)]
  show ?thesis by (simp add: f(1,3) ds)
qed

text \<open>
  The limit of the doubles: a burst of \<open>2 ^ 54\<close> passes the validation, but taking a token from
  the full bucket rounds back to the full bucket, so a single instant admits any number of
  requests.
\<close>

theorem token_bucket_huge_burst_never_drains:
  assumes "limit_ok l" and "burst l = 2 ^ 54" and "\<not> is_zero t"
    and "run (token_bucket_step oor) l token_bucket_fresh (replicate n t) = Some (ds, b)"
  shows "length (admitted ds) = n"
proof (cases n)
  case (Suc m)
  obtain d b1 es where t: "token_bucket_step oor token_bucket_fresh l t = Some (d, b1)"
    and r: "run (token_bucket_step oor) l b1 (replicate m t) = Some (es, b)" and ds: "ds = (t, d) # es"
    using assms(4) unfolding Suc by (auto simp: run_Cons simp del: run.simps)
  have "tokens (refill token_bucket_fresh l t) = of_int (2 ^ 54)" "last_step (refill token_bucket_fresh l t) = t"
    using assms(2) i2f_huge by (auto simp: refill_def token_bucket_fresh_def is_zero_def zero_time_def)
  from huge_step [OF assms(2) this(1) t] this(2) huge_run [OF assms(2) _ _ assms(3) r] show ?thesis
    by (simp add: Suc ds)
qed (use assms(4) in simp)

section \<open>Witnesses\<close>

text \<open>The \<open>/api/\<close> limit of the example configuration, with its default window.\<close>

definition api_limit :: limit where
  "api_limit = \<lparr>algorithm = algo_token_bucket, rate = 10, burst = 20, window = second\<rparr>"

lemma api_limit_serves: "serves_token api_limit"
  by (simp add: serves_token_def limit64_def limit_ok_def api_limit_def in_int64_def int64_min_def
      int64_max_def second_def)

lemma api_limit_fields [simp]: "rate api_limit = 10" "burst api_limit = 20" "window api_limit = 1000000000"
  by (simp_all add: api_limit_def second_def)

definition api_time :: "int \<Rightarrow> gotime" where
  "api_time w = \<lparr>wall = 63900000000000000000 + w, mono = None\<rparr>"

lemma api_time_simps [simp]:
  "same_clock False (api_time w)" "instant (api_time w) = 63900000000000000000 + w"
  "0 \<le> w \<Longrightarrow> \<not> is_zero (api_time w)"
  by (simp_all add: api_time_def same_clock_def instant_def is_zero_def)

definition no_range :: "float64 \<Rightarrow> int" where "no_range x = int64_min"

definition api_run :: "gotime list \<Rightarrow> (gotime \<times> decision) list \<times> token_bucket" where
  "api_run ts = the (run (token_bucket_step no_range) api_limit token_bucket_fresh ts)"

lemma api_run_returns:
  "run (token_bucket_step no_range) api_limit token_bucket_fresh ts = Some (fst (api_run ts), snd (api_run ts))"
  using tb.run_returns [OF api_limit_serves tb.inv_fresh [OF api_limit_serves], of no_range ts]
  by (auto simp: api_run_def)

text \<open>Thirty requests at once and as many half a second later: 20 and 5 tokens.\<close>

theorem token_bucket_admission_bound_witness:
  "of_nat (length (admitted (fst (api_run (api_time 0 # replicate 29 (api_time 0) @ replicate 30 (api_time 500000000))))))
      * (1 - 2 / 10 ^ 9)
    \<le> 20 + 5 * (1 + 1 / 2 ^ 49) + 60 * (20 / (2 ^ 51 :: rat))"
  using token_bucket_admission_bound [OF api_limit_serves, of "api_time 0"
      "replicate 29 (api_time 0) @ replicate 30 (api_time 500000000)" False "63900000000500000000"
      no_range _ _, OF _ api_run_returns]
  by simp

theorem token_bucket_burst_exact_witness:
  "length (admitted (fst (api_run (api_time 5 # replicate 24 (api_time 3))))) = 20"
  using token_bucket_burst_exact [OF api_limit_serves, of "api_time 5" "replicate 24 (api_time 3)" False
      no_range _ _, OF _ api_run_returns]
  by simp

definition huge_limit :: limit where
  "huge_limit = \<lparr>algorithm = algo_token_bucket, rate = 1, burst = 2 ^ 54, window = second\<rparr>"

theorem token_bucket_huge_burst_never_drains_witness:
  "length (admitted (fst (the (run (token_bucket_step no_range) huge_limit token_bucket_fresh
      (replicate 3 (api_time 0)))))) = 3"
proof -
  obtain ds b where r: "run (token_bucket_step no_range) huge_limit token_bucket_fresh (replicate 3 (api_time 0)) = Some (ds, b)"
    by (auto simp: token_bucket_step_def Let_def numeral_3_eq_3)
  have "length (admitted ds) = 3"
    by (rule token_bucket_huge_burst_never_drains [OF _ _ _ r])
      (simp_all add: huge_limit_def limit_ok_def second_def)
  then show ?thesis by (simp add: r)
qed

end
