(* ===== verification/Limiter.thy ===== *)
theory Limiter
  imports Bucket
begin

text \<open>
  The interface \<open>Limiter\<close> of \<open>internal/limiter/limiter.go\<close>: what an implementation answers,
  the errors it can answer with, and the promises on which the gateway rests. The error values
  stand for the \<open>fmt.Errorf\<close> messages of \<open>memory.go\<close> and \<open>redis.go\<close>, one constructor each.
\<close>

section \<open>Errors\<close>

text \<open>
  What a call to redis can fail with: an error for which \<open>errors.Is(err, context.Canceled)\<close>
  holds, the breaker's \<open>errBreakerOpen\<close>, or any other.
\<close>

datatype call_error = Canceled | CircuitOpen | CallFailed string

datatype allow_error =
    AtCapacity nat
  | NoBucketFor string
  | NoScriptFor string
  | WindowBelowMicro duration
  | RedisFailed string call_error
  | ReplyLength nat

type_synonym answer = "allow_error + decision"

text \<open>The number a decision under \<open>l\<close> reports as \<open>X-RateLimit-Limit\<close>.\<close>

definition limit_quota :: "limit \<Rightarrow> int" where
  "limit_quota l = (if algorithm l = algo_token_bucket then burst l else rate l)"

section \<open>The interface\<close>

text \<open>
  A request brings what it finds outside of the limiter, of a type \<open>'e\<close> of the implementation
  (the clock's reading, the reply of redis), the bucket key and the limit. \<open>good e k l\<close> are the
  requests the implementation is meant for.
\<close>

type_synonym ('s, 'e) allow = "'s \<Rightarrow> 'e \<Rightarrow> string \<Rightarrow> limit \<Rightarrow> ('s \<times> answer) option"

fun allow_all :: "('s, 'e) allow \<Rightarrow> 's \<Rightarrow> ('e \<times> string \<times> limit) list \<Rightarrow> ('s \<times> answer list) option" where
  "allow_all allow s [] = Some (s, [])"
| "allow_all allow s ((e, k, l) # rs) =
     (case allow s e k l of
        None \<Rightarrow> None
      | Some (s', a) \<Rightarrow>
          (case allow_all allow s' rs of
             None \<Rightarrow> None
           | Some (s'', as) \<Rightarrow> Some (s'', a # as)))"

lemma allow_all_Cons:
  "allow_all allow s ((e, k, l) # rs) = Some (s'', as) \<longleftrightarrow>
     (\<exists>s' a bs. allow s e k l = Some (s', a) \<and> allow_all allow s' rs = Some (s'', bs) \<and> as = a # bs)"
  by (auto split: option.splits)

lemma allow_all_append:
  "allow_all allow s (rs @ qs) =
     (case allow_all allow s rs of
        None \<Rightarrow> None
      | Some (s', as) \<Rightarrow>
          (case allow_all allow s' qs of
             None \<Rightarrow> None
           | Some (s'', bs) \<Rightarrow> Some (s'', as @ bs)))"
  by (induction allow s rs rule: allow_all.induct) (auto split: option.splits)

lemma allow_all_snoc:
  "allow_all allow s (rs @ [(e, k, l)]) = Some (s'', as) \<longleftrightarrow>
     (\<exists>s' bs a. allow_all allow s rs = Some (s', bs) \<and> allow s' e k l = Some (s'', a) \<and> as = bs @ [a])"
  by (auto simp: allow_all_append split: option.splits)

lemma allow_all_length: "allow_all allow s rs = Some (s', as) \<Longrightarrow> length as = length rs"
  by (induction rs arbitrary: s as) (auto split: option.splits)

text \<open>
  The promises: on a good request a limiter in good order does not panic and stays in good order,
  and a decision it makes is of the limit's shape.
\<close>

locale limiter =
  fixes allow :: "('s, 'e) allow"
    and inv :: "'s \<Rightarrow> bool"
    and good :: "'e \<Rightarrow> string \<Rightarrow> limit \<Rightarrow> bool"
  assumes allow_returns: "inv s \<Longrightarrow> good e k l \<Longrightarrow> allow s e k l \<noteq> None"
    and allow_inv: "inv s \<Longrightarrow> good e k l \<Longrightarrow> allow s e k l = Some (s', a) \<Longrightarrow> inv s'"
    and allow_decision: "inv s \<Longrightarrow> good e k l \<Longrightarrow> allow s e k l = Some (s', Inr d)
      \<Longrightarrow> decision_ok (limit_quota l) d"
begin

lemma all_return:
  assumes "inv s" and "\<forall>(e, k, l) \<in> set rs. good e k l"
  shows "\<exists>s' as. allow_all allow s rs = Some (s', as) \<and> inv s'"
  using assms
proof (induction rs arbitrary: s)
  case (Cons r rs)
  obtain e k l where r: "r = (e, k, l)" by (cases r) auto
  then have g: "good e k l" using Cons.prems(2) by simp
  obtain s' a where a: "allow s e k l = Some (s', a)"
    using allow_returns [OF Cons.prems(1) g] by auto
  from Cons.IH [OF allow_inv [OF Cons.prems(1) g a]] Cons.prems(2) show ?case
    by (auto simp: r a)
qed simp

lemma all_decisions:
  assumes "inv s" and "\<forall>(e, k, l) \<in> set rs. good e k l" and "allow_all allow s rs = Some (s', as)"
    and "i < length rs" and "as ! i = Inr d" and "rs ! i = (e, k, l)"
  shows "decision_ok (limit_quota l) d"
  using assms
proof (induction rs arbitrary: s as i)
  case (Cons r rs)
  obtain e' k' l' where r: "r = (e', k', l')" by (cases r) auto
  then have g: "good e' k' l'" using Cons.prems(2) by simp
  obtain s1 a bs where a: "allow s e' k' l' = Some (s1, a)"
    and b: "allow_all allow s1 rs = Some (s', bs)" and as: "as = a # bs"
    using Cons.prems(3) unfolding r allow_all_Cons by blast
  note i1 = allow_inv [OF Cons.prems(1) g a]
  show ?case
  proof (cases i)
    case 0
    then have "e' = e" "k' = k" "l' = l" "a = Inr d" using Cons.prems(5,6) by (auto simp: r as)
    then show ?thesis using allow_decision [OF Cons.prems(1) g] a by simp
  next
    case (Suc j)
    then show ?thesis
      using Cons.IH [OF i1 _ b, of j] Cons.prems(2,4-6) by (simp add: as)
  qed
qed simp

end

end
