(* ===== verification/Memory.thy ===== *)
theory Memory
  imports Limiter Fixed_Window Sliding_Window Token_Bucket
begin

text \<open>
  The in-memory backend, \<open>internal/limiter/memory.go\<close>: one bucket per algorithm and key in a
  map of bounded size. \<open>Allow\<close> runs under one mutex, so a run of the backend is a sequence of
  whole calls; the map is an association list and the clock's reading an argument.
\<close>

section \<open>The code\<close>

datatype bucket_state = FW fixed_window | TB token_bucket | SW sliding_window

definition bucket_step :: "(float64 \<Rightarrow> int) \<Rightarrow> bucket_state stepper" where
  "bucket_step oor b l now =
     (case b of
        FW f \<Rightarrow> map_option (apsnd FW) (fixed_window_step f l now)
      | TB f \<Rightarrow> map_option (apsnd TB) (token_bucket_step oor f l now)
      | SW f \<Rightarrow> map_option (apsnd SW) (sliding_window_step f l now))"

definition new_bucket :: "string \<Rightarrow> bucket_state option" where
  "new_bucket a =
     (if a = algo_fixed_window then Some (FW fixed_window_fresh)
      else if a = algo_token_bucket then Some (TB token_bucket_fresh)
      else if a = algo_sliding_window then Some (SW sliding_window_fresh)
      else None)"

definition max_keys :: nat where "max_keys = 100000"

type_synonym memory = "(string \<times> bucket_state) list"

definition new_memory_limiter :: memory where "new_memory_limiter = []"

definition state_key :: "string \<Rightarrow> string \<Rightarrow> string" where
  "state_key a key = a @ '':'' @ key"

definition memory_step :: "(float64 \<Rightarrow> int) \<Rightarrow> memory \<Rightarrow> string \<Rightarrow> bucket_state \<Rightarrow> limit \<Rightarrow> gotime \<Rightarrow>
    (memory \<times> answer) option" where
  "memory_step oor m sk b l now =
     (case bucket_step oor b l now of
        None \<Rightarrow> None
      | Some (d, b') \<Rightarrow> Some (AList.update sk b' m, Inr d))"

text \<open>\<open>mk\<close> is the variable \<open>maxKeys\<close>, \<open>max_keys\<close> in production.\<close>

definition memory_allow :: "nat \<Rightarrow> (float64 \<Rightarrow> int) \<Rightarrow> (memory, gotime) allow" where
  "memory_allow mk oor m now key l =
     (let sk = state_key (algorithm l) key in
      case map_of m sk of
        Some b \<Rightarrow> memory_step oor m sk b l now
      | None \<Rightarrow>
          if mk \<le> length m then Some (m, Inl (AtCapacity mk))
          else case new_bucket (algorithm l) of
              None \<Rightarrow> Some (m, Inl (NoBucketFor (algorithm l)))
            | Some b \<Rightarrow> memory_step oor (AList.update sk b m) sk b l now)"

section \<open>Any of the three buckets\<close>

definition serves :: "limit \<Rightarrow> bool" where
  "serves l \<longleftrightarrow> serves_fixed l \<or> serves_sliding l \<or> serves_token l"

definition fresh_bucket :: "limit \<Rightarrow> bucket_state" where
  "fresh_bucket l = the (new_bucket (algorithm l))"

definition bucket_inv :: "limit \<Rightarrow> bucket_state \<Rightarrow> bool" where
  "bucket_inv l b \<longleftrightarrow>
     (case b of
        FW f \<Rightarrow> serves_fixed l \<and> fixed_window_inv l f
      | TB f \<Rightarrow> serves_token l \<and> token_bucket_inv l f
      | SW f \<Rightarrow> serves_sliding l \<and> sliding_window_inv l f)"

lemma serves_algorithm:
  "serves_fixed l \<Longrightarrow> algorithm l = algo_fixed_window"
  "serves_sliding l \<Longrightarrow> algorithm l = algo_sliding_window"
  "serves_token l \<Longrightarrow> algorithm l = algo_token_bucket"
  by (simp_all add: serves_fixed_def serves_sliding_def serves_token_def)

lemma serves_quota:
  "serves_fixed l \<Longrightarrow> limit_quota l = rate l" "serves_sliding l \<Longrightarrow> limit_quota l = rate l"
  "serves_token l \<Longrightarrow> limit_quota l = burst l"
  by (simp_all add: limit_quota_def serves_algorithm)

lemma new_bucket_serves: "serves l \<Longrightarrow> new_bucket (algorithm l) = Some (fresh_bucket l)"
  by (auto simp: serves_def fresh_bucket_def new_bucket_def serves_algorithm)

lemma fresh_bucket_eq:
  "serves_fixed l \<Longrightarrow> fresh_bucket l = FW fixed_window_fresh"
  "serves_token l \<Longrightarrow> fresh_bucket l = TB token_bucket_fresh"
  "serves_sliding l \<Longrightarrow> fresh_bucket l = SW sliding_window_fresh"
  by (simp_all add: fresh_bucket_def new_bucket_def serves_algorithm)

lemma bucket_step_Some:
  "bucket_step oor b l t = Some (d, b') \<longleftrightarrow>
     (case b of
        FW f \<Rightarrow> \<exists>f'. b' = FW f' \<and> fixed_window_step f l t = Some (d, f')
      | TB f \<Rightarrow> \<exists>f'. b' = TB f' \<and> token_bucket_step oor f l t = Some (d, f')
      | SW f \<Rightarrow> \<exists>f'. b' = SW f' \<and> sliding_window_step f l t = Some (d, f'))"
  by (auto simp: bucket_step_def apsnd_def map_prod_def split: bucket_state.split)

interpretation mb: bucket "bucket_step oor" fresh_bucket bucket_inv limit_quota serves for oor
proof
  fix l b t d b'
  assume s: "serves l"
  then show "bucket_inv l (fresh_bucket l)"
    by (auto simp: serves_def fresh_bucket_eq bucket_inv_def fw.inv_fresh tb.inv_fresh sw.inv_fresh)
  assume i: "bucket_inv l b"
  then show "bucket_step oor b l t \<noteq> None"
    using fw.step_returns tb.step_returns sw.step_returns
    by (auto simp: bucket_step_def bucket_inv_def split: bucket_state.splits)
  assume "bucket_step oor b l t = Some (d, b')"
  then show "bucket_inv l b'" "decision_ok (limit_quota l) d" "\<not> degraded d"
    using i fw.step_inv tb.step_inv sw.step_inv fw.step_decision tb.step_decision sw.step_decision
      fw.step_undegraded tb.step_undegraded sw.step_undegraded
    by (auto simp: bucket_step_Some bucket_inv_def serves_quota split: bucket_state.splits)
qed

lemma run_of_sum:
  "run (bucket_step oor) l (FW f) ts = map_option (apsnd FW) (run fixed_window_step l f ts)"
  "run (bucket_step oor) l (TB g) ts = map_option (apsnd TB) (run (token_bucket_step oor) l g ts)"
  "run (bucket_step oor) l (SW h) ts = map_option (apsnd SW) (run sliding_window_step l h ts)"
  by (induction ts arbitrary: f g h; simp add: bucket_step_def split: option.split)+

section \<open>The limiter's contract\<close>

text \<open>\<open>plan\<close> gives the limit each key is asked under; the configuration does not change at runtime.\<close>

definition memory_inv :: "nat \<Rightarrow> (string \<Rightarrow> limit) \<Rightarrow> memory \<Rightarrow> bool" where
  "memory_inv mk plan m \<longleftrightarrow> length m \<le> mk \<and>
     (\<forall>k b. serves (plan k) \<longrightarrow> map_of m (state_key (algorithm (plan k)) k) = Some b \<longrightarrow>
        bucket_inv (plan k) b)"

definition planned :: "(string \<Rightarrow> limit) \<Rightarrow> 'e \<Rightarrow> string \<Rightarrow> limit \<Rightarrow> bool" where
  "planned plan e k l \<longleftrightarrow> plan k = l \<and> serves l"

lemma no_colon: "serves l \<Longrightarrow> CHR '':'' \<notin> set (algorithm l)"
  by (auto simp: serves_def serves_algorithm algo_defs)

lemma split_colon: "a @ '':'' @ k = b @ '':'' @ j \<Longrightarrow> CHR '':'' \<notin> set a \<Longrightarrow> CHR '':'' \<notin> set b \<Longrightarrow> a = b \<and> k = j"
proof (induction a arbitrary: b)
  case Nil
  then show ?case by (cases b) auto
next
  case (Cons x a)
  then show ?case by (cases b) auto
qed

lemma state_key_inj:
  "serves l \<Longrightarrow> serves l' \<Longrightarrow> state_key (algorithm l) k = state_key (algorithm l') j \<longleftrightarrow>
     algorithm l = algorithm l' \<and> k = j"
  unfolding state_key_def using split_colon no_colon by blast

lemma memory_step_Some:
  "memory_step oor m sk b l t = Some (m', a) \<longleftrightarrow>
     (\<exists>d b'. bucket_step oor b l t = Some (d, b') \<and> m' = AList.update sk b' m \<and> a = Inr d)"
  by (auto simp: memory_step_def split: option.splits)

text \<open>What one call does, by whether its key is tracked.\<close>

lemma memory_allow_tracked:
  "map_of m (state_key (algorithm l) k) = Some b \<Longrightarrow>
     memory_allow mk oor m t k l = memory_step oor m (state_key (algorithm l) k) b l t"
  by (simp add: memory_allow_def)

lemma memory_allow_full:
  "map_of m (state_key (algorithm l) k) = None \<Longrightarrow> mk \<le> length m \<Longrightarrow>
     memory_allow mk oor m t k l = Some (m, Inl (AtCapacity mk))"
  by (simp add: memory_allow_def)

lemma update_update: "AList.update k v (AList.update k w m) = AList.update k v m"
  by (induction m) auto

lemma memory_allow_new:
  "map_of m (state_key (algorithm l) k) = None \<Longrightarrow> length m < mk \<Longrightarrow> serves l \<Longrightarrow>
     memory_allow mk oor m t k l = memory_step oor m (state_key (algorithm l) k) (fresh_bucket l) l t"
  by (simp add: memory_allow_def new_bucket_serves memory_step_def update_update Let_def split: option.split)

lemma memory_step_keys:
  assumes "memory_step oor m sk b l t = Some (m', a)"
  shows "map_of m' = (map_of m)(sk \<mapsto> snd (the (bucket_step oor b l t)))"
    and "length m' = (if map_of m sk = None then Suc (length m) else length m)"
  using assms by (auto simp: memory_step_Some map_of_update length_update_fresh length_update_known)

text \<open>A call under its key's plan: turned away at capacity, or one step of the key's bucket.\<close>

lemma memory_allow_cases:
  assumes "memory_inv mk plan m" and "planned plan t k l"
  obtains (full) "map_of m (state_key (algorithm l) k) = None" "mk \<le> length m"
      "memory_allow mk oor m t k l = Some (m, Inl (AtCapacity mk))"
  | (step) b d b' where "bucket_inv l b" "bucket_step oor b l t = Some (d, b')"
      "map_of m (state_key (algorithm l) k) = Some b \<or>
       map_of m (state_key (algorithm l) k) = None \<and> length m < mk \<and> b = fresh_bucket l"
      "memory_allow mk oor m t k l = Some (AList.update (state_key (algorithm l) k) b' m, Inr d)"
proof (cases "map_of m (state_key (algorithm l) k)")
  case None
  have s: "serves l" using assms(2) by (simp add: planned_def)
  show ?thesis
  proof (cases "mk \<le> length m")
    case True
    then show ?thesis using None full memory_allow_full by blast
  next
    case False
    obtain d b' where d: "bucket_step oor (fresh_bucket l) l t = Some (d, b')"
      using mb.step_returns [OF s mb.inv_fresh [OF s]] by fastforce
    show ?thesis
      by (rule step [OF mb.inv_fresh [OF s] d])
        (use False None s d in \<open>simp_all add: memory_allow_new memory_step_def\<close>)
  qed
next
  case (Some b)
  have s: "serves l" using assms(2) by (simp add: planned_def)
  have i: "bucket_inv l b" using assms Some by (auto simp: memory_inv_def planned_def)
  obtain d b' where d: "bucket_step oor b l t = Some (d, b')"
    using mb.step_returns [OF s i] by fastforce
  show ?thesis
    by (rule step [OF i d]) (use Some d in \<open>simp_all add: memory_allow_tracked memory_step_def\<close>)
qed

lemma memory_inv_update:
  assumes "memory_inv mk plan m" and "planned plan t k l" and "bucket_inv l b"
    and "map_of m (state_key (algorithm l) k) \<noteq> None \<or> length m < mk"
  shows "memory_inv mk plan (AList.update (state_key (algorithm l) k) b m)"
proof -
  have l: "plan k = l" "serves l" using assms(2) by (auto simp: planned_def)
  have "length (AList.update (state_key (algorithm l) k) b m) \<le> mk"
  proof (cases "map_of m (state_key (algorithm l) k) = None")
    case True
    then show ?thesis using assms(4) by (simp add: length_update_fresh)
  next
    case False
    then show ?thesis using assms(1) by (simp add: length_update_known memory_inv_def)
  qed
  moreover have "bucket_inv (plan j) c"
    if "serves (plan j)" "map_of (AList.update (state_key (algorithm l) k) b m) (state_key (algorithm (plan j)) j) = Some c"
    for j c
    using that assms(1,3) l state_key_inj [OF that(1) l(2), of j k]
    by (auto simp: map_of_update memory_inv_def split: if_splits)
  ultimately show ?thesis by (simp add: memory_inv_def)
qed

interpretation ml: limiter "memory_allow mk oor" "memory_inv mk plan" "planned plan" for mk oor plan
proof
  fix m k l m' a d
  fix t :: gotime
  assume i: "memory_inv mk plan m" and g: "planned plan t k l"
  have s: "serves l" using g by (simp add: planned_def)
  show "memory_allow mk oor m t k l \<noteq> None"
    by (rule memory_allow_cases [OF i g, of oor]) simp_all
  show "memory_inv mk plan m'" if "memory_allow mk oor m t k l = Some (m', a)"
    using that i mb.step_inv [OF s] memory_inv_update [OF i g]
    by (rule_tac memory_allow_cases [OF i g, of oor]) auto
  show "decision_ok (limit_quota l) d" if "memory_allow mk oor m t k l = Some (m', Inr d)"
    using that mb.step_decision [OF s]
    by (rule_tac memory_allow_cases [OF i g, of oor]) auto
qed

section \<open>One key among many\<close>

definition asked :: "string \<Rightarrow> ('e \<times> string \<times> limit) list \<Rightarrow> 'e list" where
  "asked k rs = map fst (filter (\<lambda>(e, j, l). j = k) rs)"

definition answers_for :: "string \<Rightarrow> ('e \<times> string \<times> limit) list \<Rightarrow> answer list \<Rightarrow> answer list" where
  "answers_for k rs as = map snd (filter (\<lambda>((e, j, l), a). j = k) (zip rs as))"

lemma asked_simps [simp]:
  "asked k [] = []" "asked k ((e, j, l) # rs) = (if j = k then e # asked k rs else asked k rs)"
  by (simp_all add: asked_def)

lemma answers_for_simps [simp]:
  "answers_for k [] as = []"
  "answers_for k ((e, j, l) # rs) (a # as) = (if j = k then a # answers_for k rs as else answers_for k rs as)"
  by (simp_all add: answers_for_def)

definition isolated :: "(float64 \<Rightarrow> int) \<Rightarrow> limit \<Rightarrow> bucket_state \<Rightarrow> gotime list \<Rightarrow> answer list \<Rightarrow> bool" where
  "isolated oor l b ts as \<longleftrightarrow>
     (\<exists>ds b'. run (bucket_step oor) l b ts = Some (ds, b') \<and> as = map (\<lambda>(t, d). Inr d) ds)"

lemma isolated_Cons:
  "bucket_step oor b l t = Some (d, b') \<Longrightarrow> isolated oor l b (t # ts) (a # as) \<longleftrightarrow>
     a = Inr d \<and> isolated oor l b' ts as"
  by (auto simp: isolated_def split: option.splits)

lemma isolated_Nil [simp]: "isolated oor l b [] as \<longleftrightarrow> as = []"
  by (auto simp: isolated_def)

lemma full_stays:
  assumes "\<forall>(t, j, l) \<in> set rs. planned plan t j l" and "memory_inv mk plan m" and "serves (plan k)"
    and "map_of m (state_key (algorithm (plan k)) k) = None" and "mk \<le> length m"
    and "allow_all (memory_allow mk oor) m rs = Some (m', as)"
  shows "set (answers_for k rs as) \<subseteq> {Inl (AtCapacity mk)}"
  using assms
proof (induction rs arbitrary: m as)
  case (Cons r rs)
  obtain t j l where r: "r = (t, j, l)" by (cases r) auto
  then have g: "planned plan t j l" using Cons.prems(1) by simp
  then have l: "plan j = l" "serves l" by (auto simp: planned_def)
  obtain m1 a bs where a: "memory_allow mk oor m t j l = Some (m1, a)"
    and bs: "allow_all (memory_allow mk oor) m1 rs = Some (m', bs)" and as: "as = a # bs"
    using Cons.prems(6) unfolding r allow_all_Cons by blast
  have i1: "memory_inv mk plan m1" by (rule ml.allow_inv [OF Cons.prems(2) g a])
  have "map_of m1 (state_key (algorithm (plan k)) k) = None \<and> mk \<le> length m1 \<and> (j = k \<longrightarrow> a = Inl (AtCapacity mk))"
    using Cons.prems(4,5) a l state_key_inj [OF Cons.prems(3) l(2), of k j]
    by (rule_tac memory_allow_cases [OF Cons.prems(2) g, of oor])
      (auto simp: map_of_update length_update_known)
  then show ?case
    using Cons.IH [OF _ i1 Cons.prems(3) _ _ bs] Cons.prems(1) by (auto simp: r as)
qed simp

lemma tracked_run:
  assumes "\<forall>(t, j, l) \<in> set rs. planned plan t j l" and "memory_inv mk plan m" and "serves (plan k)"
    and "map_of m (state_key (algorithm (plan k)) k) = Some b"
    and "allow_all (memory_allow mk oor) m rs = Some (m', as)"
  shows "isolated oor (plan k) b (asked k rs) (answers_for k rs as)"
  using assms
proof (induction rs arbitrary: m as b)
  case (Cons r rs)
  obtain t j l where r: "r = (t, j, l)" by (cases r) auto
  then have g: "planned plan t j l" using Cons.prems(1) by simp
  then have l: "plan j = l" "serves l" by (auto simp: planned_def)
  obtain m1 a bs where a: "memory_allow mk oor m t j l = Some (m1, a)"
    and bs: "allow_all (memory_allow mk oor) m1 rs = Some (m', bs)" and as: "as = a # bs"
    using Cons.prems(5) unfolding r allow_all_Cons by blast
  note IH = Cons.IH [OF _ ml.allow_inv [OF Cons.prems(2) g a] Cons.prems(3) _ bs]
  show ?case
  proof (cases "j = k")
    case False
    then have "map_of m1 (state_key (algorithm (plan k)) k) = Some b"
      using Cons.prems(4) a l state_key_inj [OF Cons.prems(3) l(2), of k j]
      by (rule_tac memory_allow_cases [OF Cons.prems(2) g, of oor]) (auto simp: map_of_update)
    then show ?thesis using IH Cons.prems(1) False by (auto simp: r as)
  next
    case True
    obtain d b' where d: "bucket_step oor b l t = Some (d, b')"
      and m1: "m1 = AList.update (state_key (algorithm l) k) b' m" and ad: "a = Inr d"
      using Cons.prems(4) a l True
      by (rule_tac memory_allow_cases [OF Cons.prems(2) g, of oor]) auto
    have "isolated oor (plan k) b' (asked k rs) (answers_for k rs bs)"
      using IH Cons.prems(1) True l by (auto simp: m1 map_of_update)
    then show ?thesis using d ad l True by (simp add: r as isolated_Cons)
  qed
qed simp

lemma untracked_run:
  assumes "\<forall>(t, j, l) \<in> set rs. planned plan t j l" and "memory_inv mk plan m" and "serves (plan k)"
    and "map_of m (state_key (algorithm (plan k)) k) = None"
    and "allow_all (memory_allow mk oor) m rs = Some (m', as)"
  shows "set (answers_for k rs as) \<subseteq> {Inl (AtCapacity mk)} \<or>
    isolated oor (plan k) (fresh_bucket (plan k)) (asked k rs) (answers_for k rs as)"
  using assms
proof (induction rs arbitrary: m as)
  case (Cons r rs)
  obtain t j l where r: "r = (t, j, l)" by (cases r) auto
  then have g: "planned plan t j l" using Cons.prems(1) by simp
  then have l: "plan j = l" "serves l" by (auto simp: planned_def)
  obtain m1 a bs where a: "memory_allow mk oor m t j l = Some (m1, a)"
    and bs: "allow_all (memory_allow mk oor) m1 rs = Some (m', bs)" and as: "as = a # bs"
    using Cons.prems(5) unfolding r allow_all_Cons by blast
  note i1 = ml.allow_inv [OF Cons.prems(2) g a]
  show ?case
  proof (cases "j = k")
    case False
    then have "map_of m1 (state_key (algorithm (plan k)) k) = None"
      using Cons.prems(4) a l state_key_inj [OF Cons.prems(3) l(2), of k j]
      by (rule_tac memory_allow_cases [OF Cons.prems(2) g, of oor]) (auto simp: map_of_update)
    then show ?thesis
      using Cons.IH [OF _ i1 Cons.prems(3) _ bs] Cons.prems(1) False by (auto simp: r as)
  next
    case True
    show ?thesis
    proof (cases "mk \<le> length m")
      case True
      show ?thesis by (rule disjI1, rule full_stays [OF Cons.prems(1-4) True Cons.prems(5)])
    next
      case False
      obtain d b' where d: "bucket_step oor (fresh_bucket l) l t = Some (d, b')"
        and m1: "m1 = AList.update (state_key (algorithm l) k) b' m" and ad: "a = Inr d"
        using Cons.prems(4) a l True False
        by (rule_tac memory_allow_cases [OF Cons.prems(2) g, of oor]) auto
      have "isolated oor (plan k) b' (asked k rs) (answers_for k rs bs)"
        using tracked_run [OF _ i1 Cons.prems(3) _ bs] Cons.prems(1) True l
        by (auto simp: m1 map_of_update)
      then show ?thesis using d ad l True by (simp add: r as isolated_Cons)
    qed
  qed
qed simp

lemma memory_inv_new: "memory_inv mk plan new_memory_limiter"
  by (simp add: memory_inv_def new_memory_limiter_def)

lemma new_inv_after:
  assumes "\<forall>(t, j, l) \<in> set rs. planned plan t j l"
    and "allow_all (memory_allow mk oor) new_memory_limiter rs = Some (m, as)"
  shows "memory_inv mk plan m"
  using ml.all_return [where mk = mk and oor = oor, OF memory_inv_new assms(1)] assms(2) by fastforce

section \<open>The cap\<close>

definition state_keys :: "('e \<times> string \<times> limit) list \<Rightarrow> string set" where
  "state_keys rs = (\<lambda>(e, k, l). state_key (algorithm l) k) ` set rs"

lemma tracked_keys:
  assumes "\<forall>(t, j, l) \<in> set rs. planned plan t j l"
    and "allow_all (memory_allow mk oor) new_memory_limiter rs = Some (m, as)"
  shows "distinct (map fst m) \<and> fst ` set m \<subseteq> state_keys rs \<and> (length m < mk \<longrightarrow> fst ` set m = state_keys rs)"
  using assms
proof (induction rs arbitrary: m as rule: rev_induct)
  case Nil
  then show ?case by (simp add: state_keys_def new_memory_limiter_def)
next
  case (snoc r rs)
  obtain t k l where r: "r = (t, k, l)" by (cases r) auto
  have g: "planned plan t k l" using snoc.prems(1) by (simp add: r)
  obtain m1 bs a where m1: "allow_all (memory_allow mk oor) new_memory_limiter rs = Some (m1, bs)"
    and a: "memory_allow mk oor m1 t k l = Some (m, a)"
    using snoc.prems(2) unfolding r allow_all_snoc by blast
  have P: "\<forall>(t, j, l) \<in> set rs. planned plan t j l" using snoc.prems(1) by simp
  note IH = snoc.IH [OF P m1]
  have i1: "memory_inv mk plan m1" by (rule new_inv_after [OF P m1])
  have ks: "state_keys (rs @ [r]) = insert (state_key (algorithm l) k) (state_keys rs)"
    by (simp add: state_keys_def r)
  show ?case
  proof (rule memory_allow_cases [OF i1 g, of oor], goal_cases full step)
    case full
    then have "m = m1" using a by simp
    then show ?thesis using IH full(2) ks by auto
  next
    case (step b d b')
    then have m: "m = AList.update (state_key (algorithm l) k) b' m1" using a by simp
    have "fst ` set m = insert (state_key (algorithm l) k) (fst ` set m1)"
      by (metis dom_map_of_conv_image_fst dom_fun_upd m map_of_update option.distinct(1))
    moreover have "distinct (map fst m)" unfolding m using IH by (simp add: distinct_update)
    moreover have "length m1 \<le> length m"
      unfolding m by (cases "map_of m1 (state_key (algorithm l) k)") (simp_all add: length_update_fresh length_update_known)
    ultimately show ?thesis using IH unfolding ks by auto
  qed
qed

lemma untracked_new:
  assumes "\<forall>(t, j, l) \<in> set rs. plan j = l \<and> serves l" and "serves (plan k)"
    and "allow_all (memory_allow mk oor) new_memory_limiter rs = Some (m, as)"
  shows "set (answers_for k rs as) \<subseteq> {Inl (AtCapacity mk)} \<or>
    isolated oor (plan k) (fresh_bucket (plan k)) (asked k rs) (answers_for k rs as)"
  using assms(1,2)
  by (intro untracked_run [where m = new_memory_limiter and mk = mk and m' = m])
    (auto simp: planned_def memory_inv_new assms(3), simp add: new_memory_limiter_def)

lemma only_capacity_errors:
  assumes "\<forall>(t, j, l) \<in> set rs. planned plan t j l"
    and "allow_all (memory_allow mk oor) new_memory_limiter rs = Some (m, as)" and "Inl e \<in> set as"
  shows "e = AtCapacity mk"
  using assms
proof (induction rs arbitrary: m as rule: rev_induct)
  case Nil
  then show ?case by simp
next
  case (snoc q qs)
  obtain t k l where q: "q = (t, k, l)" by (cases q) auto
  have g: "planned plan t k l" and Q: "\<forall>(t, j, l) \<in> set qs. planned plan t j l"
    using snoc.prems(1) by (auto simp: q)
  obtain m1 bs c where m1: "allow_all (memory_allow mk oor) new_memory_limiter qs = Some (m1, bs)"
    and c: "memory_allow mk oor m1 t k l = Some (m, c)" and as: "as = bs @ [c]"
    using snoc.prems(2) unfolding q allow_all_snoc by blast
  have "c = Inl e \<Longrightarrow> e = AtCapacity mk"
    using c by (rule_tac memory_allow_cases [OF new_inv_after [OF Q m1] g, of oor]) auto
  then show ?case using snoc.IH [OF Q m1] snoc.prems(3) by (auto simp: as)
qed

lemma tracked_length:
  assumes "\<forall>(t, j, l) \<in> set rs. planned plan t j l"
    and "allow_all (memory_allow mk oor) new_memory_limiter rs = Some (m, as)"
  shows "length m = min mk (card (state_keys rs))"
proof -
  note t = tracked_keys [OF assms]
  have len: "length m = card (fst ` set m)"
    using t distinct_card [of "map fst m"] by simp
  have fin: "finite (state_keys rs)" by (simp add: state_keys_def)
  have "length m \<le> card (state_keys rs)" unfolding len using t fin by (intro card_mono) auto
  moreover have "memory_inv mk plan m" by (rule new_inv_after [OF assms])
  then have "length m \<le> mk" by (simp add: memory_inv_def)
  moreover have "length m < mk \<Longrightarrow> length m = card (state_keys rs)" using t len by metis
  ultimately show ?thesis by linarith
qed

text \<open>While there is room for every key asked, no request is refused for capacity.\<close>

lemma roomy_no_errors:
  assumes "\<forall>(t, j, l) \<in> set rs. planned plan t j l"
    and "allow_all (memory_allow mk oor) new_memory_limiter rs = Some (m, as)" and "card (state_keys rs) \<le> mk"
  shows "Inl e \<notin> set as"
  using assms
proof (induction rs arbitrary: m as rule: rev_induct)
  case Nil
  then show ?case by simp
next
  case (snoc q qs)
  obtain t k l where q: "q = (t, k, l)" by (cases q) auto
  have g: "planned plan t k l" and Q: "\<forall>(t, j, l) \<in> set qs. planned plan t j l"
    using snoc.prems(1) by (auto simp: q)
  obtain m1 bs c where m1: "allow_all (memory_allow mk oor) new_memory_limiter qs = Some (m1, bs)"
    and c: "memory_allow mk oor m1 t k l = Some (m, c)" and as: "as = bs @ [c]"
    using snoc.prems(2) unfolding q allow_all_snoc by blast
  have fin: "finite (state_keys qs)" by (simp add: state_keys_def)
  have ins: "state_keys (qs @ [q]) = insert (state_key (algorithm l) k) (state_keys qs)"
    by (simp add: state_keys_def q)
  have less: "card (state_keys qs) \<le> mk" using snoc.prems(3) fin by (auto simp: ins card_insert_if split: if_splits)
  have "c \<noteq> Inl e"
  proof (rule memory_allow_cases [OF new_inv_after [OF Q m1] g, of oor], goal_cases full step)
    case full
    note tk = tracked_keys [OF Q m1] and tl = tracked_length [OF Q m1]
    have new: "state_key (algorithm l) k \<notin> fst ` set m1" using full(1) by (simp add: map_of_eq_None_iff)
    have "card (fst ` set m1) = length m1" using tk distinct_card [of "map fst m1"] by simp
    then have "card (fst ` set m1) = card (state_keys qs)" using tl less full(2) by simp
    then have "fst ` set m1 = state_keys qs" using tk fin by (intro card_subset_eq) auto
    then have "card (state_keys (qs @ [q])) = Suc (card (state_keys qs))" using new fin by (simp add: ins)
    then show ?case using snoc.prems(3) tl full(2) less by simp
  next
    case (step b d b')
    then show ?case using c by simp
  qed
  then show ?case using snoc.IH [OF Q m1 less] by (simp add: as)
qed

lemma isolated_sliding:
  assumes "isolated oor l (fresh_bucket l) ts as" and "serves_sliding l"
  obtains ds b where "run sliding_window_step l sliding_window_fresh ts = Some (ds, b)"
    and "as = map (\<lambda>(t, d). Inr d) ds"
  using assms by (auto simp: isolated_def fresh_bucket_eq run_of_sum)

lemma map_fst_zip_answers: "map fst ds = ts \<Longrightarrow> zip ts (map (\<lambda>(t, d). Inr d) ds) = map (\<lambda>(t, d). (t, Inr d)) ds"
  by (induction ds arbitrary: ts) auto

text \<open>The requests among \<open>ts\<close> that were let through on a decision, given their answers.\<close>

definition granted :: "('e \<times> answer) list \<Rightarrow> 'e list" where
  "granted xs = map fst (filter (\<lambda>(t, a). case a of Inl e \<Rightarrow> False | Inr d \<Rightarrow> allowed d) xs)"

lemma granted_admitted:
  "map fst ds = ts \<Longrightarrow> granted (zip ts (map (\<lambda>(t, d). Inr d) ds)) = admitted ds"
  unfolding map_fst_zip_answers by (induction ds arbitrary: ts) (auto simp: granted_def)

lemma granted_refused: "set as \<subseteq> {Inl e} \<Longrightarrow> granted (zip ts as) = []"
proof (induction ts arbitrary: as)
  case (Cons t ts)
  then show ?case by (cases as) (auto simp: granted_def)
qed (simp add: granted_def)

lemma sliding_shared_memory:
  assumes "\<forall>(t, j, l) \<in> set rs. plan j = l \<and> serves l" and "serves_sliding (plan k)"
    and "\<forall>t \<in> set (asked k rs). sliding_coh c (plan k) t" and "sorted (map instant (asked k rs))"
    and "allow_all (memory_allow mk oor) new_memory_limiter rs = Some (m, as)"
  shows "int (length (filter (\<lambda>t. x < instant t \<and> instant t \<le> x + window (plan k))
      (granted (zip (asked k rs) (answers_for k rs as))))) \<le> rate (plan k)"
proof -
  have s: "serves (plan k)" using assms(2) by (simp add: serves_def)
  from untracked_new [OF assms(1) s assms(5)] show ?thesis
  proof
    assume "set (answers_for k rs as) \<subseteq> {Inl (AtCapacity mk)}"
    then have "granted (zip (asked k rs) (answers_for k rs as)) = []" by (rule granted_refused)
    then show ?thesis using limit64D(1) [of "plan k"] assms(2) by (simp add: serves_sliding_def)
  next
    assume "isolated oor (plan k) (fresh_bucket (plan k)) (asked k rs) (answers_for k rs as)"
    then obtain ds b where r: "run sliding_window_step (plan k) sliding_window_fresh (asked k rs) = Some (ds, b)"
      and a: "answers_for k rs as = map (\<lambda>(t, d). Inr d) ds"
      using assms(2) by (rule isolated_sliding)
    from sliding_interval [OF assms(2-4) r, of x] run_times [OF r] show ?thesis
      by (simp add: a granted_admitted admits_def)
  qed
qed

section \<open>Properties\<close>

text \<open>
  C5. Keys do not interfere: in any interleaving of requests, each key under its planned limit, the
  answers to one key are either all the at-capacity error or exactly the decisions its own bucket,
  run alone from its fresh state on the key's own requests, would have made.
\<close>

theorem memory_keys_isolated:
  assumes "\<forall>(t, j, l) \<in> set rs. plan j = l \<and> serves l" and "serves (plan k)"
    and "allow_all (memory_allow mk oor) new_memory_limiter rs = Some (m, as)"
  shows "set (answers_for k rs as) \<subseteq> {Inl (AtCapacity mk)} \<or>
    (\<exists>ds b. run (bucket_step oor) (plan k) (fresh_bucket (plan k)) (asked k rs) = Some (ds, b) \<and>
       answers_for k rs as = map (\<lambda>(t, d). Inr d) ds)"
  using untracked_new [OF assms] unfolding isolated_def .

text \<open>
  C24. The map is bounded and nothing is ever evicted: after any requests it holds one bucket for
  each distinct algorithm and key asked, up to the cap; and once the cap is reached every request
  of a key it does not hold fails with the capacity error and leaves the map as it is.
\<close>

theorem memory_capacity:
  assumes "\<forall>(t, j, l) \<in> set rs. plan j = l \<and> serves l"
    and "allow_all (memory_allow mk oor) new_memory_limiter rs = Some (m, as)"
  shows "length m = min mk (card (state_keys rs)) \<and>
    (length m = mk \<and> state_key (algorithm l) k \<notin> fst ` set m \<longrightarrow>
       memory_allow mk oor m t k l = Some (m, Inl (AtCapacity mk)))"
proof (intro conjI impI)
  show "length m = min mk (card (state_keys rs))"
    by (rule tracked_length [of _ plan, OF _ assms(2)]) (use assms(1) in \<open>auto simp: planned_def\<close>)
  show "memory_allow mk oor m t k l = Some (m, Inl (AtCapacity mk))"
    if "length m = mk \<and> state_key (algorithm l) k \<notin> fst ` set m"
    using that by (intro memory_allow_full) (simp_all add: map_of_eq_None_iff)
qed

text \<open>
  The backend never panics and every decision it makes is well-formed: for any requests, the
  calls all return, and each decision reports the limit's quota, a remainder between zero and it,
  and nothing remaining when it denies.
\<close>

theorem memory_total_and_well_formed:
  assumes "\<forall>(t, j, l) \<in> set rs. plan j = l \<and> serves l"
  shows "\<exists>m as. allow_all (memory_allow mk oor) new_memory_limiter rs = Some (m, as) \<and>
    length as = length rs \<and>
    (\<forall>i < length rs. case as ! i of
       Inl e \<Rightarrow> e = AtCapacity mk
     | Inr d \<Rightarrow> decision_ok (limit_quota (snd (snd (rs ! i)))) d)"
proof -
  have P: "\<forall>(t, j, l) \<in> set rs. planned plan t j l" using assms by (auto simp: planned_def)
  obtain m as where r: "allow_all (memory_allow mk oor) new_memory_limiter rs = Some (m, as)"
    using ml.all_return [where mk = mk and oor = oor, OF memory_inv_new P] by auto
  have "case as ! i of Inl e \<Rightarrow> e = AtCapacity mk
     | Inr d \<Rightarrow> decision_ok (limit_quota (snd (snd (rs ! i)))) d" if i: "i < length rs" for i
  proof (cases "as ! i")
    case (Inl e)
    then show ?thesis using only_capacity_errors [OF P r, of e] i allow_all_length [OF r] nth_mem [of i as] by auto
  next
    case (Inr d)
    obtain t k l where "rs ! i = (t, k, l)" by (cases "rs ! i") auto
    then show ?thesis using ml.all_decisions [OF memory_inv_new P r i Inr] Inr by simp
  qed
  then show ?thesis using r allow_all_length [OF r] by blast
qed

text \<open>
  The sliding-window promise survives the sharing of the backend: whatever other keys ask in
  between, over any interval of one window's length a key has at most its rate granted.
\<close>

theorem memory_sliding_per_key:
  assumes "\<forall>(t, j, l) \<in> set rs. plan j = l \<and> serves l" and "serves_sliding (plan k)"
    and "\<forall>t \<in> set (asked k rs). sliding_coh c (plan k) t" and "sorted (map instant (asked k rs))"
    and "allow_all (memory_allow mk oor) new_memory_limiter rs = Some (m, as)"
  shows "int (length (filter (\<lambda>t. x < instant t \<and> instant t \<le> x + window (plan k))
      (granted (zip (asked k rs) (answers_for k rs as))))) \<le> rate (plan k)"
  by (rule sliding_shared_memory [OF assms])

section \<open>Witnesses\<close>

text \<open>Two routes of the example configuration, two clients, and a cap of two keys.\<close>

definition demo_plan :: "string \<Rightarrow> limit" where
  "demo_plan k = (if k = ''/auth:ip:::1'' then auth_limit else search_limit)"

definition demo_calls :: "(gotime \<times> string \<times> limit) list" where
  "demo_calls = map (\<lambda>(w, k). (process_time w, k, demo_plan k))
     [(100, ''/auth:ip:::1''), (200, ''/search:ip:::1''), (300, ''/search:ip:::2''), (400, ''/auth:ip:::1''),
      (500, ''/search:ip:::1''), (600, ''/search:ip:::2'')]"

lemma demo_serves [simp]: "serves (demo_plan k)"
  by (simp add: serves_def demo_plan_def auth_limit_serves search_limit_serves)

lemma demo_planned:
  "\<forall>(t, j, l) \<in> set demo_calls. demo_plan j = l \<and> serves l"
  "\<forall>(t, j, l) \<in> set demo_calls. planned demo_plan t j l"
  by (auto simp: demo_calls_def planned_def)

definition demo_result :: "memory \<times> answer list" where
  "demo_result = the (allow_all (memory_allow 2 no_range) new_memory_limiter demo_calls)"

lemma demo_returns:
  "allow_all (memory_allow 2 no_range) new_memory_limiter demo_calls = Some (fst demo_result, snd demo_result)"
  using ml.all_return [where mk = 2 and oor = no_range, OF memory_inv_new demo_planned(2)]
  by (auto simp: demo_result_def)

theorem memory_keys_isolated_witness:
  "set (answers_for ''/search:ip:::2'' demo_calls (snd demo_result)) \<subseteq> {Inl (AtCapacity 2)} \<or>
    (\<exists>ds b. run (bucket_step no_range) search_limit (SW sliding_window_fresh)
       [process_time 300, process_time 600] = Some (ds, b) \<and>
       answers_for ''/search:ip:::2'' demo_calls (snd demo_result) = map (\<lambda>(t, d). Inr d) ds)"
  using memory_keys_isolated [OF demo_planned(1) demo_serves demo_returns, of "''/search:ip:::2''"]
  by (simp add: demo_plan_def fresh_bucket_eq search_limit_serves demo_calls_def)

theorem memory_capacity_witness:
  "length (fst demo_result) = 2 \<and>
   memory_allow 2 no_range (fst demo_result) (process_time 700) ''/search:ip:::3'' search_limit
     = Some (fst demo_result, Inl (AtCapacity 2))"
proof -
  have "state_keys demo_calls = {''fixed_window:/auth:ip:::1'', ''sliding_window:/search:ip:::1'',
      ''sliding_window:/search:ip:::2''}"
    by (auto simp: state_keys_def demo_calls_def demo_plan_def state_key_def auth_limit_def
        search_limit_def algo_defs)
  then have l: "length (fst demo_result) = 2"
    using memory_capacity [OF demo_planned(1) demo_returns] by simp
  have "state_key (algorithm search_limit) ''/search:ip:::3'' \<notin> fst ` set (fst demo_result)"
    by code_simp
  with memory_capacity [OF demo_planned(1) demo_returns, of search_limit "''/search:ip:::3''" "process_time 700"] l
  show ?thesis by blast
qed

theorem memory_total_and_well_formed_witness:
  "\<exists>m as. allow_all (memory_allow 2 no_range) new_memory_limiter demo_calls = Some (m, as) \<and> length as = 6"
  using memory_total_and_well_formed [OF demo_planned(1), of 2 no_range] by (auto simp: demo_calls_def)

theorem memory_sliding_per_key_witness:
  "int (length (filter (\<lambda>t. 100 < instant t \<and> instant t \<le> 10000000100)
     (granted (zip (asked ''/search:ip:::1'' demo_calls)
        (answers_for ''/search:ip:::1'' demo_calls (snd demo_result)))))) \<le> 5"
proof -
  have "serves_sliding (demo_plan ''/search:ip:::1'')"
    "\<forall>t \<in> set (asked ''/search:ip:::1'' demo_calls). sliding_coh True (demo_plan ''/search:ip:::1'') t"
    "sorted (map instant (asked ''/search:ip:::1'' demo_calls))"
    by (simp_all add: demo_plan_def search_limit_serves demo_calls_def process_time_coh)
  from memory_sliding_per_key [OF demo_planned(1) this demo_returns, of 100]
  show ?thesis by (simp add: demo_plan_def)
qed

end
