(* ===== verification/Breaker.thy ===== *)
theory Breaker
  imports Limiter "HOL-Library.Multiset"
begin

text \<open>
  The circuit breaker in front of redis, \<open>internal/limiter/breaker.go\<close>: the two critical
  sections \<open>admit\<close> and \<open>record\<close>, their composition \<open>do\<close>, and the interleavings of many
  callers as a step relation whose state is the breaker and the calls in flight.
\<close>

section \<open>The code\<close>

datatype bstate = Closed | Open | HalfOpen

text \<open>The constants \<open>stateClosed\<close>, \<open>stateOpen\<close>, \<open>stateHalfOpen\<close>, which the gauge exports.\<close>

definition state_code :: "bstate \<Rightarrow> int" where
  "state_code s = (case s of Closed \<Rightarrow> 0 | Open \<Rightarrow> 1 | HalfOpen \<Rightarrow> 2)"

definition failure_threshold :: int where "failure_threshold = 5"

definition breaker_cooldown :: duration where "breaker_cooldown = second"

text \<open>\<open>gauge\<close> is the value last given to the \<open>Set\<close> of the hook.\<close>

record breaker =
  state :: bstate
  failures :: int
  opened_at :: gotime
  gauge :: int

definition set_state :: "bstate \<Rightarrow> breaker \<Rightarrow> breaker" where
  "set_state s b = b\<lparr>state := s, gauge := state_code s\<rparr>"

definition new_breaker :: breaker where
  "new_breaker = \<lparr>state = Closed, failures = 0, opened_at = zero_time, gauge = state_code Closed\<rparr>"

definition neutral :: "call_error \<Rightarrow> bool" where
  "neutral e \<longleftrightarrow> e = Canceled"

definition admit :: "gotime \<Rightarrow> breaker \<Rightarrow> breaker \<times> call_error option" where
  "admit now b =
     (case state b of
        Open \<Rightarrow>
          if time_sub now (opened_at b) < breaker_cooldown then (b, Some CircuitOpen)
          else (set_state HalfOpen b, None)
      | HalfOpen \<Rightarrow> (b, Some CircuitOpen)
      | Closed \<Rightarrow> (b, None))"

definition record_result :: "gotime \<Rightarrow> call_error option \<Rightarrow> breaker \<Rightarrow> breaker" where
  "record_result now r b =
     (case state b of
        Closed \<Rightarrow>
          (case r of
             None \<Rightarrow> b\<lparr>failures := 0\<rparr>
           | Some e \<Rightarrow>
               if neutral e then b
               else
                 (let b1 = b\<lparr>failures := wrap64 (failures b + 1)\<rparr>
                  in if failure_threshold \<le> failures b1
                     then (set_state Open b1)\<lparr>opened_at := now\<rparr>
                     else b1))
      | HalfOpen \<Rightarrow>
          (case r of
             None \<Rightarrow> (set_state Closed b)\<lparr>failures := 0\<rparr>
           | Some e \<Rightarrow>
               if neutral e then set_state Open b
               else (set_state Open b)\<lparr>opened_at := now\<rparr>)
      | Open \<Rightarrow> b)"

definition call_error_of :: "call_error + 'a \<Rightarrow> call_error option" where
  "call_error_of r = (case r of Inl e \<Rightarrow> Some e | Inr x \<Rightarrow> None)"

text \<open>\<open>do\<close>: \<open>t\<close> and \<open>u\<close> are the clock's readings in \<open>admit\<close> and \<open>record\<close>, \<open>r\<close> what the
  supervised call returns if it is made.\<close>

definition breaker_do :: "gotime \<Rightarrow> gotime \<Rightarrow> call_error + 'a \<Rightarrow> breaker \<Rightarrow> breaker \<times> (call_error + 'a)" where
  "breaker_do t u r b =
     (case admit t b of
        (b1, Some e) \<Rightarrow> (b1, Inl e)
      | (b1, None) \<Rightarrow> (record_result u (call_error_of r) b1, r))"

text \<open>The states are ordered by the values the gauge exports, which is what an alert compares.\<close>

instantiation bstate :: linorder
begin

definition less_eq_bstate :: "bstate \<Rightarrow> bstate \<Rightarrow> bool" where
  "less_eq_bstate s s' \<longleftrightarrow> state_code s \<le> state_code s'"

definition less_bstate :: "bstate \<Rightarrow> bstate \<Rightarrow> bool" where
  "less_bstate s s' \<longleftrightarrow> state_code s < state_code s'"

instance
  by standard (auto simp: less_eq_bstate_def less_bstate_def state_code_def split: bstate.splits)

end

text \<open>\<open>admit\<close> only goes up, and the verdict on a probe only down.\<close>

lemma admit_raises: "state b \<le> state (fst (admit t b))"
  by (auto simp: admit_def less_eq_bstate_def set_state_def state_code_def split: bstate.split)

lemma probe_lowers: "state b = HalfOpen \<Longrightarrow> state (record_result t r b) < HalfOpen"
  by (auto simp: record_result_def less_bstate_def set_state_def state_code_def split: option.split)

lemma first_failures_raise: "state b = Closed \<Longrightarrow> state b \<le> state (record_result t r b)"
  by (auto simp: record_result_def Let_def less_eq_bstate_def set_state_def state_code_def split: option.split)

section \<open>The sequential invariant\<close>

definition breaker_inv :: "breaker \<Rightarrow> bool" where
  "breaker_inv b \<longleftrightarrow>
     gauge b = state_code (state b) \<and> 0 \<le> failures b \<and> failures b \<le> failure_threshold \<and>
     (state b = Closed \<longrightarrow> failures b < failure_threshold)"

lemma set_state_simps [simp]:
  "state (set_state s b) = s" "gauge (set_state s b) = state_code s"
  "failures (set_state s b) = failures b" "opened_at (set_state s b) = opened_at b"
  by (simp_all add: set_state_def)

lemma new_breaker_simps [simp]:
  "state new_breaker = Closed" "failures new_breaker = 0" "gauge new_breaker = 0"
  by (simp_all add: new_breaker_def state_code_def)

lemma breaker_inv_new: "breaker_inv new_breaker"
  by (simp add: breaker_inv_def state_code_def failure_threshold_def)

lemma failures_wrap: "breaker_inv b \<Longrightarrow> wrap64 (failures b + 1) = failures b + 1"
  by (intro wrap64_id) (auto simp: breaker_inv_def failure_threshold_def in_int64_def int64_min_def int64_max_def)

lemma admit_inv: "breaker_inv b \<Longrightarrow> admit t b = (b', r) \<Longrightarrow> breaker_inv b'"
  by (auto simp: admit_def breaker_inv_def split: bstate.splits if_splits)

lemma record_inv: "breaker_inv b \<Longrightarrow> breaker_inv (record_result t r b)"
  using failures_wrap [of b]
  by (auto simp: record_result_def breaker_inv_def Let_def failure_threshold_def split: bstate.splits option.splits)

lemma admit_cases:
  obtains (closed) "state b = Closed" "admit t b = (b, None)"
  | (waiting) "state b = Open" "time_sub t (opened_at b) < breaker_cooldown" "admit t b = (b, Some CircuitOpen)"
  | (probe) "state b = Open" "breaker_cooldown \<le> time_sub t (opened_at b)" "admit t b = (set_state HalfOpen b, None)"
  | (probing) "state b = HalfOpen" "admit t b = (b, Some CircuitOpen)"
  by (cases "state b"; cases "time_sub t (opened_at b) < breaker_cooldown") (auto simp: admit_def not_less)

text \<open>What the limiter in front of redis relies on.\<close>

locale guard =
  fixes supervise :: "gotime \<Rightarrow> gotime \<Rightarrow> call_error + 'a \<Rightarrow> 'b \<Rightarrow> 'b \<times> (call_error + 'a)"
    and inv :: "'b \<Rightarrow> bool"
  assumes supervise_inv: "inv b \<Longrightarrow> supervise t u r b = (b', q) \<Longrightarrow> inv b'"
    and supervise_result: "supervise t u r b = (b', q) \<Longrightarrow> q = r \<or> q = Inl CircuitOpen"
begin

lemma not_invented: "supervise t u r b = (b', Inr x) \<Longrightarrow> r = Inr x"
  using supervise_result by fastforce

lemma neutral_is_own: "supervise t u r b = (b', Inl e) \<Longrightarrow> neutral e \<Longrightarrow> r = Inl e"
  using supervise_result by (fastforce simp: neutral_def)

end

interpretation bg: guard breaker_do breaker_inv
proof
  fix t u and r :: "call_error + 'a" and b b' q
  assume "breaker_do t u r b = (b', q)"
  then show "q = r \<or> q = Inl CircuitOpen"
    by (rule_tac admit_cases [where t = t and b = b]) (auto simp: breaker_do_def)
next
  fix t u and r :: "call_error + 'a" and b b' q
  assume "breaker_inv b" and "breaker_do t u r b = (b', q)"
  then show "breaker_inv b'"
    using admit_inv [of b t] record_inv by (auto simp: breaker_do_def split: prod.splits option.splits)
qed

section \<open>Counting consecutive failures\<close>

text \<open>
  The specification of the closed state: of the results so far, neutral ones left out, the
  failures since the last success.
\<close>

definition consecutive :: "call_error option list \<Rightarrow> nat" where
  "consecutive rs = length (takeWhile (\<lambda>r. r \<noteq> None) (rev (filter (\<lambda>r. r \<noteq> Some Canceled) rs)))"

lemma consecutive_snoc:
  "consecutive (rs @ [r]) =
     (if r = Some Canceled then consecutive rs else if r = None then 0 else Suc (consecutive rs))"
  by (auto simp: consecutive_def)

definition record_all :: "(gotime \<times> call_error option) list \<Rightarrow> breaker \<Rightarrow> breaker" where
  "record_all rs b = fold (\<lambda>(t, r). record_result t r) rs b"

definition trips :: "call_error option list \<Rightarrow> bool" where
  "trips rs \<longleftrightarrow> (\<exists>n \<le> length rs. failure_threshold \<le> int (consecutive (take n rs)))"

lemma trips_snoc: "trips (rs @ [r]) \<longleftrightarrow> trips rs \<or> failure_threshold \<le> int (consecutive (rs @ [r]))"
  by (auto simp: trips_def le_Suc_eq)

lemma record_all_closed:
  "(state (record_all rs new_breaker) = Closed \<longleftrightarrow> \<not> trips (map snd rs)) \<and>
   (state (record_all rs new_breaker) \<noteq> Closed \<longrightarrow> state (record_all rs new_breaker) = Open) \<and>
   (\<not> trips (map snd rs) \<longrightarrow> failures (record_all rs new_breaker) = int (consecutive (map snd rs))) \<and>
   breaker_inv (record_all rs new_breaker)"
proof (induction rs rule: rev_induct)
  case Nil
  show ?case by (simp add: record_all_def trips_def consecutive_def failure_threshold_def breaker_inv_new)
next
  case (snoc x rs)
  obtain t r where x: "x = (t, r)" by (cases x) auto
  let ?b = "record_all rs new_breaker"
  have e: "record_all (rs @ [x]) new_breaker = record_result t r ?b" by (simp add: record_all_def x)
  have i: "breaker_inv ?b" and i': "breaker_inv (record_result t r ?b)" using snoc record_inv by blast+
  show ?case
  proof (cases "trips (map snd rs)")
    case True
    then have "state ?b = Open" using snoc by blast
    then have "record_result t r ?b = ?b" by (simp add: record_result_def)
    moreover have "trips (map snd (rs @ [x]))" using True by (simp add: trips_snoc)
    ultimately show ?thesis using True snoc e by simp
  next
    case False
    then have c: "state ?b = Closed" and f: "failures ?b = int (consecutive (map snd rs))"
      using snoc by blast+
    have lt: "int (consecutive (map snd rs)) < failure_threshold"
      using i c f by (simp add: breaker_inv_def)
    have t: "trips (map snd (rs @ [x])) \<longleftrightarrow> failure_threshold \<le> int (consecutive (map snd rs @ [r]))"
      using False by (simp add: trips_snoc x)
    show ?thesis
      unfolding e t using c f lt failures_wrap [OF i] i'
      by (auto simp: record_result_def consecutive_snoc neutral_def Let_def x failure_threshold_def
          split: option.splits)
  qed
qed

section \<open>Callers in flight\<close>

text \<open>
  A caller that \<open>admit\<close> let through is in flight until its \<open>record\<close>; the flag tells whether it
  was let through as the probe of an open circuit. Steps of different callers interleave freely.
\<close>

type_synonym calls = "breaker \<times> bool multiset"

datatype event = Admitted gotime bool | Rejected gotime | Finished gotime bool "call_error option"

inductive call_step :: "calls \<Rightarrow> event \<Rightarrow> calls \<Rightarrow> bool" where
  admitted: "admit t b = (b', None) \<Longrightarrow>
    call_step (b, F) (Admitted t (state b = Open)) (b', add_mset (state b = Open) F)"
| rejected: "admit t b = (b', Some e) \<Longrightarrow> call_step (b, F) (Rejected t) (b', F)"
| finished: "p \<in># F \<Longrightarrow> call_step (b, F) (Finished t p r) (record_result t r b, F - {#p#})"

inductive_cases call_stepE: "call_step (b, F) e s"

inductive call_steps :: "calls \<Rightarrow> event list \<Rightarrow> calls \<Rightarrow> bool" where
  none: "call_steps s [] s"
| more: "call_step s e s' \<Longrightarrow> call_steps s' es s'' \<Longrightarrow> call_steps s (e # es) s''"

inductive_cases call_steps_ConsE: "call_steps s (e # es) s''"

definition idle :: calls where "idle = (new_breaker, {#})"

text \<open>In a half-open circuit the probe that made it so is still in flight.\<close>

definition calls_inv :: "calls \<Rightarrow> bool" where
  "calls_inv s \<longleftrightarrow> breaker_inv (fst s) \<and> (state (fst s) = HalfOpen \<longrightarrow> True \<in># snd s)"

lemma record_leaves_half_open: "state (record_result t r b) \<noteq> HalfOpen"
  by (auto simp: record_result_def Let_def split: bstate.splits option.splits)

lemma call_step_inv: "call_step s e s' \<Longrightarrow> calls_inv s \<Longrightarrow> calls_inv s'"
proof (induction rule: call_step.induct)
  case (admitted t b b' F)
  then show ?case
    using admit_inv [of b t]
    by (rule_tac admit_cases [where t = t and b = b]) (auto simp: calls_inv_def)
next
  case (rejected t b b' e F)
  then show ?case by (rule_tac admit_cases [where t = t and b = b]) (auto simp: calls_inv_def)
next
  case (finished p F b t r)
  then show ?case by (simp add: calls_inv_def record_inv record_leaves_half_open)
qed

lemma call_steps_inv: "call_steps s es s' \<Longrightarrow> calls_inv s \<Longrightarrow> calls_inv s'"
  by (induction rule: call_steps.induct) (auto intro: call_step_inv)

lemma idle_inv: "calls_inv idle"
  by (simp add: calls_inv_def idle_def breaker_inv_new)

section \<open>An outage\<close>

fun time_of :: "event \<Rightarrow> gotime" where
  "time_of (Admitted t p) = t"
| "time_of (Rejected t) = t"
| "time_of (Finished t p r) = t"

fun admissions :: "event list \<Rightarrow> gotime list" where
  "admissions [] = []"
| "admissions (Admitted t p # es) = t # admissions es"
| "admissions (Rejected t # es) = admissions es"
| "admissions (Finished t p r # es) = admissions es"

text \<open>Every call that finishes finds redis down; nobody hangs up.\<close>

definition all_fail :: "event list \<Rightarrow> bool" where
  "all_fail es \<longleftrightarrow> (\<forall>t p r. Finished t p r \<in> set es \<longrightarrow> r \<noteq> None \<and> r \<noteq> Some Canceled)"

definition spaced :: "gotime list \<Rightarrow> bool" where
  "spaced ts \<longleftrightarrow> sorted_wrt (\<lambda>t u. instant t + breaker_cooldown \<le> instant u) ts"

lemma all_fail_Cons [simp]:
  "all_fail (e # es) \<longleftrightarrow> (\<forall>t p r. e = Finished t p r \<longrightarrow> r \<noteq> None \<and> r \<noteq> Some Canceled) \<and> all_fail es"
  unfolding all_fail_def set_simps insert_iff by metis

lemma cooldown_over:
  assumes "same_clock c t" and "same_clock c u" and "breaker_cooldown \<le> time_sub t u"
  shows "instant u + breaker_cooldown \<le> instant t"
  using assms by (auto simp: time_sub_instant sat64_def breaker_cooldown_def second_def int64_min_def
      int64_max_def split: if_splits)

lemma outage:
  assumes "call_steps (b, F) es s'" and "state b \<noteq> Closed" and "all_fail es"
    and "\<forall>e \<in> set es. same_clock c (time_of e) \<and> y \<le> instant (time_of e)"
    and "sorted (map (\<lambda>e. instant (time_of e)) es)"
    and "state b = Open \<Longrightarrow> same_clock c (opened_at b) \<and> y \<le> instant (opened_at b)"
  shows "spaced (admissions es) \<and> (\<forall>t \<in> set (admissions es). y + breaker_cooldown \<le> instant t)"
  using assms
proof (induction es arbitrary: b F y)
  case Nil
  then show ?case by (simp add: spaced_def)
next
  case (Cons e es)
  obtain b1 F1 where s: "call_step (b, F) e (b1, F1)" and r: "call_steps (b1, F1) es s'"
    using Cons.prems(1) by (auto elim: call_steps_ConsE)
  have t: "same_clock c (time_of e)" "y \<le> instant (time_of e)"
    and later: "\<forall>f \<in> set es. same_clock c (time_of f) \<and> instant (time_of e) \<le> instant (time_of f)"
    using Cons.prems(4,5) by auto
  have so: "sorted (map (\<lambda>e. instant (time_of e)) es)" using Cons.prems(5) by simp
  have af: "all_fail es" using Cons.prems(3) by simp
  from s show ?case
  proof (cases rule: call_step.cases)
    case (admitted t)
    then have o: "state b = Open" "breaker_cooldown \<le> time_sub t (opened_at b)" "b1 = set_state HalfOpen b"
      using Cons.prems(2) by (rule_tac admit_cases [where t = t and b = b]; auto)+
    have sp: "y + breaker_cooldown \<le> instant t"
      using cooldown_over [OF _ _ o(2), of c] Cons.prems(6) [OF o(1)] t(1) admitted(1) by simp
    have "spaced (admissions es) \<and> (\<forall>u \<in> set (admissions es). instant t + breaker_cooldown \<le> instant u)"
      by (rule Cons.IH [OF r _ af _ so]) (use o later admitted(1) in auto)
    moreover have "0 \<le> breaker_cooldown" by (simp add: breaker_cooldown_def second_def)
    ultimately show ?thesis using sp admitted(1) by (fastforce simp: spaced_def)
  next
    case (rejected t e')
    then have b1: "b1 = b"
      by (rule_tac admit_cases [where t = t and b = b]) auto
    have "spaced (admissions es) \<and> (\<forall>u \<in> set (admissions es). y + breaker_cooldown \<le> instant u)"
      by (rule Cons.IH [OF r _ af _ so]) (use Cons.prems(2,6) later t b1 in auto)
    then show ?thesis using rejected by simp
  next
    case (finished p t q)
    then have q: "q \<noteq> None" "q \<noteq> Some Canceled" using Cons.prems(3) by auto
    have b1: "state b1 = Open" "opened_at b1 = (if state b = Open then opened_at b else t)"
      using q Cons.prems(2) finished
      by (auto simp: record_result_def neutral_def split: bstate.splits option.splits)
    have "spaced (admissions es) \<and> (\<forall>u \<in> set (admissions es). y + breaker_cooldown \<le> instant u)"
      by (rule Cons.IH [OF r _ af _ so]) (use Cons.prems(6) later t b1 finished in auto)
    then show ?thesis using finished by simp
  qed
qed

lemma call_steps_append:
  "call_steps s es s' \<Longrightarrow> call_steps s' fs s'' \<Longrightarrow> call_steps s (es @ fs) s''"
  by (induction rule: call_steps.induct) (auto intro: call_steps.more)

section \<open>Two ways a stale call decides\<close>

definition clock_at :: "int \<Rightarrow> gotime" where
  "clock_at w = \<lparr>wall = w * second, mono = None\<rparr>"

text \<open>Six callers enter a closed circuit and five of them fail; a second later a probe is let in.\<close>

definition slow_sixth :: "event list" where
  "slow_sixth = replicate 6 (Admitted (clock_at 1) False)
     @ replicate 5 (Finished (clock_at 2) False (Some (CallFailed ''i/o timeout'')))
     @ [Admitted (clock_at 3) True]"

definition half_open_at :: "gotime \<Rightarrow> breaker" where
  "half_open_at t = \<lparr>state = HalfOpen, failures = 5, opened_at = t, gauge = 2\<rparr>"

lemma admitted_closed:
  "state b = Closed \<Longrightarrow> call_steps (b, F + replicate_mset n False) es s \<Longrightarrow>
     call_steps (b, F) (replicate n (Admitted t False) @ es) s"
proof (induction n arbitrary: F)
  case (Suc n)
  have "call_step (b, F) (Admitted t (state b = Open)) (b, add_mset (state b = Open) F)"
    by (rule call_step.admitted) (simp add: admit_def Suc.prems(1))
  then show ?case using Suc.IH [of "add_mset False F"] Suc.prems
    by (auto intro!: call_steps.more)
qed simp

lemma slow_sixth_runs:
  "call_steps idle slow_sixth (half_open_at (clock_at 2), {#False, True#})"
proof -
  let ?f = "Finished (clock_at 2) False (Some (CallFailed ''i/o timeout''))"
  let ?r = "record_result (clock_at 2) (Some (CallFailed ''i/o timeout''))"
  have step: "call_steps (b, add_mset False F) (?f # es) s" if "call_steps (?r b, F) es s" for b F es s
    by (rule call_steps.more [OF _ that]) (use call_step.finished [of False "add_mset False F" b] in simp)
  have open5: "?r (?r (?r (?r (?r new_breaker)))) = \<lparr>state = Open, failures = 5, opened_at = clock_at 2, gauge = 1\<rparr>"
    by code_simp
  have "call_step (\<lparr>state = Open, failures = 5, opened_at = clock_at 2, gauge = 1\<rparr>, {#False#})
      (Admitted (clock_at 3) True) (half_open_at (clock_at 2), {#False, True#})"
    using call_step.admitted [of "clock_at 3" "\<lparr>state = Open, failures = 5, opened_at = clock_at 2, gauge = 1\<rparr>"
        "half_open_at (clock_at 2)" "{#False#}"]
    by (simp add: admit_def time_sub_def clock_at_def second_def sat64_def int64_min_def int64_max_def
        breaker_cooldown_def set_state_def state_code_def half_open_at_def add_mset_commute)
  then have "call_steps (?r (?r (?r (?r (?r new_breaker)))), {#False#}) [Admitted (clock_at 3) True]
      (half_open_at (clock_at 2), {#False, True#})"
    unfolding open5 by (blast intro: call_steps.intros)
  then have "call_steps (new_breaker, {#} + replicate_mset 6 False) (replicate 5 ?f @ [Admitted (clock_at 3) True])
      (half_open_at (clock_at 2), {#False, True#})"
    by (simp add: numeral_eq_Suc step)
  then show ?thesis
    unfolding slow_sixth_def idle_def by (intro admitted_closed) simp_all
qed

lemma finish_stale:
  "call_step (b, {#False, True#}) (Finished t False r) (record_result t r b, {#True#})"
  using call_step.finished [of False "{#False, True#}" b t r] by simp

section \<open>Properties\<close>

text \<open>
  C10. While redis is down and the circuit has opened, it is touched at most once per cooldown. In the
  closed state every call is let through, so an outage first costs the failures that open the circuit
  and the calls in flight beside them; after any history that leaves the circuit open, as long as every call that finishes fails, however the callers interleave, any
  two calls let through are at least a cooldown apart, and the first one at least a cooldown after
  the circuit opened.
\<close>

theorem breaker_outage_cost:
  assumes "call_steps idle hist (b, F)" and "state b = Open" and "call_steps (b, F) es s" and "all_fail es"
    and "\<forall>e \<in> set es. same_clock c (time_of e) \<and> instant (opened_at b) \<le> instant (time_of e)"
    and "sorted (map (\<lambda>e. instant (time_of e)) es)" and "same_clock c (opened_at b)"
  shows "sorted_wrt (\<lambda>t u. instant t + breaker_cooldown \<le> instant u) (admissions es) \<and>
    (\<forall>t \<in> set (admissions es). instant (opened_at b) + breaker_cooldown \<le> instant t)"
  using outage [OF assms(3) _ assms(4,5,6)] assms(2,7) by (simp add: spaced_def)

text \<open>
  C21. The closed state counts what its comments say: fed any results, a new breaker opens exactly
  when the failures since the last success, hang-ups left out, have reached the threshold, and
  while it is closed its counter is that number.
\<close>

theorem breaker_opens_on_consecutive_failures:
  "state (record_all rs new_breaker) =
     (if \<exists>n \<le> length rs. failure_threshold \<le> int (consecutive (take n (map snd rs))) then Open else Closed) \<and>
   (state (record_all rs new_breaker) = Closed \<longrightarrow>
     failures (record_all rs new_breaker) = int (consecutive (map snd rs)))"
  using record_all_closed [of rs] by (auto simp: trips_def)

text \<open>
  In every reachable state, whatever the interleaving: the exported gauge is the state's code,
  the counter is between zero and the threshold and below it while closed, and a half-open circuit
  has its probe in flight.
\<close>

theorem breaker_reachable_states:
  assumes "call_steps idle es (b, F)"
  shows "gauge b = state_code (state b) \<and> 0 \<le> failures b \<and> failures b \<le> failure_threshold \<and>
    (state b = Closed \<longrightarrow> failures b < failure_threshold) \<and> (state b = HalfOpen \<longrightarrow> True \<in># F)"
  using call_steps_inv [OF assms idle_inv] by (simp add: calls_inv_def breaker_inv_def)

text \<open>
  C22. The breaker cannot wedge: after any history, once no call is in flight and the cooldown is
  over, the next call is let through to redis, and if redis answers it the circuit is closed.
\<close>

theorem breaker_recovers:
  assumes "call_steps idle es (b, {#})" and "breaker_cooldown \<le> time_sub t (opened_at b)"
  shows "snd (breaker_do t u (Inr x) b) = Inr x \<and> state (fst (breaker_do t u (Inr x) b)) = Closed"
proof -
  have "state b \<noteq> HalfOpen" using call_steps_inv [OF assms(1) idle_inv] by (auto simp: calls_inv_def)
  then show ?thesis
    using assms(2)
    by (rule_tac admit_cases [where t = t and b = b])
      (auto simp: breaker_do_def record_result_def call_error_of_def)
qed

text \<open>
  C35. "Exactly one probe whose outcome picks the next state" does not hold under concurrency:
  there is a reachable half-open state with the probe in flight beside a call that was admitted before
  the circuit opened, and the result of that stale call picks the next state while the probe is still
  in flight: its success closes the circuit, its failure opens it anew with a fresh cooldown, after
  which a second probe is let in beside the first.
\<close>

theorem breaker_stale_verdict_in_half_open:
  "\<exists>es b. call_steps idle es (b, {#False, True#}) \<and> state b = HalfOpen \<and>
     (\<exists>b1. call_step (b, {#False, True#}) (Finished (clock_at 4) False None) (b1, {#True#}) \<and> state b1 = Closed) \<and>
     (\<exists>b2. call_step (b, {#False, True#}) (Finished (clock_at 4) False (Some (CallFailed ''EOF''))) (b2, {#True#}) \<and>
       state b2 = Open \<and> opened_at b \<noteq> clock_at 4 \<and> opened_at b2 = clock_at 4 \<and>
       (\<exists>b3. call_step (b2, {#True#}) (Admitted (clock_at 5) True) (b3, {#True, True#}) \<and> state b3 = HalfOpen))"
proof -
  let ?b = "half_open_at (clock_at 2)"
  let ?b2 = "record_result (clock_at 4) (Some (CallFailed ''EOF'')) ?b"
  have closed: "state (record_result (clock_at 4) None ?b) = Closed"
    by (simp add: record_result_def half_open_at_def)
  have opened: "state ?b2 = Open \<and> opened_at ?b \<noteq> clock_at 4 \<and> opened_at ?b2 = clock_at 4" by code_simp
  have "call_step (?b2, {#True#}) (Admitted (clock_at 5) (state ?b2 = Open))
      (half_open_at (clock_at 4), add_mset (state ?b2 = Open) {#True#})"
    by (rule call_step.admitted) code_simp
  then have probe: "call_step (?b2, {#True#}) (Admitted (clock_at 5) True) (half_open_at (clock_at 4), {#True, True#})"
    using opened by simp
  have half: "state (half_open_at t) = HalfOpen" for t by (simp add: half_open_at_def)
  show ?thesis
    using slow_sixth_runs half finish_stale closed opened probe by blast
qed

section \<open>Witnesses\<close>

definition down :: "call_error option" where "down = Some (CallFailed ''i/o timeout'')"

definition open_at :: "gotime \<Rightarrow> breaker" where
  "open_at t = \<lparr>state = Open, failures = 5, opened_at = t, gauge = 1\<rparr>"

lemma reopened: "call_steps idle (slow_sixth @ [Finished (clock_at 4) False down]) (open_at (clock_at 4), {#True#})"
proof -
  have "record_result (clock_at 4) down (half_open_at (clock_at 2)) = open_at (clock_at 4)" by code_simp
  then show ?thesis
    using finish_stale [of "half_open_at (clock_at 2)" "clock_at 4" down]
    by (intro call_steps_append [OF slow_sixth_runs]) (auto intro: call_steps.intros)
qed

definition two_probes :: "event list" where
  "two_probes = [Admitted (clock_at 5) True, Finished (clock_at 6) True down, Admitted (clock_at 7) True]"

lemma probe_step:
  assumes "u = t + 1"
  shows "call_step (open_at (clock_at t), F) (Admitted (clock_at u) True) (half_open_at (clock_at t), add_mset True F)"
  using call_step.admitted [of "clock_at u" "open_at (clock_at t)" "half_open_at (clock_at t)" F] assms
  by (simp add: admit_def time_sub_def clock_at_def second_def sat64_def int64_min_def int64_max_def
      breaker_cooldown_def set_state_def state_code_def half_open_at_def open_at_def)

lemma two_probes_run: "call_steps (open_at (clock_at 4), {#True#}) two_probes (half_open_at (clock_at 6), {#True, True#})"
proof -
  have e: "record_result (clock_at 6) down (half_open_at (clock_at 4)) = open_at (clock_at 6)" by code_simp
  have "call_step (half_open_at (clock_at 4), {#True, True#}) (Finished (clock_at 6) True down)
      (open_at (clock_at 6), {#True#})"
    using call_step.finished [of True "{#True, True#}" "half_open_at (clock_at 4)" "clock_at 6" down] by (simp add: e)
  then show ?thesis
    unfolding two_probes_def
    by (auto intro!: call_steps.intros probe_step intro: call_steps.more [rotated])
qed

theorem breaker_outage_cost_witness:
  "sorted_wrt (\<lambda>t u. instant t + breaker_cooldown \<le> instant u) [clock_at 5, clock_at 7]"
  using breaker_outage_cost [OF reopened _ two_probes_run, of False]
  by (simp add: open_at_def two_probes_def all_fail_def same_clock_def clock_at_def instant_def
      second_def down_def)

definition blips :: "(gotime \<times> call_error option) list" where
  "blips = [(clock_at 1, down), (clock_at 2, down), (clock_at 3, None), (clock_at 4, down),
     (clock_at 5, Some Canceled), (clock_at 6, down), (clock_at 7, down)]"

theorem breaker_opens_on_consecutive_failures_witness:
  "failures (record_all blips new_breaker) = 3"
proof -
  have "state (record_all blips new_breaker) = Closed" by code_simp
  with breaker_opens_on_consecutive_failures [of blips]
  have "failures (record_all blips new_breaker) = int (consecutive (map snd blips))" by blast
  also have "\<dots> = 3" by code_simp
  finally show ?thesis .
qed

theorem breaker_reachable_states_witness:
  "gauge (half_open_at (clock_at 2)) = 2"
  using breaker_reachable_states [OF slow_sixth_runs]
  by (simp add: half_open_at_def state_code_def)

lemma all_finished:
  "call_steps idle (slow_sixth @ [Finished (clock_at 4) False down, Finished (clock_at 5) True down])
     (open_at (clock_at 4), {#})"
proof -
  have "record_result (clock_at 5) down (open_at (clock_at 4)) = open_at (clock_at 4)" by code_simp
  then have "call_steps (open_at (clock_at 4), {#True#}) [Finished (clock_at 5) True down] (open_at (clock_at 4), {#})"
    using call_step.finished [of True "{#True#}" "open_at (clock_at 4)" "clock_at 5" down]
    by (auto intro: call_steps.intros)
  from call_steps_append [OF reopened this] show ?thesis by simp
qed

theorem breaker_recovers_witness:
  "state (fst (breaker_do (clock_at 5) (clock_at 6) (Inr ()) (open_at (clock_at 4)))) = Closed"
proof -
  have "breaker_cooldown \<le> time_sub (clock_at 5) (opened_at (open_at (clock_at 4)))" by code_simp
  from breaker_recovers [OF all_finished this, of "clock_at 6" "()"] show ?thesis by simp
qed

end
