(* ===== verification/Scripts.thy ===== *)
theory Scripts
  imports Limiter Token_Bucket
begin

text \<open>
  The check-and-consume scripts redis runs, \<open>internal/limiter/scripts/*.lua\<close>: each one atomic
  on the server, so the calls of all gateway instances on one key are one sequence. The state of a
  key is what the script stored and the millisecond at which the key expires; \<open>now\<close> is the
  server's \<open>TIME\<close> in microseconds, which may step backwards. A script does not find a key whose
  expiry its clock has passed, setting an expiry that is not in the future deletes the key, and in
  between the server's active expiry deletes the expired keys it samples: such a key does not come
  back when the clock steps back.

  Lua's numbers are doubles. The two window scripts only add, subtract, compare and divide whole
  numbers, exactly as long as these stay below \<open>2 ^ 53\<close> (in microseconds, 285 years), so
  they are modelled on integers; the token script is modelled on doubles.
\<close>

section \<open>The server\<close>

type_synonym 'v entry = "('v \<times> int) option"

definition live :: "int \<Rightarrow> 'v entry \<Rightarrow> 'v option" where
  "live now e =
     (case e of None \<Rightarrow> None | Some (v, px) \<Rightarrow> if px < now div 1000 then None else Some v)"

definition pexpireat :: "int \<Rightarrow> int \<Rightarrow> 'v \<Rightarrow> 'v entry" where
  "pexpireat now px v = (if px \<le> now div 1000 then None else Some (v, px))"

definition pexpire :: "int \<Rightarrow> int \<Rightarrow> 'v \<Rightarrow> 'v entry" where
  "pexpire now ttl v = pexpireat now (now div 1000 + ttl) v"

text \<open>
  What the active expiry did to the key since the last script: the last reading of the server's clock
  at which it looked at the key, if it did, and the true time of that, which no program sees. Of
  several looks at one key only the one with the latest reading matters.
\<close>

type_synonym sweep = "(int \<times> int) option"

definition swept :: "sweep \<Rightarrow> 'v entry \<Rightarrow> 'v entry" where
  "swept sw e =
     (case sw of None \<Rightarrow> e
      | Some (t, y) \<Rightarrow> (case live t e of None \<Rightarrow> None | Some v \<Rightarrow> e))"

lemma swept_cases: "swept sw e = e \<or> swept sw e = None"
  by (simp add: swept_def split: option.split prod.split)

lemma swept_None [simp]: "swept None e = e" "swept sw None = None"
  by (simp_all add: swept_def live_def split: option.split prod.split)

text \<open>\<open>math.ceil(x / 1000)\<close>.\<close>

definition ceil_ms :: "int \<Rightarrow> int" where
  "ceil_ms x = - ((- x) div 1000)"

type_synonym reply = "int list"
type_synonym 'v script = "int \<Rightarrow> 'v entry \<Rightarrow> reply \<times> 'v entry"

text \<open>A script at its turn: the sweep before it, and the reading it gets from \<open>TIME\<close>.\<close>

type_synonym visit = "sweep \<times> int"

definition visit_key :: "'v script \<Rightarrow> visit \<Rightarrow> 'v entry \<Rightarrow> reply \<times> 'v entry" where
  "visit_key f vis e = f (snd vis) (swept (fst vis) e)"

section \<open>fixed\_window.lua\<close>

record window_hash =
  ws_field :: int
  count_field :: int

definition fixed_window_script :: "int \<Rightarrow> int \<Rightarrow> window_hash script" where
  "fixed_window_script rat win now e =
     (let ws0 = now - now mod win;
          (ws, cnt) = (case live now e of
                         Some st \<Rightarrow> if ws0 \<le> ws_field st then (ws_field st, count_field st) else (ws0, 0)
                       | None \<Rightarrow> (ws0, 0));
          ok = cnt < rat;
          cnt' = (if ok then cnt + 1 else cnt);
          e' = (if ok then pexpireat now (ceil_ms (ws + win)) \<lparr>ws_field = ws, count_field = cnt'\<rparr>
                else map_option (\<lambda>v. (v, snd (the e))) (live now e));
          rem = rat - cnt';
          rst = ws + win
      in ([if ok then 1 else 0, if rem < 0 then 0 else rem, rst, if ok then 0 else rst - now], e'))"

section \<open>sliding\_window.lua\<close>

text \<open>The sorted set, as its members with their scores. A member is the text of the time, a dash
  and the nonce; the time has digits only, so the pair of the two stands for it. Only the least and
  the greatest score are ever read, so the order of members of equal score plays no role.\<close>

type_synonym zset = "((int \<times> string) \<times> int) list"

definition sliding_window_script :: "int \<Rightarrow> int \<Rightarrow> string \<Rightarrow> zset script" where
  "sliding_window_script rat win nonce now e =
     (let z = (case live now e of None \<Rightarrow> [] | Some z \<Rightarrow> z);
          z1 = filter (\<lambda>(m, s). \<not> s \<le> now - win) z;
          cnt = int (length z1);
          ok = cnt < rat;
          z2 = (if ok then AList.update (now, nonce) now z1 else z1);
          cnt' = (if ok then cnt + 1 else cnt);
          e' = (if z2 = [] then None else pexpire now (ceil_ms win) z2);
          rem = rat - cnt';
          rst = (if z2 = [] then now else Max (snd ` set z2) + win);
          ret = (if ok \<or> z2 = [] then 0 else Min (snd ` set z2) + win - now)
      in ([if ok then 1 else 0, if rem < 0 then 0 else rem, rst, ret], e'))"

section \<open>token\_bucket.lua\<close>

record token_hash =
  tokens_field :: float64
  last_field :: int

text \<open>Both fields are stored as decimal strings that read back as the same double. The refill time, the
  key's lifetime in milliseconds and \<open>now + math.ceil(to_full)\<close> are doubles as well. The
  lifetime is handed to \<open>PEXPIRE\<close> as a text of seventeen digits, so it must stay below
  \<open>10 ^ 17\<close> milliseconds: a bucket that takes three million years to fill is not modelled
  (\<open>token_sized\<close>).\<close>

definition lua_refill :: "int \<Rightarrow> int \<Rightarrow> int \<Rightarrow> int \<Rightarrow> token_hash \<Rightarrow> token_hash" where
  "lua_refill bst rat win now st =
     (if last_field st < now then
        \<lparr>tokens_field = min (i2f bst)
           (fadd (tokens_field st) (fmul (i2f (now - last_field st)) (fdiv (i2f rat) (i2f win)))),
         last_field = now\<rparr>
      else st)"

definition lua_threshold :: float64 where
  "lua_threshold = fsub 1 (fl (1 / 10 ^ 9))"

definition token_bucket_script :: "int \<Rightarrow> int \<Rightarrow> int \<Rightarrow> token_hash script" where
  "token_bucket_script bst rat win now e =
     (let refill = fdiv (i2f rat) (i2f win);
          st0 = (case live now e of
                   Some st \<Rightarrow> st
                 | None \<Rightarrow> \<lparr>tokens_field = i2f bst, last_field = now\<rparr>);
          st1 = lua_refill bst rat win now st0;
          ok = lua_threshold \<le> tokens_field st1;
          tok = (if ok then max 0 (fsub (tokens_field st1) 1) else tokens_field st1);
          to_full = fdiv (fsub (i2f bst) tok) refill;
          ttl = \<lceil>fdiv to_full 1000\<rceil>;
          e' = pexpire now (if ttl < 1 then 1 else ttl) \<lparr>tokens_field = tok, last_field = last_field st1\<rparr>;
          ret = (if ok then 0 else \<lceil>fdiv (fsub 1 tok) refill\<rceil>)
      in ([if ok then 1 else 0, \<lfloor>tok\<rfloor>, \<lfloor>fadd (i2f now) (of_int \<lceil>to_full\<rceil>)\<rfloor>, ret], e'))"

section \<open>What a reply promises\<close>

definition reply_ok :: "int \<Rightarrow> reply \<Rightarrow> bool" where
  "reply_ok n r \<longleftrightarrow>
     (\<exists>rem rst ret. r = [1, rem, rst, ret] \<and> 0 \<le> rem \<and> rem < n \<and> ret = 0 \<or>
        r = [0, rem, rst, ret] \<and> rem = 0 \<and> 0 < n \<and> 0 \<le> ret)"

text \<open>
  The calls on one key, whichever instance makes them: each brings its arguments \<open>'p\<close> and finds
  the server at its visit.
\<close>

type_synonym 'v served = "visit \<Rightarrow> 'v entry \<Rightarrow> reply \<times> 'v entry"

fun script_run :: "('p \<Rightarrow> 'v served) \<Rightarrow> ('p \<times> visit) list \<Rightarrow> 'v entry \<Rightarrow> (visit \<times> reply) list \<times> 'v entry" where
  "script_run f [] e = ([], e)"
| "script_run f (c # cs) e =
     ((snd c, fst (f (fst c) (snd c) e)) # fst (script_run f cs (snd (f (fst c) (snd c) e))),
      snd (script_run f cs (snd (f (fst c) (snd c) e))))"

lemma script_run_append:
  "script_run f (cs @ ds) e =
     (fst (script_run f cs e) @ fst (script_run f ds (snd (script_run f cs e))),
      snd (script_run f ds (snd (script_run f cs e))))"
  by (induction f cs e rule: script_run.induct) auto

lemma script_run_times: "map fst (fst (script_run f cs e)) = map snd cs"
  by (induction f cs e rule: script_run.induct) auto

definition granted_at :: "(visit \<times> reply) list \<Rightarrow> visit list" where
  "granted_at rs = map fst (filter (\<lambda>(t, r). hd r = 1) rs)"

text \<open>\<open>'c\<close> is what the configuration fixes, \<open>'p\<close> what each call brings beside it.\<close>

locale script =
  fixes run_at :: "'c \<Rightarrow> 'p \<Rightarrow> 'v served"
    and ok :: "'c \<Rightarrow> bool"
    and inv :: "'c \<Rightarrow> 'v entry \<Rightarrow> bool"
    and quota_of :: "'c \<Rightarrow> int"
  assumes inv_fresh: "ok c \<Longrightarrow> inv c None"
    and inv_run: "ok c \<Longrightarrow> inv c e \<Longrightarrow> inv c (snd (run_at c p t e))"
    and reply: "ok c \<Longrightarrow> inv c e \<Longrightarrow> reply_ok (quota_of c) (fst (run_at c p t e))"
begin

lemma run_inv: "ok c \<Longrightarrow> inv c e \<Longrightarrow> inv c (snd (script_run (run_at c) cs e))"
  by (induction cs arbitrary: e) (simp_all add: inv_run)

lemma all_replies:
  "ok c \<Longrightarrow> inv c e \<Longrightarrow> (t, r) \<in> set (fst (script_run (run_at c) cs e)) \<Longrightarrow> reply_ok (quota_of c) r"
proof (induction cs arbitrary: e)
  case (Cons x cs)
  have "inv c (snd (run_at c (fst x) (snd x) e))" "reply_ok (quota_of c) (fst (run_at c (fst x) (snd x) e))"
    by (rule inv_run [OF Cons.prems(1,2)], rule reply [OF Cons.prems(1,2)])
  then show ?case using Cons.IH [OF Cons.prems(1)] Cons.prems(3) by auto
qed simp

end

section \<open>The fixed window, shared\<close>

definition fixed_entry_ok :: "int \<Rightarrow> int \<Rightarrow> window_hash entry \<Rightarrow> bool" where
  "fixed_entry_ok rat win e \<longleftrightarrow>
     (case e of None \<Rightarrow> True
      | Some (v, px) \<Rightarrow> 0 \<le> count_field v \<and> count_field v \<le> rat \<and> ws_field v mod win = 0 \<and>
          px = ceil_ms (ws_field v + win))"

text \<open>The window a call falls in, and how many it finds counted there.\<close>

definition seen :: "int \<Rightarrow> int \<Rightarrow> window_hash entry \<Rightarrow> int \<times> int" where
  "seen win now e =
     (case live now e of
        Some st \<Rightarrow> if now - now mod win \<le> ws_field st then (ws_field st, count_field st) else (now - now mod win, 0)
      | None \<Rightarrow> (now - now mod win, 0))"

lemma ceil_ms_after: "now < x \<Longrightarrow> now div 1000 < ceil_ms x"
proof -
  assume "now < x"
  moreover have "1000 * ((- x) div 1000) \<le> - x" "1000 * (now div 1000) \<le> now" by simp_all
  ultimately show ?thesis unfolding ceil_ms_def by linarith
qed

lemma ceil_ms_before: "ceil_ms x < now div 1000 \<Longrightarrow> x < now"
proof -
  assume "ceil_ms x < now div 1000"
  moreover have "- x < 1000 * ((- x) div 1000) + 1000" "1000 * (now div 1000) \<le> now" by simp_all
  ultimately show ?thesis unfolding ceil_ms_def by linarith
qed

lemma grid_bounds: "0 < win \<Longrightarrow> now - now mod win \<le> now \<and> now < now - now mod win + win"
  for now win :: int
  by simp

lemma seen_facts:
  assumes "0 < rat" and "0 < win" and "fixed_entry_ok rat win e" and "seen win now e = (w, c)"
  shows "0 \<le> c" and "c \<le> rat" and "now < w + win" and "now - now mod win \<le> w" and "w mod win = 0"
  using assms grid_bounds [OF assms(2), of now]
  by (auto simp: seen_def fixed_entry_ok_def live_def minus_mod_eq_mult_div split: option.splits if_splits)

lemma fixed_script_eq:
  assumes "0 < rat" and "0 < win" and "fixed_entry_ok rat win e" and "seen win now e = (w, c)"
  shows "fixed_window_script rat win now e =
    (if c < rat then ([1, rat - (c + 1), w + win, 0], Some (\<lparr>ws_field = w, count_field = c + 1\<rparr>, ceil_ms (w + win)))
     else ([0, 0, w + win, w + win - now], e))"
proof -
  note f = seen_facts [OF assms]
  have px: "pexpireat now (ceil_ms (w + win)) v = Some (v, ceil_ms (w + win))" for v :: window_hash
    using ceil_ms_after [OF f(3)] by (simp add: pexpireat_def)
  have keep: "map_option (\<lambda>v. (v, snd (the e))) (live now e) = e" if "\<not> c < rat"
  proof -
    have "live now e \<noteq> None" using that assms(1,4) by (auto simp: seen_def split: option.splits)
    then show ?thesis by (cases e) (auto simp: live_def split: if_splits)
  qed
  show ?thesis
    using f assms(4) px keep
    by (auto simp: fixed_window_script_def Let_def seen_def split: option.splits if_splits)
qed

definition window_ok :: "int \<times> int \<Rightarrow> bool" where
  "window_ok c \<longleftrightarrow> 0 < fst c \<and> 0 < snd c"

definition fixed_at :: "int \<times> int \<Rightarrow> 'u \<Rightarrow> window_hash served" where
  "fixed_at c u = visit_key (fixed_window_script (fst c) (snd c))"

lemma fixed_at_eq: "fixed_at c u vis e = fixed_window_script (fst c) (snd c) (snd vis) (swept (fst vis) e)"
  by (simp add: fixed_at_def visit_key_def)

lemma fixed_swept: "fixed_entry_ok rat win e \<Longrightarrow> fixed_entry_ok rat win (swept sw e)"
  using swept_cases [of sw e] by (auto simp: fixed_entry_ok_def)

interpretation fs: script fixed_at window_ok "\<lambda>c. fixed_entry_ok (fst c) (snd c)" fst
proof
  fix c and p :: 'p and t :: visit and e :: "window_hash entry"
  assume "window_ok c"
  then have c: "0 < fst c" "0 < snd c" by (simp_all add: window_ok_def)
  show "fixed_entry_ok (fst c) (snd c) None" by (simp add: fixed_entry_ok_def)
  assume "fixed_entry_ok (fst c) (snd c) e"
  then have i: "fixed_entry_ok (fst c) (snd c) (swept (fst t) e)" by (rule fixed_swept)
  obtain w n where s: "seen (snd c) (snd t) (swept (fst t) e) = (w, n)" by fastforce
  note f = seen_facts [OF c i s] and eq = fixed_script_eq [OF c i s]
  show "fixed_entry_ok (fst c) (snd c) (snd (fixed_at c p t e))"
    using f i by (auto simp: fixed_at_eq [of c _ _ e] eq fixed_entry_ok_def)
  show "reply_ok (fst c) (fst (fixed_at c p t e))"
    using f c by (auto simp: fixed_at_eq [of c _ _ e] eq reply_ok_def)
qed

text \<open>How many more the window that ends at \<open>g\<close> can admit.\<close>

definition room :: "int \<Rightarrow> int \<Rightarrow> window_hash entry \<Rightarrow> int \<Rightarrow> int" where
  "room rat win e g =
     (case e of None \<Rightarrow> rat
      | Some (v, px) \<Rightarrow>
          if g = ws_field v + win then rat - count_field v else if g < ws_field v + win then 0 else rat)"

definition grants_in :: "int \<Rightarrow> (visit \<times> reply) list \<Rightarrow> int" where
  "grants_in g rs = int (length (filter (\<lambda>(t, r). hd r = 1 \<and> r ! 2 = g) rs))"

lemma grants_in_simps [simp]:
  "grants_in g [] = 0" "grants_in g (x # rs) = (if hd (snd x) = 1 \<and> snd x ! 2 = g then 1 else 0) + grants_in g rs"
  by (auto simp: grants_in_def split: prod.splits)

lemma room_Some:
  "room rat win (Some (v, px)) g =
     (if g = ws_field v + win then rat - count_field v else if g < ws_field v + win then 0 else rat)"
  by (simp add: room_def)

lemma room_nonneg: "0 < rat \<Longrightarrow> fixed_entry_ok rat win e \<Longrightarrow> 0 \<le> room rat win e g"
  by (auto simp: room_def fixed_entry_ok_def split: option.splits)

lemma seen_newer:
  assumes "0 < win" and "fixed_entry_ok rat win (Some (v, px))" and "seen win now (Some (v, px)) = (w, c)"
  shows "w = ws_field v \<and> c = count_field v \<or> ws_field v < w \<and> c = 0"
proof (cases "px < now div 1000")
  case True
  have "px = ceil_ms (ws_field v + win)" using assms(2) unfolding fixed_entry_ok_def by simp
  then have "ceil_ms (ws_field v + win) < now div 1000" using True by (rule subst)
  then have "ws_field v + win < now" by (rule ceil_ms_before)
  moreover have "w = now - now mod win" "c = 0" using True assms(3) by (auto simp: seen_def live_def)
  ultimately show ?thesis using grid_bounds [OF assms(1), of now] by linarith
next
  case False
  then show ?thesis using assms(3) by (auto simp: seen_def live_def split: if_splits)
qed

lemma room_step:
  assumes "0 < rat" and "0 < win" and "fixed_entry_ok rat win e"
  shows "(if hd (fst (fixed_window_script rat win now e)) = 1 \<and> fst (fixed_window_script rat win now e) ! 2 = g
      then 1 else 0) + room rat win (snd (fixed_window_script rat win now e)) g \<le> room rat win e g"
proof -
  obtain w c where s: "seen win now e = (w, c)" by fastforce
  note f = seen_facts [OF assms s] and eq = fixed_script_eq [OF assms s]
  show ?thesis
  proof (cases e)
    case None
    then have "c = 0" using s by (auto simp: seen_def live_def)
    then show ?thesis using assms(1) by (auto simp: eq [unfolded None] None room_def)
  next
    case (Some x)
    obtain v px where x: "e = Some (v, px)" using Some by (cases x) auto
    from seen_newer [OF assms(2) assms(3) [unfolded x] s [unfolded x]] f assms(3)
    show ?thesis unfolding x eq [unfolded x] by (auto simp: room_def fixed_entry_ok_def)
  qed
qed

text \<open>
  The clock does not relapse: once the active expiry has looked at the key, no script reads a time
  before the window of the grid that the look fell in. Otherwise the count of a window that the
  clock comes back to may have been deleted.
\<close>

fun no_relapse :: "int \<Rightarrow> ('u \<times> visit) list \<Rightarrow> bool" where
  "no_relapse win [] \<longleftrightarrow> True"
| "no_relapse win (c # cs) \<longleftrightarrow>
     (case fst (snd c) of None \<Rightarrow> True
      | Some (t, y) \<Rightarrow> list_all (\<lambda>d. t - t mod win \<le> snd (snd d)) (c # cs)) \<and>
     no_relapse win cs"

text \<open>No reply grants until a reading that is past.\<close>

lemma no_late_grants:
  assumes "window_ok c" and "fixed_entry_ok (fst c) (snd c) e" and "\<forall>x \<in> set cs. g \<le> snd (snd x)"
  shows "grants_in g (fst (script_run (fixed_at c) cs e)) = 0"
  using assms(2,3)
proof (induction cs arbitrary: e)
  case (Cons x cs)
  have c: "0 < fst c" "0 < snd c" using assms(1) by (simp_all add: window_ok_def)
  let ?e = "swept (fst (snd x)) e"
  obtain w n where s: "seen (snd c) (snd (snd x)) ?e = (w, n)" by fastforce
  note i = fixed_swept [OF Cons.prems(1)]
  note f = seen_facts [OF c i s] and eq = fixed_script_eq [OF c i s]
  have "fixed_entry_ok (fst c) (snd c) (snd (fixed_at c (fst x) (snd x) e))"
    by (rule fs.inv_run [OF assms(1) Cons.prems(1)])
  from Cons.IH [OF this] have "grants_in g (fst (script_run (fixed_at c) cs (snd (fixed_at c (fst x) (snd x) e)))) = 0"
    using Cons.prems(2) by simp
  moreover have "w + snd c \<noteq> g" using Cons.prems(2) f(3) by fastforce
  ultimately show ?case by (simp add: fixed_at_eq [of c _ _ e] eq)
qed simp

text \<open>A sweep that deletes the key leaves as much room in every window still to come.\<close>

lemma swept_room:
  assumes "0 < win" and "fixed_entry_ok rat win e"
    and "case sw of None \<Rightarrow> True | Some (t, y) \<Rightarrow> t - t mod win < g"
  shows "room rat win (swept sw e) g = room rat win e g"
proof (cases "swept sw e = e")
  case False
  then obtain t y v px where sw: "sw = Some (t, y)" and e: "e = Some (v, px)" and px: "px < t div 1000"
    by (auto simp: swept_def live_def split: option.splits prod.splits if_splits)
  have end_px: "px = ceil_ms (ws_field v + win)" and grid: "ws_field v mod win = 0"
    using assms(2) unfolding e fixed_entry_ok_def by simp_all
  have "ceil_ms (ws_field v + win) < t div 1000" using end_px px by (rule subst)
  then have "ws_field v + win < t" by (rule ceil_ms_before)
  then have "(ws_field v + win) div win * win \<le> t div win * win"
    by (intro mult_right_mono zdiv_mono1) (use assms(1) in simp_all)
  moreover have "(ws_field v + win) div win * win = ws_field v + win"
    using grid by (simp add: minus_mod_eq_div_mult [symmetric])
  ultimately have "ws_field v + win < g" using assms(3) by (simp add: sw minus_mod_eq_div_mult)
  then show ?thesis using swept_cases [of sw e] False by (auto simp: room_def e)
qed simp

lemma fixed_room:
  assumes "window_ok c" and "fixed_entry_ok (fst c) (snd c) e" and "no_relapse (snd c) cs"
  shows "grants_in g (fst (script_run (fixed_at c) cs e)) \<le> room (fst c) (snd c) e g"
  using assms(2,3)
proof (induction cs arbitrary: e)
  case Nil
  then show ?case using room_nonneg assms(1) by (simp add: window_ok_def)
next
  case (Cons x cs)
  have c: "0 < fst c" "0 < snd c" using assms(1) by (simp_all add: window_ok_def)
  show ?case
  proof (cases "\<forall>y \<in> set (x # cs). g \<le> snd (snd y)")
    case True
    from no_late_grants [OF assms(1) Cons.prems(1) this] room_nonneg [OF c(1) Cons.prems(1), of g]
    show ?thesis by simp
  next
    case False
    then have "case fst (snd x) of None \<Rightarrow> True | Some (t, y) \<Rightarrow> t - t mod snd c < g"
      using Cons.prems(2) by (fastforce simp: list_all_iff split: option.splits)
    note sw = swept_room [OF c(2) Cons.prems(1) this]
    have "fixed_entry_ok (fst c) (snd c) (snd (fixed_at c (fst x) (snd x) e))"
      by (rule fs.inv_run [OF assms(1) Cons.prems(1)])
    from Cons.IH [OF this] Cons.prems(2) room_step [OF c fixed_swept [OF Cons.prems(1)], of "snd (snd x)" "fst (snd x)" g]
    show ?thesis by (simp add: fixed_at_eq [of c _ _ e] sw)
  qed
qed

lemma fixed_grants:
  assumes "window_ok c" and "no_relapse (snd c) cs"
  shows "grants_in g (fst (script_run (fixed_at c) cs None)) \<le> fst c"
  using fixed_room [OF assms(1) fs.inv_fresh [OF assms(1)] assms(2), of g] by (simp add: room_def)

text \<open>With a clock that does not step back, nothing is denied while the window has room.\<close>

definition calls_in :: "int \<Rightarrow> int \<Rightarrow> ('u \<times> visit) list \<Rightarrow> int" where
  "calls_in win g cs = int (length (filter (\<lambda>(u, sw, t). t - t mod win + win = g) cs))"

lemma calls_in_simps [simp]:
  "calls_in win g [] = 0"
  "calls_in win g (x # cs) = (if snd (snd x) - snd (snd x) mod win + win = g then 1 else 0) + calls_in win g cs"
  by (auto simp: calls_in_def split: prod.splits)

definition not_after :: "int \<Rightarrow> window_hash entry \<Rightarrow> bool" where
  "not_after y e \<longleftrightarrow> (case e of None \<Rightarrow> True | Some (v, px) \<Rightarrow> ws_field v \<le> y)"

lemma seen_not_after:
  assumes "0 < rat" and "0 < win" and "fixed_entry_ok rat win e" and "not_after now e"
    and "seen win now e = (w, c)"
  shows "w = now - now mod win" and "c = rat - room rat win e (w + win)"
proof -
  have g: "ws_field v \<le> now - now mod win" if "e = Some (v, px)" for v px
  proof -
    have "ws_field v mod win = 0" "ws_field v \<le> now" using that assms(3,4)
      by (auto simp: fixed_entry_ok_def not_after_def)
    then show ?thesis
      using zdiv_mono1 [OF \<open>ws_field v \<le> now\<close> assms(2)]
      by (metis assms(2) div_mult_mod_eq add.right_neutral minus_mod_eq_div_mult mult_right_mono less_imp_le)
  qed
  show w: "w = now - now mod win"
    using g assms(5) by (cases e) (fastforce simp: seen_def live_def split: if_splits option.splits)+
  show "c = rat - room rat win e (w + win)"
  proof (cases e)
    case (Some x)
    obtain v px where x: "e = Some (v, px)" using Some by (cases x) auto
    from seen_newer [OF assms(2) assms(3) [unfolded x] assms(5) [unfolded x]] g [OF x] show ?thesis
      by (auto simp: x room_def w)
  qed (use assms(5) in \<open>auto simp: room_def seen_def live_def\<close>)
qed

lemma calls_in_none:
  assumes "0 < win" and "\<forall>x \<in> set cs. now \<le> snd (snd x)" and "g < now - now mod win + win"
  shows "calls_in win g cs = 0"
proof -
  have "now - now mod win \<le> t - t mod win" if "now \<le> t" for t
    using zdiv_mono1 [OF that assms(1)] assms(1) by (simp add: minus_mod_eq_div_mult)
  then show ?thesis using assms(2,3) by (fastforce simp: calls_in_def filter_empty_conv)
qed

lemma fixed_exact_from:
  assumes "window_ok c" and "fixed_entry_ok (fst c) (snd c) e" and "no_relapse (snd c) cs"
    and "sorted (map (\<lambda>x. snd (snd x)) cs)" and "\<forall>x \<in> set cs. not_after (snd (snd x)) e"
  shows "grants_in g (fst (script_run (fixed_at c) cs e)) = min (room (fst c) (snd c) e g) (calls_in (snd c) g cs)"
  using assms(2-)
proof (induction cs arbitrary: e)
  case Nil
  then show ?case using room_nonneg assms(1) by (simp add: window_ok_def)
next
  case (Cons x cs)
  have c: "0 < fst c" "0 < snd c" using assms(1) by (simp_all add: window_ok_def)
  let ?now = "snd (snd x)" and ?e1 = "swept (fst (snd x)) e"
  have later: "\<forall>y \<in> set cs. ?now \<le> snd (snd y)" and so: "sorted (map (\<lambda>x. snd (snd x)) cs)"
    using Cons.prems(3) by auto
  show ?case
  proof (cases "\<forall>y \<in> set (x # cs). g \<le> snd (snd y)")
    case True
    then have "g < ?now - ?now mod snd c + snd c" using grid_bounds [OF c(2), of ?now] by fastforce
    then have "calls_in (snd c) g (x # cs) = 0" using later by (intro calls_in_none [OF c(2)]) auto
    then show ?thesis
      using no_late_grants [OF assms(1) Cons.prems(1) True] room_nonneg [OF c(1) Cons.prems(1), of g] by simp
  next
    case False
    then have "case fst (snd x) of None \<Rightarrow> True | Some (t, y) \<Rightarrow> t - t mod snd c < g"
      using Cons.prems(2) by (fastforce simp: list_all_iff split: option.splits)
    note sw = swept_room [OF c(2) Cons.prems(1) this, symmetric]
    note i1 = fixed_swept [OF Cons.prems(1), of "fst (snd x)"]
    have na1: "\<forall>y \<in> set (x # cs). not_after (snd (snd y)) ?e1"
      using Cons.prems(4) swept_cases [of "fst (snd x)" e] by (auto simp: not_after_def)
    then have na: "not_after ?now ?e1" by simp
    obtain w n where s: "seen (snd c) ?now ?e1 = (w, n)" by fastforce
    note w = seen_not_after [OF c i1 na s]
    note f = seen_facts [OF c i1 s] and eq = fixed_script_eq [OF c i1 s]
    let ?e = "snd (fixed_at c (fst x) (snd x) e)"
    have i: "fixed_entry_ok (fst c) (snd c) ?e" by (rule fs.inv_run [OF assms(1) Cons.prems(1)])
    have wx: "w \<le> ?now" using w(1) grid_bounds [OF c(2), of ?now] by simp
    have "(\<exists>v px. ?e = Some (v, px) \<and> ws_field v = w) \<or> ?e = ?e1"
      by (simp add: fixed_at_eq [of c _ _ e] eq)
    then have na': "\<forall>y \<in> set cs. not_after (snd (snd y)) ?e"
      using later wx na1 by (auto simp: not_after_def)
    have "no_relapse (snd c) cs" using Cons.prems(2) by simp
    note IH = Cons.IH [OF i this so na']
    have none: "g < w + snd c \<Longrightarrow> calls_in (snd c) g cs = 0"
      using calls_in_none [OF c(2) later] w(1) by blast
    have nn: "0 \<le> calls_in (snd c) g cs" by (simp add: calls_in_def)
    have rm: "room (fst c) (snd c) ?e1 h = fst c" if "w + snd c < h" for h
    proof (cases ?e1)
      case (Some y)
      obtain v px where y: "?e1 = Some (v, px)" using Some by (cases y) auto
      have "ws_field v \<le> w" using seen_newer [OF c(2) i1 [unfolded y] s [unfolded y]] by auto
      then show ?thesis using that by (simp add: y room_Some)
    qed (simp add: room_def)
    show ?thesis
      using IH none nn w rm f room_nonneg [OF c(1) i1, of g]
      by (cases "n < fst c") (auto simp: fixed_at_eq [of c _ _ e] eq room_Some sw)
  qed
qed

section \<open>The sliding window, shared\<close>

definition sliding_entry_ok :: "int \<Rightarrow> zset entry \<Rightarrow> bool" where
  "sliding_entry_ok rat e \<longleftrightarrow>
     (case e of None \<Rightarrow> True | Some (z, px) \<Rightarrow> int (length z) \<le> rat \<and> distinct (map fst z))"

definition sliding_at :: "int \<times> int \<Rightarrow> string \<Rightarrow> zset served" where
  "sliding_at c nonce = visit_key (sliding_window_script (fst c) (snd c) nonce)"

lemma sliding_swept: "sliding_entry_ok rat e \<Longrightarrow> sliding_entry_ok rat (swept sw e)"
  using swept_cases [of sw e] by (auto simp: sliding_entry_ok_def)

text \<open>The log a call finds, trimmed.\<close>

definition trimmed :: "int \<Rightarrow> int \<Rightarrow> zset entry \<Rightarrow> zset" where
  "trimmed win now e = filter (\<lambda>(m, s). \<not> s \<le> now - win) (case live now e of None \<Rightarrow> [] | Some z \<Rightarrow> z)"

lemma trimmed_ok:
  "0 < rat \<Longrightarrow> sliding_entry_ok rat e \<Longrightarrow> int (length (trimmed win now e)) \<le> rat \<and> distinct (map fst (trimmed win now e))"
proof -
  assume "0 < rat" and i: "sliding_entry_ok rat e"
  let ?z = "case live now e of None \<Rightarrow> [] | Some z \<Rightarrow> z"
  have "int (length ?z) \<le> rat \<and> distinct (map fst ?z)"
    using \<open>0 < rat\<close> i by (auto simp: sliding_entry_ok_def live_def split: option.splits)
  moreover have "length (trimmed win now e) \<le> length ?z" by (simp add: trimmed_def)
  ultimately show ?thesis
    by (intro conjI, linarith) (simp add: trimmed_def distinct_map_filter)
qed

lemma trimmed_after: "(m, s) \<in> set (trimmed win now e) \<Longrightarrow> now - win < s"
  by (auto simp: trimmed_def)

lemma sliding_script_facts:
  fixes rat win now :: int and nonce :: string and e :: "zset entry"
  defines "z \<equiv> trimmed win now e" and "r \<equiv> fst (sliding_window_script rat win nonce now e)"
    and "e' \<equiv> snd (sliding_window_script rat win nonce now e)"
  assumes "0 < rat" and "0 < win" and "sliding_entry_ok rat e"
  shows "hd r = 1 \<longleftrightarrow> int (length z) < rat"
    and "e' = (let z2 = (if hd r = 1 then AList.update (now, nonce) now z else z)
               in if z2 = [] then None else pexpire now (ceil_ms win) z2)"
    and "reply_ok rat r" and "sliding_entry_ok rat e'"
proof -
  note z = trimmed_ok [OF assms(4,6), of win now, folded z_def]
  show r: "hd r = 1 \<longleftrightarrow> int (length z) < rat"
    by (simp add: r_def sliding_window_script_def Let_def z_def trimmed_def)
  show e': "e' = (let z2 = (if hd r = 1 then AList.update (now, nonce) now z else z)
               in if z2 = [] then None else pexpire now (ceil_ms win) z2)"
    unfolding r using assms(4)
    by (auto simp: e'_def sliding_window_script_def Let_def z_def [unfolded trimmed_def, symmetric])
  have len: "length (AList.update (now, nonce) now z) \<le> Suc (length z)"
    by (cases "map_of z (now, nonce)") (simp_all add: length_update_fresh length_update_known)
  show "sliding_entry_ok rat e'"
    using z r len
    by (auto simp: e' Let_def sliding_entry_ok_def pexpire_def pexpireat_def distinct_update)
  show "reply_ok rat r"
  proof (cases "int (length z) < rat")
    case True
    then show ?thesis
      by (auto simp: r_def sliding_window_script_def Let_def z_def [unfolded trimmed_def, symmetric] reply_ok_def)
  next
    case False
    then have ne: "z \<noteq> []" and full: "int (length z) = rat" using assms(4) z by auto
    have "Min (snd ` set z) \<in> snd ` set z" using ne by (intro Min_in) auto
    then have "now - win < Min (snd ` set z)" using trimmed_after unfolding z_def by fastforce
    then have "now \<le> Min (snd ` set z) + win" by linarith
    then show ?thesis
      using ne full assms(4)
      by (simp add: r_def sliding_window_script_def Let_def z_def [unfolded trimmed_def, symmetric] reply_ok_def)
  qed
qed

interpretation ss: script sliding_at window_ok "\<lambda>c. sliding_entry_ok (fst c)" fst
proof
  fix c p t and e :: "zset entry"
  assume "window_ok c"
  then have c: "0 < fst c" "0 < snd c" by (simp_all add: window_ok_def)
  show "sliding_entry_ok (fst c) None" by (simp add: sliding_entry_ok_def)
  assume "sliding_entry_ok (fst c) e"
  from sliding_script_facts(3,4) [OF c sliding_swept [OF this], where now = "snd t"]
  show "sliding_entry_ok (fst c) (snd (sliding_at c p t e))" "reply_ok (fst c) (fst (sliding_at c p t e))"
    by (simp_all add: sliding_at_def visit_key_def)
qed

text \<open>
  A call together with the true time it happens at: what it brings, its visit, and the time. The
  server's clock may lose time against the true one (a backward step) but not gain, at its sweeps
  as at its scripts.
\<close>

type_synonym timed_call = "(string \<times> visit) \<times> int"

definition sweep_of :: "timed_call \<Rightarrow> sweep" where "sweep_of q = fst (snd (fst q))"
definition clock_at :: "timed_call \<Rightarrow> int" where "clock_at q = snd (snd (fst q))"

definition only_loses :: "timed_call \<Rightarrow> timed_call \<Rightarrow> bool" where
  "only_loses q q' \<longleftrightarrow> snd q \<le> snd q' \<and> clock_at q' - clock_at q \<le> snd q' - snd q \<and>
     (case sweep_of q' of None \<Rightarrow> True
      | Some (t, y) \<Rightarrow> snd q \<le> y \<and> y \<le> snd q' \<and> t - clock_at q \<le> y - snd q)"

text \<open>The member a call adds to its log, the reading of the clock and the nonce: no two calls share it.\<close>

definition stamp :: "timed_call \<Rightarrow> int \<times> string" where
  "stamp q = (clock_at q, fst (fst q))"

definition shared_log :: "int \<times> int \<Rightarrow> timed_call list \<Rightarrow> (visit \<times> reply) list \<times> zset entry" where
  "shared_log c qs = script_run (sliding_at c) (map fst qs) None"

definition shared_grants :: "int \<times> int \<Rightarrow> timed_call list \<Rightarrow> timed_call list" where
  "shared_grants c qs = map fst (filter (\<lambda>(q, t, r). hd r = 1) (zip qs (fst (shared_log c qs))))"

lemma shared_log_snoc:
  "snd (shared_log c (qs @ [q])) = snd (sliding_at c (fst (fst q)) (snd (fst q)) (snd (shared_log c qs)))"
  by (simp add: shared_log_def script_run_append)

lemma shared_grants_snoc:
  "shared_grants c (qs @ [q]) = shared_grants c qs @
     (if hd (fst (sliding_at c (fst (fst q)) (snd (fst q)) (snd (shared_log c qs)))) = 1 then [q] else [])"
proof -
  have "length (fst (script_run (sliding_at c) (map fst qs) None)) = length qs"
    using script_run_times [of "sliding_at c" "map fst qs" None] by (metis length_map)
  then show ?thesis by (simp add: shared_grants_def shared_log_def script_run_append)
qed

lemma shared_grants_sub: "set (shared_grants c qs) \<subseteq> set qs"
  by (auto simp: shared_grants_def dest: set_zip_leftD)

lemma shared_grants_distinct: "distinct (map stamp qs) \<Longrightarrow> distinct (map stamp (shared_grants c qs))"
proof (induction qs rule: rev_induct)
  case (snoc q qs)
  then show ?case using shared_grants_sub [of c qs] by (auto simp: shared_grants_snoc)
qed (simp add: shared_grants_def)

lemma live_pexpire:
  assumes "0 < win" and "now' - now < win"
  shows "live now' (pexpire now (ceil_ms win) v) = Some v"
proof -
  have "win \<le> 1000 * ceil_ms win" proof -
    have "1000 * ((- win) div 1000) \<le> - win" by simp
    then show ?thesis unfolding ceil_ms_def by linarith
  qed
  moreover have "now < 1000 * (now div 1000) + 1000" "1000 * (now' div 1000) \<le> now'" by simp_all
  ultimately have "now' div 1000 \<le> now div 1000 + ceil_ms win" "0 < ceil_ms win" using assms by linarith+
  then show ?thesis by (simp add: pexpire_def pexpireat_def live_def)
qed

lemma swept_pexpire:
  assumes "0 < win" and "case sw of None \<Rightarrow> True | Some (t, y) \<Rightarrow> t - now < win"
  shows "swept sw (pexpire now (ceil_ms win) v) = pexpire now (ceil_ms win) v"
proof (cases sw)
  case (Some ty)
  obtain t y where sw: "sw = Some (t, y)" using Some by (cases ty) auto
  have "live t (pexpire now (ceil_ms win) v) = Some v"
    using assms(2) by (intro live_pexpire [OF assms(1)]) (simp add: sw)
  then show ?thesis by (simp add: sw swept_def)
qed simp

text \<open>The member and the score a call adds to the log.\<close>

definition logged :: "timed_call \<Rightarrow> (int \<times> string) \<times> int" where
  "logged q = (stamp q, clock_at q)"

text \<open>A grant stays in the log for as long as it is younger than the window in true time.\<close>

lemma grant_stays:
  assumes "window_ok c" and "distinct (map stamp qs)" and "sorted_wrt only_loses qs"
    and "g \<in> set (shared_grants c qs)" and "\<forall>q \<in> set qs. only_loses q q'" and "snd q' - snd g < snd c"
  shows "logged g \<in> set (trimmed (snd c) (clock_at q') (swept (sweep_of q') (snd (shared_log c qs))))"
  using assms(2-)
proof (induction qs arbitrary: q' rule: rev_induct)
  case Nil
  then show ?case by (simp add: shared_grants_def)
next
  case (snoc q qs)
  have c: "0 < fst c" "0 < snd c" using assms(1) by (simp_all add: window_ok_def)
  let ?e = "swept (sweep_of q) (snd (shared_log c qs))" and ?m = "fst (fst q)" and ?n = "clock_at q" and ?n' = "clock_at q'"
  have i: "sliding_entry_ok (fst c) ?e"
    unfolding shared_log_def by (rule sliding_swept [OF ss.run_inv [OF assms(1) ss.inv_fresh [OF assms(1)]]])
  let ?z = "trimmed (snd c) ?n ?e" and ?r = "fst (sliding_window_script (fst c) (snd c) ?m ?n ?e)"
  let ?z2 = "if hd ?r = 1 then AList.update (?n, ?m) ?n ?z else ?z"
  note facts = sliding_script_facts [OF c i, of ?m ?n]
  have run: "sliding_at c ?m (snd (fst q)) (snd (shared_log c qs)) = sliding_window_script (fst c) (snd c) ?m ?n ?e"
    by (simp add: sliding_at_def visit_key_def sweep_of_def clock_at_def)
  have e': "snd (shared_log c (qs @ [q])) = (if ?z2 = [] then None else pexpire ?n (ceil_ms (snd c)) ?z2)"
    using facts(2) by (simp add: shared_log_snoc run Let_def)
  have ql: "only_loses q q'" and qs: "\<forall>p \<in> set qs. only_loses p q" "sorted_wrt only_loses qs"
    using snoc.prems(2,4) by (auto simp: sorted_wrt_append)
  have g_in: "logged g \<in> set ?z2"
  proof (cases "g \<in> set (shared_grants c qs)")
    case True
    have "snd q - snd g < snd c" using ql snoc.prems(5) by (auto simp: only_loses_def)
    then have z: "logged g \<in> set ?z" using snoc.IH [OF _ qs(2) True qs(1)] snoc.prems(1) by simp
    have "stamp g \<in> stamp ` set qs" by (rule imageI [OF subsetD [OF shared_grants_sub True]])
    moreover have "stamp q \<notin> stamp ` set qs" using snoc.prems(1) by simp
    ultimately have "stamp g \<noteq> stamp q" by metis
    then have "fst (logged g) \<noteq> (?n, ?m)" by (simp add: logged_def stamp_def)
    moreover have "distinct (map fst ?z)" using trimmed_ok [OF c(1) i] by blast
    ultimately have "map_of (AList.update (?n, ?m) ?n ?z) (fst (logged g)) = Some (snd (logged g))"
      using z by (simp add: map_of_update)
    from map_of_SomeD [OF this] z show ?thesis by simp
  next
    case False
    then have "g = q" "hd ?r = 1" using snoc.prems(3) by (auto simp: shared_grants_snoc run split: if_splits)
    moreover have "map_of (AList.update (?n, ?m) ?n ?z) (?n, ?m) = Some ?n" by (simp add: map_of_update)
    ultimately show ?thesis using map_of_SomeD by (fastforce simp: logged_def stamp_def)
  qed
  have gq: "only_loses g q'" using shared_grants_sub [of c "qs @ [q]"] snoc.prems(3,4) by blast
  have "g = q \<or> only_loses g q"
    using snoc.prems(3) qs(1) shared_grants_sub [of c "qs @ [q]"] by auto
  then have "snd g \<le> snd q" by (auto simp: only_loses_def)
  then have soon: "?n' - ?n < snd c" "case sweep_of q' of None \<Rightarrow> True | Some (t, y) \<Rightarrow> t - ?n < snd c"
    using ql snoc.prems(5) by (auto simp: only_loses_def split: option.splits)
  have "swept (sweep_of q') (snd (shared_log c (qs @ [q]))) = snd (shared_log c (qs @ [q]))"
    unfolding e' by (simp add: swept_pexpire [OF c(2) soon(2)])
  moreover have "live ?n' (snd (shared_log c (qs @ [q]))) = Some ?z2"
    using soon(1) g_in live_pexpire [OF c(2)] unfolding e' by auto
  moreover have "?n' - snd c < snd (logged g)" using gq snoc.prems(5) by (auto simp: only_loses_def logged_def)
  ultimately show ?case using g_in by (auto simp: trimmed_def)
qed

lemma shared_interval:
  assumes "window_ok c" and "distinct (map stamp qs)" and "sorted_wrt only_loses qs"
  shows "int (length (filter (\<lambda>q. x < snd q \<and> snd q \<le> x + snd c) (shared_grants c qs))) \<le> fst c"
  using assms(2-)
proof (induction qs rule: rev_induct)
  case Nil
  then show ?case using assms(1) by (simp add: shared_grants_def window_ok_def)
next
  case (snoc q qs)
  have c: "0 < fst c" "0 < snd c" using assms(1) by (simp_all add: window_ok_def)
  let ?e = "swept (sweep_of q) (snd (shared_log c qs))" and ?m = "fst (fst q)" and ?n = "clock_at q"
  let ?P = "\<lambda>q. x < snd q \<and> snd q \<le> x + snd c"
  have i: "sliding_entry_ok (fst c) ?e"
    unfolding shared_log_def by (rule sliding_swept [OF ss.run_inv [OF assms(1) ss.inv_fresh [OF assms(1)]]])
  have run: "sliding_at c ?m (snd (fst q)) (snd (shared_log c qs)) = sliding_window_script (fst c) (snd c) ?m ?n ?e"
    by (simp add: sliding_at_def visit_key_def sweep_of_def clock_at_def)
  have qs: "\<forall>p \<in> set qs. only_loses p q" "sorted_wrt only_loses qs" "distinct (map stamp qs)"
    using snoc.prems by (simp_all add: sorted_wrt_append)
  note IH = snoc.IH [OF qs(3,2)]
  show ?case
  proof (cases "hd (fst (sliding_window_script (fst c) (snd c) ?m ?n ?e)) = 1 \<and> ?P q")
    case False
    then show ?thesis using IH by (auto simp: shared_grants_snoc run)
  next
    case True
    let ?gs = "filter ?P (shared_grants c qs)"
    have "logged ` set ?gs \<subseteq> set (trimmed (snd c) ?n ?e)"
      using grant_stays [OF assms(1) qs(3,2) _ qs(1)] True by fastforce
    moreover have "distinct (map stamp ?gs)"
      using shared_grants_distinct [OF qs(3), of c] by (rule distinct_map_filter)
    then have "distinct (map logged ?gs)" by (auto simp: distinct_map inj_on_def logged_def)
    ultimately have "length ?gs \<le> card (set (trimmed (snd c) ?n ?e))"
      using distinct_card [of "map logged ?gs"] card_mono [of "set (trimmed (snd c) ?n ?e)" "logged ` set ?gs"] by simp
    then have "length ?gs \<le> length (trimmed (snd c) ?n ?e)" using card_length order_trans by blast
    moreover have "int (length (trimmed (snd c) ?n ?e)) < fst c"
      using True sliding_script_facts(1) [OF c i, of ?m ?n] by simp
    ultimately show ?thesis using True by (simp add: shared_grants_snoc run)
  qed
qed

section \<open>The token bucket, shared\<close>

text \<open>Burst, rate and window, in the order of \<open>ARGV\<close>.\<close>

definition token_at :: "int \<times> int \<times> int \<Rightarrow> 'u \<Rightarrow> token_hash served" where
  "token_at c u = visit_key (token_bucket_script (fst c) (fst (snd c)) (snd (snd c)))"

definition token_args_ok :: "int \<times> int \<times> int \<Rightarrow> bool" where
  "token_args_ok c \<longleftrightarrow> 1 \<le> fst c \<and> fst c \<le> 2 ^ 53 \<and> 1 \<le> fst (snd c) \<and> 1 \<le> snd (snd c)"

definition token_entry_ok :: "int \<Rightarrow> token_hash entry \<Rightarrow> bool" where
  "token_entry_ok bst e \<longleftrightarrow>
     (case e of None \<Rightarrow> True | Some (v, px) \<Rightarrow> 0 \<le> tokens_field v \<and> tokens_field v \<le> of_int bst)"

lemma token_swept: "token_entry_ok bst e \<Longrightarrow> token_entry_ok bst (swept sw e)"
  using swept_cases [of sw e] by (auto simp: token_entry_ok_def)

text \<open>The hash a call works on, refilled.\<close>

definition refilled :: "int \<times> int \<times> int \<Rightarrow> int \<Rightarrow> token_hash entry \<Rightarrow> token_hash" where
  "refilled c now e =
     lua_refill (fst c) (fst (snd c)) (snd (snd c)) now
       (case live now e of Some st \<Rightarrow> st | None \<Rightarrow> \<lparr>tokens_field = i2f (fst c), last_field = now\<rparr>)"

lemma lua_threshold_bounds: "lua_threshold \<le> 1" "0 < lua_threshold"
  by code_simp+

lemma max_take_token: "max 0 (fsub x 1) = take_token x"
  by (simp add: take_token_def Let_def max_def)

lemma token_script_eq:
  "token_bucket_script (fst c) (fst (snd c)) (snd (snd c)) now e =
    (let st = refilled c now e; ok = lua_threshold \<le> tokens_field st;
         tok = (if ok then take_token (tokens_field st) else tokens_field st);
         refill = fdiv (i2f (fst (snd c))) (i2f (snd (snd c)));
         to_full = fdiv (fsub (i2f (fst c)) tok) refill
     in ([if ok then 1 else 0, \<lfloor>tok\<rfloor>, \<lfloor>fadd (i2f now) (of_int \<lceil>to_full\<rceil>)\<rfloor>, if ok then 0 else \<lceil>fdiv (fsub 1 tok) refill\<rceil>],
         pexpire now (max 1 \<lceil>fdiv to_full 1000\<rceil>) \<lparr>tokens_field = tok, last_field = last_field st\<rparr>))"
proof -
  have "(if ttl < 1 then 1 else ttl) = max 1 ttl" for ttl :: int by (simp add: max_def)
  then show ?thesis
    unfolding token_bucket_script_def refilled_def max_take_token Let_def by (simp only:)
qed

lemma refilled_bounds:
  assumes "token_args_ok c" and "token_entry_ok (fst c) e"
  shows "0 \<le> tokens_field (refilled c now e)" and "tokens_field (refilled c now e) \<le> of_int (fst c)"
proof -
  have b: "i2f (fst c) = of_int (fst c)" "(0::rat) \<le> of_int (fst c)"
    using assms(1) by (auto simp: token_args_ok_def intro: i2f_exact)
  define st where "st = (case live now e of Some st \<Rightarrow> st | None \<Rightarrow> \<lparr>tokens_field = i2f (fst c), last_field = now\<rparr>)"
  have st: "0 \<le> tokens_field st" "tokens_field st \<le> of_int (fst c)"
    using assms(2) b by (auto simp: st_def token_entry_ok_def live_def split: option.splits)
  have "0 \<le> fmul (i2f (now - last_field st)) (fdiv (i2f (fst (snd c))) (i2f (snd (snd c))))"
    if "last_field st < now"
    using that assms(1) unfolding fmul_def fdiv_def token_args_ok_def
    by (intro fl_nonneg mult_nonneg_nonneg divide_nonneg_nonneg i2f_nonneg) auto
  then have "0 \<le> fadd (tokens_field st) (fmul (i2f (now - last_field st)) (fdiv (i2f (fst (snd c))) (i2f (snd (snd c)))))"
    if "last_field st < now"
    using that st(1) unfolding fadd_def by (intro fl_nonneg add_nonneg_nonneg) auto
  then show "0 \<le> tokens_field (refilled c now e)" "tokens_field (refilled c now e) \<le> of_int (fst c)"
    using st b by (auto simp: refilled_def lua_refill_def st_def [symmetric] min_le_iff_disj)
qed

lemma token_script_facts:
  assumes "token_args_ok c" and "token_entry_ok (fst c) e"
  shows "reply_ok (fst c) (fst (token_bucket_script (fst c) (fst (snd c)) (snd (snd c)) now e))" and "token_entry_ok (fst c) (snd (token_bucket_script (fst c) (fst (snd c)) (snd (snd c)) now e))"
proof -
  note r = refilled_bounds [OF assms, of now]
  let ?x = "tokens_field (refilled c now e)"
  have c: "1 \<le> fst c" "fst c \<le> 2 ^ 53" "1 \<le> fst (snd c)" "1 \<le> snd (snd c)"
    using assms(1) by (auto simp: token_args_ok_def)
  note t = take_token_bounds [OF r(2) c(1,2)]
  have t': "take_token ?x \<le> of_int (fst c)" using t(2) by simp
  show "token_entry_ok (fst c) (snd (token_bucket_script (fst c) (fst (snd c)) (snd (snd c)) now e))"
    using r t(1) t' by (auto simp: token_script_eq Let_def token_entry_ok_def pexpire_def pexpireat_def)
  show "reply_ok (fst c) (fst (token_bucket_script (fst c) (fst (snd c)) (snd (snd c)) now e))"
  proof (cases "lua_threshold \<le> ?x")
    case True
    have "\<lfloor>take_token ?x\<rfloor> < fst c" using t(2) by (simp add: floor_less_iff)
    then show ?thesis using True t(1) by (simp add: token_script_eq Let_def reply_ok_def)
  next
    case False
    then have x: "?x < 1" using lua_threshold_bounds(1) by simp
    then have "\<lfloor>?x\<rfloor> = 0" using r(1) by (simp add: floor_eq_iff)
    moreover have "0 \<le> fdiv (fsub 1 ?x) (fdiv (i2f (fst (snd c))) (i2f (snd (snd c))))"
      using x c unfolding fdiv_def fsub_def
      by (intro fl_nonneg divide_nonneg_nonneg i2f_nonneg) auto
    ultimately show ?thesis using False c(1) by (simp add: token_script_eq Let_def reply_ok_def)
  qed
qed

interpretation ts: script token_at token_args_ok "\<lambda>c. token_entry_ok (fst c)" fst
  by unfold_locales (simp_all add: token_at_def visit_key_def token_script_facts token_swept, simp add: token_entry_ok_def)

end
