(* ===== verification/Metrics.thy ===== *)
theory Metrics
  imports Prelude
begin

text \<open>
  The instruments of \<open>internal/metrics/metrics.go\<close>: the request counter by route and decision,
  the number of duration observations, the breaker gauge and the one-hot pair of backend gauges.
  The registry and the exposition format are the Prometheus client's and stay outside.
\<close>

definition decision_allow :: string where "decision_allow = ''allow''"
definition decision_deny :: string where "decision_deny = ''deny''"
definition decision_degrade_allow :: string where "decision_degrade_allow = ''degrade_allow''"
definition decision_degrade_deny :: string where "decision_degrade_deny = ''degrade_deny''"
definition decision_degrade :: string where "decision_degrade = ''degrade''"

lemmas decision_defs = decision_allow_def decision_deny_def decision_degrade_allow_def
  decision_degrade_deny_def decision_degrade_def

definition decisions :: "string list" where
  "decisions = [decision_allow, decision_deny, decision_degrade_allow, decision_degrade_deny, decision_degrade]"

definition backends :: "string list" where
  "backends = [''redis'', ''memory'']"

type_synonym 'k series = "('k \<times> int) list"

record metrics =
  requests_total :: "(string \<times> string) series"
  observations :: nat
  breaker_state :: int
  limiter_backend :: "string series"

text \<open>\<open>WithLabelValues\<close> materializes a series at 0 when it is new.\<close>

definition with_label :: "'k \<Rightarrow> 'k series \<Rightarrow> 'k series" where
  "with_label k s = (case map_of s k of None \<Rightarrow> AList.update k 0 s | Some v \<Rightarrow> s)"

definition series_set :: "'k \<Rightarrow> int \<Rightarrow> 'k series \<Rightarrow> 'k series" where
  "series_set k v s = AList.update k v (with_label k s)"

definition series_inc :: "'k \<Rightarrow> 'k series \<Rightarrow> 'k series" where
  "series_inc k s = (let s1 = with_label k s in AList.update k (the (map_of s1 k) + 1) s1)"

definition new_metrics :: metrics where
  "new_metrics = \<lparr>requests_total = [], observations = 0, breaker_state = 0,
     limiter_backend = fold with_label backends []\<rparr>"

definition set_active_backend :: "string \<Rightarrow> string series \<Rightarrow> string series" where
  "set_active_backend active g =
     fold (\<lambda>b. series_set b (if b = active then 1 else 0)) backends g"

definition init_route :: "string \<Rightarrow> metrics \<Rightarrow> metrics" where
  "init_route r m = m\<lparr>requests_total := fold (\<lambda>d. with_label (r, d)) decisions (requests_total m)\<rparr>"

definition count_request :: "string \<Rightarrow> string \<Rightarrow> metrics \<Rightarrow> metrics" where
  "count_request r d m = m\<lparr>requests_total := series_inc (r, d) (requests_total m)\<rparr>"

definition observe :: "metrics \<Rightarrow> metrics" where
  "observe m = m\<lparr>observations := observations m + 1\<rparr>"

section \<open>Series\<close>

lemma map_of_with_label: "map_of (with_label k s) = (if map_of s k = None then (map_of s)(k \<mapsto> 0) else map_of s)"
  by (auto simp: with_label_def map_of_update split: option.split)

lemma map_of_series_set: "map_of (series_set k v s) = (map_of s)(k \<mapsto> v)"
  by (auto simp: series_set_def map_of_update map_of_with_label)

lemma map_of_series_inc:
  "map_of (series_inc k s) = (map_of s)(k \<mapsto> (case map_of s k of None \<Rightarrow> 1 | Some v \<Rightarrow> v + 1))"
  by (auto simp: series_inc_def Let_def map_of_update map_of_with_label split: option.split)

lemma map_of_set_active:
  "map_of (set_active_backend a g) =
     (map_of g)(''redis'' \<mapsto> (if ''redis'' = a then 1 else 0), ''memory'' \<mapsto> (if ''memory'' = a then 1 else 0))"
  by (simp add: set_active_backend_def backends_def map_of_series_set)

text \<open>The pair says that \<open>a\<close> is the active backend.\<close>

definition one_hot :: "string \<Rightarrow> string series \<Rightarrow> bool" where
  "one_hot a g \<longleftrightarrow> a \<in> set backends \<and> (\<forall>b \<in> set backends. map_of g b = Some (if b = a then 1 else 0))"

lemma one_hot_set_active: "a \<in> set backends \<Longrightarrow> one_hot a (set_active_backend a g)"
  by (auto simp: one_hot_def map_of_set_active backends_def)

lemma one_hot_unique: "one_hot a g \<Longrightarrow> one_hot b g \<Longrightarrow> a = b"
proof -
  assume "one_hot a g" and "one_hot b g"
  then have "map_of g a = Some (if a = a then 1 else 0)" "map_of g a = Some (if a = b then 1 else 0)"
    unfolding one_hot_def by blast+
  then show ?thesis by (simp split: if_splits)
qed

text \<open>The number of requests counted, over all series.\<close>

definition counted_total :: "metrics \<Rightarrow> int" where
  "counted_total m = sum_list (map snd (requests_total m))"

lemma sum_update_fresh: "map_of s k = None \<Longrightarrow> sum_list (map snd (AList.update k v s)) = sum_list (map snd s) + (v::int)"
  by (induction s) (auto split: if_splits)

lemma sum_update_known: "map_of s k = Some w \<Longrightarrow> sum_list (map snd (AList.update k v s)) = sum_list (map snd s) + (v - w :: int)"
  by (induction s) (auto split: if_splits)

lemma sum_with_label: "sum_list (map snd (with_label k s)) = sum_list (map snd s)"
  by (auto simp: with_label_def sum_update_fresh split: option.split)

lemma sum_series_inc: "sum_list (map snd (series_inc k s)) = sum_list (map snd s) + 1"
proof -
  have "map_of (with_label k s) k \<noteq> None" by (simp add: map_of_with_label)
  then obtain w where "map_of (with_label k s) k = Some w" by blast
  then show ?thesis by (simp add: series_inc_def Let_def sum_update_known sum_with_label)
qed

lemma counted_total_simps [simp]:
  "counted_total new_metrics = 0" "counted_total (init_route r m) = counted_total m"
  "counted_total (count_request r d m) = counted_total m + 1" "counted_total (observe m) = counted_total m"
  by (simp_all add: counted_total_def new_metrics_def init_route_def decisions_def sum_with_label
      count_request_def sum_series_inc observe_def)

text \<open>Every decision of a route has its series from the start.\<close>

lemma map_of_labels: "d \<in> set ds \<Longrightarrow> map_of (fold (\<lambda>d. with_label (r, d)) ds s) (r, d) \<noteq> None"
proof (induction ds arbitrary: s)
  case (Cons e ds)
  have keep: "map_of s k \<noteq> None \<Longrightarrow> map_of (fold (\<lambda>d. with_label (r, d)) ds s) k \<noteq> None" for k s
    by (induction ds arbitrary: s) (auto simp: map_of_with_label)
  show ?case using Cons keep [of "with_label (r, e) s" "(r, e)"] by (auto simp: map_of_with_label)
qed simp

lemma init_route_series: "d \<in> set decisions \<Longrightarrow> map_of (requests_total (init_route r m)) (r, d) \<noteq> None"
  using map_of_labels [of d decisions r] by (simp add: init_route_def)

text \<open>The label values of a counter.\<close>

definition labels :: "metrics \<Rightarrow> (string \<times> string) set" where
  "labels m = fst ` set (requests_total m)"

lemma labels_dom: "labels m = dom (map_of (requests_total m))"
  by (simp add: labels_def dom_map_of_conv_image_fst)

lemma labels_count: "labels (count_request r d m) = insert (r, d) (labels m)"
  by (simp add: labels_dom count_request_def map_of_series_inc)

lemma labels_init: "labels (init_route r m) = labels m \<union> {r} \<times> set decisions"
proof -
  have "dom (map_of (fold (\<lambda>d. with_label (r, d)) ds s)) = dom (map_of s) \<union> {r} \<times> set ds" for ds s
  proof (induction ds arbitrary: s)
    case (Cons d ds)
    have "dom (map_of (with_label (r, d) s)) = insert (r, d) (dom (map_of s))"
      by (auto simp: map_of_with_label)
    then show ?case using Cons by auto
  qed simp
  then show ?thesis by (simp add: labels_dom init_route_def)
qed

lemma labels_simps [simp]: "labels new_metrics = {}" "labels (observe m) = labels m"
  by (simp_all add: labels_def new_metrics_def observe_def)

section \<open>Racing flips\<close>

text \<open>
  \<open>SetActiveBackend\<close> in its steps: taking \<open>backendMu\<close>, one write for each label, releasing it. Who holds
  the mutex has the labels still to write; everybody else waits.
\<close>

record flipping =
  pair :: "string series"
  holder :: "(string \<times> string list) option"

datatype flip = Take string | Write | Release

fun flip_step :: "flip \<Rightarrow> flipping \<Rightarrow> flipping option" where
  "flip_step (Take a) x = (if holder x = None then Some (x\<lparr>holder := Some (a, backends)\<rparr>) else None)"
| "flip_step Write x =
     (case holder x of
        Some (a, b # bs) \<Rightarrow> Some (x\<lparr>pair := series_set b (if b = a then 1 else 0) (pair x), holder := Some (a, bs)\<rparr>)
      | _ \<Rightarrow> None)"
| "flip_step Release x =
     (case holder x of
        Some (a, []) \<Rightarrow> Some (x\<lparr>holder := None\<rparr>)
      | _ \<Rightarrow> None)"

fun flip_run :: "flip list \<Rightarrow> flipping \<Rightarrow> flipping option" where
  "flip_run [] x = Some x"
| "flip_run (f # fs) x = (case flip_step f x of None \<Rightarrow> None | Some y \<Rightarrow> flip_run fs y)"

definition taken :: "flip list \<Rightarrow> string list" where
  "taken fs = concat (map (\<lambda>f. case f of Take a \<Rightarrow> [a] | _ \<Rightarrow> []) fs)"

lemma taken_simps [simp]:
  "taken [] = []" "taken (Take a # fs) = a # taken fs" "taken (Write # fs) = taken fs" "taken (Release # fs) = taken fs"
  by (simp_all add: taken_def)

text \<open>The writes the holder has still to make, and those of all who come after.\<close>

definition finish_flip :: "flipping \<Rightarrow> string series" where
  "finish_flip x =
     (case holder x of
        None \<Rightarrow> pair x
      | Some (a, bs) \<Rightarrow> fold (\<lambda>b. series_set b (if b = a then 1 else 0)) bs (pair x))"

lemma flip_run_finish:
  "flip_run fs x = Some y \<Longrightarrow> finish_flip y = fold set_active_backend (taken fs) (finish_flip x)"
proof (induction fs x rule: flip_run.induct)
  case (2 f fs x)
  then obtain z where z: "flip_step f x = Some z" "flip_run fs z = Some y" by (auto split: option.splits)
  have "finish_flip z = fold set_active_backend (taken [f]) (finish_flip x)"
    using z(1) by (cases f) (auto simp: finish_flip_def set_active_backend_def split: if_splits option.splits list.splits)
  moreover have "taken (f # fs) = taken [f] @ taken fs" by (simp add: taken_def)
  ultimately show ?case using 2(1) [OF z] by simp
qed simp

lemma one_hot_fold: "as \<noteq> [] \<Longrightarrow> last as \<in> set backends \<Longrightarrow> one_hot (last as) (fold set_active_backend as g)"
  by (induction as arbitrary: g rule: rev_induct) (simp_all add: one_hot_set_active)

text \<open>
  Racing flips cannot leave both backends active or none: whatever the interleaving of the steps of
  \<open>SetActiveBackend\<close>, whenever nobody holds the mutex exactly one backend is active, that of the
  last call to take it.
\<close>

theorem flips_serialized:
  assumes "flip_run fs \<lparr>pair = g, holder = None\<rparr> = Some x" and "holder x = None"
    and "taken fs \<noteq> []" and "last (taken fs) \<in> set backends"
  shows "pair x = fold set_active_backend (taken fs) g \<and> one_hot (last (taken fs)) (pair x)"
proof -
  have "pair x = fold set_active_backend (taken fs) g"
    using flip_run_finish [OF assms(1)] assms(2) by (simp add: finish_flip_def)
  then show ?thesis using one_hot_fold [OF assms(3,4)] by simp
qed

text \<open>Two callers; the second one waits while the first one writes.\<close>

definition two_flips :: "flip list" where
  "two_flips = [Take ''memory'', Write, Write, Release, Take ''redis'', Write, Write, Release]"

theorem flips_serialized_witness:
  "\<exists>x. flip_run two_flips \<lparr>pair = [], holder = None\<rparr> = Some x \<and> one_hot ''redis'' (pair x)"
proof -
  have "\<exists>x. flip_run two_flips \<lparr>pair = [], holder = None\<rparr> = Some x \<and> holder x = None"
    by (simp add: two_flips_def backends_def)
  then obtain x where x: "flip_run two_flips \<lparr>pair = [], holder = None\<rparr> = Some x" "holder x = None" by blast
  have t: "last (taken two_flips) = ''redis''" by (simp add: two_flips_def)
  have "taken two_flips \<noteq> []" "last (taken two_flips) \<in> set backends" by (simp_all add: two_flips_def backends_def)
  from flips_serialized [OF x this] x(1) show ?thesis unfolding t by blast
qed

end
