(* ===== verification/Redis.thy ===== *)
theory Redis
  imports Memory Breaker Scripts Metrics
begin

text \<open>
  The redis backend, \<open>internal/limiter/redis.go\<close>, and \<open>New\<close> of \<open>limiter.go\<close>. What the
  client library does is the parameter \<open>server\<close> of a call: what running a script with its key and
  arguments returns, or the error. The breaker's and the fallback's clock readings come with the
  call. One call of \<open>Allow\<close> is modelled as a whole here; \<open>Instances\<close> cuts it at its critical
  sections and lets the calls of many instances interleave.
\<close>

section \<open>The code\<close>

datatype lua = FixedWindowLua | TokenBucketLua | SlidingWindowLua

datatype arg = ArgInt int | ArgNonce string

record script_call =
  lua_script :: lua
  lua_key :: string
  lua_args :: "arg list"

record script_entry =
  script :: lua
  quota_from :: "limit \<Rightarrow> int"
  args_from :: "limit \<Rightarrow> int \<Rightarrow> string \<Rightarrow> arg list"

definition scripts :: "string \<Rightarrow> script_entry option" where
  "scripts a =
     (if a = algo_fixed_window then
        Some \<lparr>script = FixedWindowLua, quota_from = rate,
          args_from = (\<lambda>l win nonce. [ArgInt (rate l), ArgInt win])\<rparr>
      else if a = algo_token_bucket then
        Some \<lparr>script = TokenBucketLua, quota_from = burst,
          args_from = (\<lambda>l win nonce. [ArgInt (burst l), ArgInt (rate l), ArgInt win])\<rparr>
      else if a = algo_sliding_window then
        Some \<lparr>script = SlidingWindowLua, quota_from = rate,
          args_from = (\<lambda>l win nonce. [ArgInt (rate l), ArgInt win, ArgNonce nonce])\<rparr>
      else None)"

record redis_limiter =
  breaker_of :: breaker
  fallback :: "memory option"
  backend_gauge :: "string series"

record redis_call =
  admit_at :: gotime
  record_at :: gotime
  fallback_at :: gotime
  nonce :: string
  server :: "script_call \<Rightarrow> call_error + reply"

definition new_redis_limiter :: "redis_cfg \<Rightarrow> string series \<Rightarrow> redis_limiter" where
  "new_redis_limiter cfg g =
     \<lparr>breaker_of = new_breaker,
      fallback = (if on_error cfg = on_error_degrade then Some new_memory_limiter else None),
      backend_gauge = set_active_backend backend_redis g\<rparr>"

text \<open>
  What the client is built with: one second for each of dialling, reading and writing, and no
  retries of its own, so that a call reaches the server at most once.
\<close>

definition redis_dial_timeout :: duration where "redis_dial_timeout = second"
definition redis_read_timeout :: duration where "redis_read_timeout = second"
definition redis_write_timeout :: duration where "redis_write_timeout = second"

record client_options =
  server_addr :: string
  client_dial_timeout :: duration
  client_read_timeout :: duration
  client_write_timeout :: duration
  client_max_retries :: int

definition client_options_for :: "redis_cfg \<Rightarrow> client_options" where
  "client_options_for cfg =
     \<lparr>server_addr = addr cfg, client_dial_timeout = redis_dial_timeout, client_read_timeout = redis_read_timeout,
      client_write_timeout = redis_write_timeout, client_max_retries = - 1\<rparr>"

text \<open>The eager loads of the scripts at boot, in some order of the map: a failure is only warned about.
  \<open>fetch\<close> is what loading the script of an algorithm comes to.\<close>

fun load_scripts :: "(string \<Rightarrow> call_error option) \<Rightarrow> string list \<Rightarrow> (string \<times> call_error) list" where
  "load_scripts fetch [] = []"
| "load_scripts fetch (a # as) =
     (case fetch a of
        Some e \<Rightarrow> (a, e) # load_scripts fetch as
      | None \<Rightarrow> load_scripts fetch as)"

text \<open>The whole constructor: the limiter, the client's options and the warnings. It has no error.\<close>

definition build_redis_limiter :: "redis_cfg \<Rightarrow> string series \<Rightarrow> (string \<Rightarrow> call_error option) \<Rightarrow> string list \<Rightarrow>
    redis_limiter \<times> client_options \<times> (string \<times> call_error) list" where
  "build_redis_limiter cfg g fetch order =
     (new_redis_limiter cfg g, client_options_for cfg, load_scripts fetch order)"

definition decision_from_reply :: "reply \<Rightarrow> int \<Rightarrow> answer" where
  "decision_from_reply vals n =
     (case vals of
        [a, rem, rst, ret] \<Rightarrow>
          Inr \<lparr>allowed = a = 1, quota = n, remaining = rem, reset = unix_micro rst,
            retry_after = wrap64 (ret * microsecond), degraded = False\<rparr>
      | _ \<Rightarrow> Inl (ReplyLength (length vals)))"

definition script_call_for :: "script_entry \<Rightarrow> string \<Rightarrow> limit \<Rightarrow> string \<Rightarrow> script_call" where
  "script_call_for entry key l nc =
     \<lparr>lua_script = script entry, lua_key = ''turnike:'' @ algorithm l @ '':'' @ key,
      lua_args = args_from entry l (window l sdiv microsecond) nc\<rparr>"

definition redis_fallback :: "nat \<Rightarrow> (float64 \<Rightarrow> int) \<Rightarrow> redis_limiter \<Rightarrow> memory \<Rightarrow> gotime \<Rightarrow> string \<Rightarrow> limit \<Rightarrow>
    (redis_limiter \<times> answer) option" where
  "redis_fallback mk oor r m now key l =
     (case memory_allow mk oor m now key l of
        None \<Rightarrow> None
      | Some (m', Inl e) \<Rightarrow> Some (r\<lparr>fallback := Some m'\<rparr>, Inl e)
      | Some (m', Inr d) \<Rightarrow>
          Some (r\<lparr>fallback := Some m', backend_gauge := set_active_backend backend_memory (backend_gauge r)\<rparr>,
                Inr (d\<lparr>degraded := True\<rparr>)))"

definition redis_allow :: "nat \<Rightarrow> (float64 \<Rightarrow> int) \<Rightarrow> (redis_limiter, redis_call) allow" where
  "redis_allow mk oor r c key l =
     (case scripts (algorithm l) of
        None \<Rightarrow> Some (r, Inl (NoScriptFor (algorithm l)))
      | Some entry \<Rightarrow>
          if window l sdiv microsecond \<le> 0 then Some (r, Inl (WindowBelowMicro (window l)))
          else
            (case breaker_do (admit_at c) (record_at c) (server c (script_call_for entry key l (nonce c))) (breaker_of r) of
               (b, Inl e) \<Rightarrow>
                 (case fallback r of
                    Some m \<Rightarrow>
                      if \<not> neutral e then redis_fallback mk oor (r\<lparr>breaker_of := b\<rparr>) m (fallback_at c) key l
                      else Some (r\<lparr>breaker_of := b\<rparr>, Inl (RedisFailed (algorithm l) e))
                  | None \<Rightarrow> Some (r\<lparr>breaker_of := b\<rparr>, Inl (RedisFailed (algorithm l) e)))
             | (b, Inr vals) \<Rightarrow>
                 Some (r\<lparr>breaker_of := b, backend_gauge := set_active_backend backend_redis (backend_gauge r)\<rparr>,
                       decision_from_reply vals (quota_from entry l))))"

text \<open>\<open>New\<close>, with the backend gauge it is given.\<close>

datatype backend_limiter = MemoryBackend memory "string series" | RedisBackend redis_limiter

definition new_limiter :: "limiter_cfg \<Rightarrow> string series \<Rightarrow> string + backend_limiter" where
  "new_limiter cfg g =
     (if backend cfg = backend_memory then
        Inr (MemoryBackend new_memory_limiter (set_active_backend backend_memory g))
      else if backend cfg = backend_redis then Inr (RedisBackend (new_redis_limiter (redis cfg) g))
      else Inl (''limiter: unknown backend '' @ backend cfg))"

section \<open>Calls that reach redis\<close>

definition whole_micros :: "limit \<Rightarrow> bool" where
  "whole_micros l \<longleftrightarrow> microsecond \<le> window l"

lemma serves_window: "serves l \<Longrightarrow> 0 < window l \<and> in_int64 (window l) \<and> 0 < rate l"
  by (auto simp: serves_def serves_fixed_def serves_sliding_def serves_token_def)

lemma serves_algos: "serves l \<Longrightarrow> algorithm l \<in> {algo_fixed_window, algo_token_bucket, algo_sliding_window}"
  by (auto simp: serves_def serves_algorithm)

lemma micros_pos: "serves l \<Longrightarrow> window l sdiv microsecond \<le> 0 \<longleftrightarrow> \<not> whole_micros l"
  using serves_window [of l] by (auto simp: sdiv_pos microsecond_def whole_micros_def pos_imp_zdiv_pos_iff not_le not_less)

lemma scripts_serves:
  assumes "serves l"
  obtains entry where "scripts (algorithm l) = Some entry" and "quota_from entry l = limit_quota l"
  using serves_algos [OF assms] by (auto simp: scripts_def limit_quota_def)

lemma scripts_known: "scripts a \<noteq> None \<longleftrightarrow> a \<in> {algo_fixed_window, algo_token_bucket, algo_sliding_window}"
  by (auto simp: scripts_def)

lemma decision_from_reply_ok:
  assumes "reply_ok n vals"
  shows "\<exists>d. decision_from_reply vals n = Inr d \<and> decision_ok n d \<and> \<not> degraded d \<and> (allowed d \<longleftrightarrow> hd vals = 1)"
  using assms
  by (auto simp: reply_ok_def decision_from_reply_def decision_ok_def microsecond_def wrap64_def)

text \<open>What one call does: refused before redis, decided by redis, or failed.\<close>

lemma redis_allow_cases:
  assumes "serves l"
  obtains (small) "\<not> whole_micros l" "redis_allow mk oor r c k l = Some (r, Inl (WindowBelowMicro (window l)))"
  | (answered) vals b where "whole_micros l"
      "server c (script_call_for (the (scripts (algorithm l))) k l (nonce c)) = Inr vals"
      "breaker_do (admit_at c) (record_at c) (Inr vals) (breaker_of r) = (b, Inr vals)"
      "redis_allow mk oor r c k l = Some (r\<lparr>breaker_of := b,
          backend_gauge := set_active_backend backend_redis (backend_gauge r)\<rparr>, decision_from_reply vals (limit_quota l))"
  | (failed) e b where "whole_micros l"
      "breaker_do (admit_at c) (record_at c) (server c (script_call_for (the (scripts (algorithm l))) k l (nonce c)))
         (breaker_of r) = (b, Inl e)"
      "fallback r = None \<or> neutral e"
      "redis_allow mk oor r c k l = Some (r\<lparr>breaker_of := b\<rparr>, Inl (RedisFailed (algorithm l) e))"
  | (degrade) e b m where "whole_micros l"
      "breaker_do (admit_at c) (record_at c) (server c (script_call_for (the (scripts (algorithm l))) k l (nonce c)))
         (breaker_of r) = (b, Inl e)"
      "fallback r = Some m" "\<not> neutral e"
      "redis_allow mk oor r c k l = redis_fallback mk oor (r\<lparr>breaker_of := b\<rparr>) m (fallback_at c) k l"
proof -
  obtain entry where e: "scripts (algorithm l) = Some entry" "quota_from entry l = limit_quota l"
    using scripts_serves [OF assms] .
  let ?a = "server c (script_call_for entry k l (nonce c))"
  show ?thesis
  proof (cases "whole_micros l")
    case False
    then show ?thesis using small micros_pos [OF assms] by (simp add: redis_allow_def e)
  next
    case True
    obtain b q where d: "breaker_do (admit_at c) (record_at c) ?a (breaker_of r) = (b, q)" by fastforce
    show ?thesis
    proof (cases q)
      case (Inr vals)
      have "?a = Inr vals" by (rule bg.not_invented [OF d [unfolded Inr]])
      then show ?thesis
        using answered [OF True] d Inr True micros_pos [OF assms] e by (simp add: redis_allow_def)
    next
      case (Inl x)
      show ?thesis
      proof (cases "fallback r = None \<or> neutral x")
        case True
        then show ?thesis
          using failed [OF \<open>whole_micros l\<close>, of b x] d Inl \<open>whole_micros l\<close> micros_pos [OF assms] e
          by (cases "fallback r") (auto simp: redis_allow_def)
      next
        case False
        then show ?thesis
          using degrade [OF \<open>whole_micros l\<close>, of b x] d Inl \<open>whole_micros l\<close> micros_pos [OF assms] e
          by (auto simp: redis_allow_def)
      qed
    qed
  qed
qed

section \<open>The limiter's contract\<close>

definition redis_inv :: "nat \<Rightarrow> (string \<Rightarrow> limit) \<Rightarrow> redis_limiter \<Rightarrow> bool" where
  "redis_inv mk plan r \<longleftrightarrow> breaker_inv (breaker_of r) \<and>
     (case fallback r of None \<Rightarrow> True | Some m \<Rightarrow> memory_inv mk plan m) \<and>
     (\<exists>a. one_hot a (backend_gauge r))"

text \<open>What redis may answer: an error, or what the script of the limit promises to reply.\<close>

definition redis_good :: "(string \<Rightarrow> limit) \<Rightarrow> redis_call \<Rightarrow> string \<Rightarrow> limit \<Rightarrow> bool" where
  "redis_good plan c k l \<longleftrightarrow> planned plan c k l \<and>
     (\<forall>q vals. server c q = Inr vals \<longrightarrow> reply_ok (limit_quota l) vals)"

lemma redis_fallback_cases:
  assumes "memory_inv mk plan m" and "planned plan t k l"
  obtains (full) "redis_fallback mk oor r m t k l = Some (r\<lparr>fallback := Some m\<rparr>, Inl (AtCapacity mk))"
      "memory_allow mk oor m t k l = Some (m, Inl (AtCapacity mk))"
  | (decided) m' d where "memory_allow mk oor m t k l = Some (m', Inr d)" "decision_ok (limit_quota l) d"
      "memory_inv mk plan m'"
      "redis_fallback mk oor r m t k l = Some (r\<lparr>fallback := Some m',
          backend_gauge := set_active_backend backend_memory (backend_gauge r)\<rparr>, Inr (d\<lparr>degraded := True\<rparr>))"
proof (rule memory_allow_cases [OF assms, of oor], goal_cases full' step')
  case full'
  then show ?thesis using full by (simp add: redis_fallback_def)
next
  case (step' b d b')
  let ?m = "AList.update (state_key (algorithm l) k) b' m"
  have "decision_ok (limit_quota l) d" "memory_inv mk plan ?m"
    by (rule ml.allow_decision [OF assms step'(6)], rule ml.allow_inv [OF assms step'(6)])
  then show ?thesis using decided step'(6) by (simp add: redis_fallback_def)
qed

lemma decision_ok_degraded [simp]: "decision_ok n (d\<lparr>degraded := x\<rparr>) = decision_ok n d"
  by (simp add: decision_ok_def)

lemma backend_known [simp]: "backend_redis \<in> set backends" "backend_memory \<in> set backends"
  by (simp_all add: backend_defs backends_def)

interpretation rl: limiter "redis_allow mk oor" "redis_inv mk plan" "redis_good plan" for mk oor plan
proof
  fix r c k l r' a d
  assume i: "redis_inv mk plan r" and g: "redis_good plan c k l"
  have p: "planned plan (t :: gotime) k l" and s: "serves l" for t
    using g by (auto simp: redis_good_def planned_def)
  have hot: "\<exists>a. one_hot a (set_active_backend b x)" if "b \<in> set backends" for b x
    using one_hot_set_active that by blast
  have m: "memory_inv mk plan m" if "fallback r = Some m" for m
    using i that by (simp add: redis_inv_def)
  have bi: "breaker_inv b" if "breaker_do t u q (breaker_of r) = (b, x)" for t u q b and x :: "call_error + reply"
    using bg.supervise_inv that i by (auto simp: redis_inv_def)
  show "redis_allow mk oor r c k l \<noteq> None"
  proof (rule redis_allow_cases [OF s, of mk oor r c k])
    fix m e b
    assume "redis_allow mk oor r c k l = redis_fallback mk oor (r\<lparr>breaker_of := b\<rparr>) m (fallback_at c) k l"
      and "fallback r = Some m"
    then show ?thesis
      by (rule_tac redis_fallback_cases [OF m p, of m oor "r\<lparr>breaker_of := b\<rparr>" "fallback_at c"]) auto
  qed simp_all
  show "redis_inv mk plan r'" if "redis_allow mk oor r c k l = Some (r', a)"
  proof (rule redis_allow_cases [OF s, of mk oor r c k], goal_cases)
    case 1
    then show ?case using that i by simp
  next
    case (2 vals b)
    then show ?case using that i bi hot by (auto simp: redis_inv_def)
  next
    case (3 e b)
    then show ?case using that i bi by (auto simp: redis_inv_def)
  next
    case (4 e b m')
    have b: "breaker_inv b" using bi 4 by blast
    show ?case
      by (rule redis_fallback_cases [OF m [OF 4(3)] p, of oor "r\<lparr>breaker_of := b\<rparr>" "fallback_at c"])
        (use that 4 i b hot in \<open>auto simp: redis_inv_def\<close>)
  qed
  show "decision_ok (limit_quota l) d" if "redis_allow mk oor r c k l = Some (r', Inr d)"
  proof (rule redis_allow_cases [OF s, of mk oor r c k], goal_cases)
    case (2 vals b)
    then have "reply_ok (limit_quota l) vals" using g by (auto simp: redis_good_def)
    from decision_from_reply_ok [OF this] show ?case using 2 that by auto
  next
    case (4 e b m')
    show ?case
      by (rule redis_fallback_cases [OF m [OF 4(3)] p, of oor "r\<lparr>breaker_of := b\<rparr>" "fallback_at c"])
        (use that 4 in auto)
  qed (use that in simp_all)
qed

lemma redis_inv_new: "redis_inv mk plan (new_redis_limiter cfg g)"
  using one_hot_set_active [OF backend_known(1)] breaker_inv_new memory_inv_new
  by (auto simp: redis_inv_def new_redis_limiter_def)

section \<open>The configured limiter\<close>

text \<open>The call of \<open>Allow\<close> through the interface; the in-memory backend reads the clock once, as the
  fallback does.\<close>

definition backend_allow :: "nat \<Rightarrow> (float64 \<Rightarrow> int) \<Rightarrow> (backend_limiter, redis_call) allow" where
  "backend_allow mk oor b c k l =
     (case b of
        MemoryBackend m g \<Rightarrow> map_option (\<lambda>(m', a). (MemoryBackend m' g, a)) (memory_allow mk oor m (fallback_at c) k l)
      | RedisBackend r \<Rightarrow> map_option (\<lambda>(r', a). (RedisBackend r', a)) (redis_allow mk oor r c k l))"

lemma backend_allow_simps [simp]:
  "backend_allow mk oor (MemoryBackend m g) c k l =
     map_option (\<lambda>(m', a). (MemoryBackend m' g, a)) (memory_allow mk oor m (fallback_at c) k l)"
  "backend_allow mk oor (RedisBackend r) c k l = map_option (\<lambda>(r', a). (RedisBackend r', a)) (redis_allow mk oor r c k l)"
  by (simp_all add: backend_allow_def)

definition backend_inv :: "nat \<Rightarrow> (string \<Rightarrow> limit) \<Rightarrow> backend_limiter \<Rightarrow> bool" where
  "backend_inv mk plan b =
     (case b of
        MemoryBackend m g \<Rightarrow> memory_inv mk plan m \<and> one_hot backend_memory g
      | RedisBackend r \<Rightarrow> redis_inv mk plan r)"

lemma redis_good_planned: "redis_good plan c k l \<Longrightarrow> planned plan t k l"
  by (simp add: redis_good_def planned_def)

interpretation bl: limiter "backend_allow mk oor" "backend_inv mk plan" "redis_good plan" for mk oor plan
proof
  fix b c k l b' a d
  assume i: "backend_inv mk plan b" and g: "redis_good plan c k l"
  note p = redis_good_planned [OF g, of "fallback_at c"]
  show "backend_allow mk oor b c k l \<noteq> None"
    using i ml.allow_returns [of mk plan _ "fallback_at c" k l oor] p rl.allow_returns [of mk plan _ c k l oor] g
    by (cases b) (auto simp: backend_inv_def)
  show "backend_inv mk plan b'" if "backend_allow mk oor b c k l = Some (b', a)"
    using i that ml.allow_inv [OF _ p] rl.allow_inv [OF _ g]
    by (cases b) (auto simp: backend_inv_def)
  show "decision_ok (limit_quota l) d" if "backend_allow mk oor b c k l = Some (b', Inr d)"
    using i that ml.allow_decision [OF _ p] rl.allow_decision [OF _ g]
    by (cases b) (auto simp: backend_inv_def)
qed

lemma new_limiter_inv: "new_limiter cfg g = Inr b \<Longrightarrow> backend_inv mk plan b"
  using memory_inv_new redis_inv_new one_hot_set_active [OF backend_known(2)]
  by (auto simp: new_limiter_def backend_inv_def split: if_splits)

lemma backend_run_kind:
  "allow_all (backend_allow mk oor) b cs = Some (b', as) \<Longrightarrow>
     (\<exists>m g. b = MemoryBackend m g) = (\<exists>m g. b' = MemoryBackend m g)"
proof (induction cs arbitrary: b as)
  case (Cons q cs)
  obtain c k l where q: "q = (c, k, l)" by (cases q) auto
  then obtain b1 a bs where "backend_allow mk oor b c k l = Some (b1, a)"
    and "allow_all (backend_allow mk oor) b1 cs = Some (b', bs)"
    using Cons.prems unfolding q allow_all_Cons by blast
  then show ?case
    using Cons.IH [of b1 bs] by (cases b; cases b1) auto
qed simp

section \<open>Degrading\<close>

definition outage_call :: "redis_call \<Rightarrow> bool" where
  "outage_call c \<longleftrightarrow> (\<forall>q. \<exists>e. server c q = Inl e \<and> \<not> neutral e)"

definition degrade_answer :: "answer \<Rightarrow> answer" where
  "degrade_answer a = (case a of Inl e \<Rightarrow> Inl e | Inr d \<Rightarrow> Inr (d\<lparr>degraded := True\<rparr>))"

definition fallback_calls :: "(redis_call \<times> string \<times> limit) list \<Rightarrow> (gotime \<times> string \<times> limit) list" where
  "fallback_calls rs = map (\<lambda>(c, k, l). (fallback_at c, k, l)) rs"

lemma backend_memory_run:
  "allow_all (backend_allow mk oor) (MemoryBackend m g) cs =
     map_option (\<lambda>(m', as). (MemoryBackend m' g, as)) (allow_all (memory_allow mk oor) m (fallback_calls cs))"
proof (induction cs arbitrary: m)
  case (Cons q cs)
  obtain c k l where q: "q = (c, k, l)" by (cases q) auto
  show ?case
    using Cons.IH by (simp add: q fallback_calls_def split: option.split)
qed (simp add: fallback_calls_def)

lemma redis_fallback_memory:
  "redis_fallback mk oor r m t k l = Some (r', a) \<Longrightarrow>
     \<exists>m' b. memory_allow mk oor m t k l = Some (m', b) \<and> a = degrade_answer b \<and> fallback r' = Some m'"
proof -
  assume a: "redis_fallback mk oor r m t k l = Some (r', a)"
  then obtain m' b where "memory_allow mk oor m t k l = Some (m', b)"
    by (auto simp: redis_fallback_def split: option.splits)
  with a show ?thesis by (cases b) (auto simp: redis_fallback_def degrade_answer_def)
qed

lemma outage_falls_back:
  assumes "outage_call c" and "serves l" and "whole_micros l" and "fallback r = Some m"
    and "redis_allow mk oor r c k l = Some (r', a)"
  shows "\<exists>m' b. memory_allow mk oor m (fallback_at c) k l = Some (m', b) \<and> a = degrade_answer b \<and> fallback r' = Some m'"
proof (rule redis_allow_cases [OF assms(2), of mk oor r c k], goal_cases)
  case (2 vals b)
  then show ?case using assms(1) unfolding outage_call_def by (metis Inl_Inr_False)
next
  case (3 e b)
  have "\<not> neutral e"
  proof
    assume n: "neutral e"
    from bg.neutral_is_own [OF 3(2) n] n show False using assms(1)
      unfolding outage_call_def by (metis sum.inject(1))
  qed
  then show ?case using 3 assms(4) by simp
next
  case (4 e b m0)
  then show ?case using assms(4,5) redis_fallback_memory by fastforce
qed (use assms(3) in simp)

lemma outage_run:
  assumes "\<forall>(c, k, l) \<in> set rs. outage_call c \<and> serves l \<and> whole_micros l" and "fallback r = Some m"
    and "allow_all (redis_allow mk oor) r rs = Some (r', as)"
  shows "\<exists>m' bs. allow_all (memory_allow mk oor) m (fallback_calls rs) = Some (m', bs) \<and>
    as = map degrade_answer bs \<and> fallback r' = Some m'"
  using assms
proof (induction rs arbitrary: r m as)
  case (Cons q rs)
  obtain c k l where q: "q = (c, k, l)" by (cases q) auto
  obtain r1 a bs where a: "redis_allow mk oor r c k l = Some (r1, a)"
    and bs: "allow_all (redis_allow mk oor) r1 rs = Some (r', bs)" and as: "as = a # bs"
    using Cons.prems(3) unfolding q allow_all_Cons by blast
  obtain m1 b where m1: "memory_allow mk oor m (fallback_at c) k l = Some (m1, b)" "a = degrade_answer b"
    "fallback r1 = Some m1"
    using outage_falls_back [OF _ _ _ Cons.prems(2) a] Cons.prems(1) by (auto simp: q)
  from Cons.IH [OF _ m1(3) bs] Cons.prems(1) m1 show ?case
    by (auto simp: q as fallback_calls_def)
qed (auto simp: fallback_calls_def)

lemma granted_degrade: "granted (zip ts (map degrade_answer bs)) = granted (zip ts bs)"
proof (induction ts arbitrary: bs)
  case (Cons t ts)
  then show ?case by (cases bs) (auto simp: granted_def degrade_answer_def split: sum.splits)
qed (simp add: granted_def)

lemma answers_for_map: "length bs = length rs \<Longrightarrow> answers_for k rs (map f bs) = map f (answers_for k rs bs)"
proof (induction rs arbitrary: bs)
  case (Cons r rs)
  then show ?case by (cases r; cases bs) auto
qed simp

lemma answers_for_fallback: "answers_for k (fallback_calls rs) as = answers_for k rs as"
proof (induction rs arbitrary: as)
  case (Cons r rs)
  then show ?case by (cases r; cases as) (auto simp: fallback_calls_def answers_for_def)
qed (simp add: fallback_calls_def)

lemma one_instance:
  assumes "\<forall>(c, j, l) \<in> set rs. outage_call c \<and> plan j = l \<and> serves l \<and> whole_micros l"
    and "serves_sliding (plan k)" and "fallback r = Some new_memory_limiter"
    and "\<forall>t \<in> set (asked k (fallback_calls rs)). sliding_coh c (plan k) t"
    and "sorted (map instant (asked k (fallback_calls rs)))"
    and "allow_all (redis_allow mk oor) r rs = Some (r', as)"
  shows "int (length (filter (\<lambda>t. x < instant t \<and> instant t \<le> x + window (plan k))
      (granted (zip (asked k (fallback_calls rs)) (answers_for k rs as))))) \<le> rate (plan k)"
proof -
  obtain m bs where bs: "allow_all (memory_allow mk oor) new_memory_limiter (fallback_calls rs) = Some (m, bs)"
    and as: "as = map degrade_answer bs"
    using outage_run [OF _ assms(3,6)] assms(1) by fastforce
  have len: "length bs = length rs" using allow_all_length [OF bs] by (simp add: fallback_calls_def)
  have P: "\<forall>(t, j, l) \<in> set (fallback_calls rs). plan j = l \<and> serves l"
    using assms(1) by (auto simp: fallback_calls_def)
  from sliding_shared_memory [OF P assms(2,4,5) bs, of x] show ?thesis
    by (simp add: as answers_for_map [OF len] granted_degrade answers_for_fallback)
qed

section \<open>The quota the instances share\<close>

text \<open>The answers all instances give from the replies to a sequence of calls on one key.\<close>

definition script_window :: "limit \<Rightarrow> int" where
  "script_window l = window l sdiv microsecond"

text \<open>The range in which the scripts' arithmetic on whole numbers is exact in doubles.\<close>

definition lua_exact :: "limit \<Rightarrow> int list \<Rightarrow> bool" where
  "lua_exact l ts \<longleftrightarrow> rate l \<le> 2 ^ 52 \<and> burst l \<le> 2 ^ 52 \<and> script_window l \<le> 2 ^ 52 \<and> (\<forall>t \<in> set ts. 0 \<le> t \<and> t \<le> 2 ^ 52)"

text \<open>A bucket that fills within the range as well, so that the end of its refill is exact too.\<close>

definition token_sized :: "limit \<Rightarrow> bool" where
  "token_sized l \<longleftrightarrow> burst l * script_window l \<le> 2 ^ 52 * rate l"

definition granted_until :: "int \<Rightarrow> answer \<Rightarrow> bool" where
  "granted_until g a = (case a of Inl e \<Rightarrow> False | Inr d \<Rightarrow> allowed d \<and> reset d = unix_micro g)"

lemma unix_micro_eq [simp]: "unix_micro a = unix_micro b \<longleftrightarrow> a = b"
  by (simp add: unix_micro_def)

lemma reply_answer:
  assumes "reply_ok n r"
  shows "granted_until g (decision_from_reply r n) \<longleftrightarrow> hd r = 1 \<and> r ! 2 = g"
    and "(case decision_from_reply r n of Inl e \<Rightarrow> False | Inr d \<Rightarrow> allowed d) \<longleftrightarrow> hd r = 1"
  using assms by (auto simp: reply_ok_def granted_until_def decision_from_reply_def)

lemma script_args:
  "serves_fixed l \<Longrightarrow> whole_micros l \<Longrightarrow> window_ok (rate l, script_window l)"
  "serves_sliding l \<Longrightarrow> whole_micros l \<Longrightarrow> window_ok (rate l, script_window l)"
  "serves_token l \<Longrightarrow> whole_micros l \<Longrightarrow> token_args_ok (burst l, rate l, script_window l)"
  using serves_window [of l] micros_pos [of l] serves_tokenD [of l]
  by (auto simp: window_ok_def token_args_ok_def script_window_def serves_def)

section \<open>Properties\<close>

text \<open>
  C23. The limiter that \<open>New\<close> builds from a validated configuration serves every request: it is
  built, whichever backend is configured, every call returns, decisions have the limit's shape, and
  at every time exactly one backend is marked active, on the memory backend always that one.
\<close>

theorem configured_limiter_serves:
  assumes "config_ok url_parse cfg" and "\<forall>(c, k, l) \<in> set rs. redis_good plan c k l"
  shows "\<exists>b b' as. new_limiter (limiter_of cfg) g = Inr b \<and> allow_all (backend_allow mk oor) b rs = Some (b', as) \<and>
    (\<forall>i < length rs. case as ! i of Inl e \<Rightarrow> True | Inr d \<Rightarrow> decision_ok (limit_quota (snd (snd (rs ! i)))) d) \<and>
    (case b' of MemoryBackend m x \<Rightarrow> backend (limiter_of cfg) = backend_memory \<and> one_hot backend_memory x
     | RedisBackend r \<Rightarrow> backend (limiter_of cfg) = backend_redis \<and> (\<exists>!a. one_hot a (backend_gauge r)))"
proof -
  obtain b where b: "new_limiter (limiter_of cfg) g = Inr b"
    using assms(1) by (auto simp: config_ok_def new_limiter_def)
  note i = new_limiter_inv [OF b, of mk plan]
  obtain b' as where r: "allow_all (backend_allow mk oor) b rs = Some (b', as)" and i': "backend_inv mk plan b'"
    using bl.all_return [where mk = mk and oor = oor, OF i assms(2)] by auto
  have d: "case as ! j of Inl e \<Rightarrow> True | Inr d \<Rightarrow> decision_ok (limit_quota (snd (snd (rs ! j)))) d" if j: "j < length rs" for j
  proof (cases "as ! j")
    case (Inr d)
    obtain c k l where "rs ! j = (c, k, l)" by (cases "rs ! j") auto
    then show ?thesis using bl.all_decisions [OF i assms(2) r j Inr] Inr by simp
  qed simp
  have "case b' of MemoryBackend m x \<Rightarrow> backend (limiter_of cfg) = backend_memory \<and> one_hot backend_memory x
     | RedisBackend r \<Rightarrow> backend (limiter_of cfg) = backend_redis \<and> (\<exists>!a. one_hot a (backend_gauge r))"
    using i' backend_run_kind [OF r] b one_hot_unique
    by (auto simp: backend_inv_def redis_inv_def new_limiter_def split: backend_limiter.splits if_splits)
  with b r d show ?thesis by blast
qed

text \<open>
  C9. Under degrade an outage is invisible to the quota logic: while every redis call fails for a
  reason other than a hang-up, the answers are exactly those of one in-memory limiter fed the same
  requests, marked as degraded, whether the circuit is open or closed meanwhile.
\<close>

theorem degrade_refines_memory:
  assumes "\<forall>(c, k, l) \<in> set rs. outage_call c \<and> serves l \<and> whole_micros l" and "fallback r = Some m"
    and "allow_all (redis_allow mk oor) r rs = Some (r', as)"
  shows "\<exists>m' bs. allow_all (memory_allow mk oor) m (fallback_calls rs) = Some (m', bs) \<and>
    as = map degrade_answer bs \<and> fallback r' = Some m'"
  by (rule outage_run [OF assms])

text \<open>
  What an outage costs in accuracy under degrade: with \<open>N\<close> instances, each cut off from redis
  and each on its own clock, a sliding-window key has at most \<open>N\<close> times its rate granted in any
  intervals of one window's length, one per instance.
\<close>

theorem degrade_bounded_by_instances:
  assumes "\<forall>(rs, as, x) \<in> set insts.
      (\<forall>(c, j, l) \<in> set rs. outage_call c \<and> plan j = l \<and> serves l \<and> whole_micros l) \<and>
      (\<forall>t \<in> set (asked k (fallback_calls rs)). sliding_coh True (plan k) t) \<and>
      sorted (map instant (asked k (fallback_calls rs))) \<and>
      (\<exists>r. allow_all (redis_allow mk oor) (new_redis_limiter cfg g) rs = Some (r, as))"
    and "serves_sliding (plan k)" and "on_error cfg = on_error_degrade"
  shows "(\<Sum>(rs, as, x) \<leftarrow> insts. int (length (filter (\<lambda>t. x < instant t \<and> instant t \<le> x + window (plan k))
      (granted (zip (asked k (fallback_calls rs)) (answers_for k rs as))))))
    \<le> int (length insts) * rate (plan k)"
  using assms(1)
proof (induction insts)
  case (Cons i insts)
  obtain rs as x where i: "i = (rs, as, x)" by (cases i) auto
  have "fallback (new_redis_limiter cfg g) = Some new_memory_limiter"
    using assms(3) by (simp add: new_redis_limiter_def)
  moreover obtain r where "allow_all (redis_allow mk oor) (new_redis_limiter cfg g) rs = Some (r, as)"
    using Cons.prems by (auto simp: i)
  ultimately have "int (length (filter (\<lambda>t. x < instant t \<and> instant t \<le> x + window (plan k))
      (granted (zip (asked k (fallback_calls rs)) (answers_for k rs as))))) \<le> rate (plan k)"
    using Cons.prems by (intro one_instance [where k = k and plan = plan, OF _ assms(2)]) (auto simp: i)
  moreover have "int (length (i # insts)) * rate (plan k) = int (length insts) * rate (plan k) + rate (plan k)"
    by (simp add: algebra_simps)
  ultimately show ?case using Cons.IH Cons.prems by (simp add: i)
qed simp

text \<open>
  With the circuit closed, a reply of redis is relayed as it is: the decision carries the
  reply's verdict, remainder, reset and wait (microseconds become nanoseconds) and the configured
  quota, the failure count is cleared and redis is marked the active backend.
\<close>

theorem redis_relays_reply:
  assumes "serves l" and "whole_micros l" and "state (breaker_of r) = Closed"
    and "server c (script_call_for (the (scripts (algorithm l))) k l (nonce c)) = Inr [a, rem, rst, ret]"
    and "in_int64 (ret * 1000)"
  shows "\<exists>r'. redis_allow mk oor r c k l = Some (r', Inr \<lparr>allowed = a = 1, quota = limit_quota l, remaining = rem,
      reset = \<lparr>wall = unix_epoch + rst * 1000, mono = None\<rparr>, retry_after = ret * 1000, degraded = False\<rparr>) \<and>
    one_hot backend_redis (backend_gauge r') \<and> state (breaker_of r') = Closed \<and> failures (breaker_of r') = 0"
proof (rule redis_allow_cases [OF assms(1), of mk oor r c k], goal_cases)
  case (2 vals b)
  have "wrap64 (ret * microsecond) = ret * 1000" using assms(5) by (simp add: microsecond_def wrap64_id)
  moreover have "b = record_result (record_at c) None (breaker_of r)"
    using 2(3) assms(3) by (simp add: breaker_do_def admit_def call_error_of_def)
  moreover have "vals = [a, rem, rst, ret]" using 2(2) assms(4) by simp
  ultimately show ?case
    using 2(4) assms(3) one_hot_set_active [OF backend_known(1)]
    by (simp add: decision_from_reply_def unix_micro_def record_result_def)
qed (use assms in \<open>auto simp: breaker_do_def admit_def\<close>)

text \<open>
  C37. A caller that hangs up proves nothing: whenever the circuit lets a call through to redis, as an
  ordinary call or as the probe after the cooldown, and it ends in \<open>context.Canceled\<close>, the call
  returns that error and the limiter is exactly as before: no failure is counted or forgotten, the
  next caller can probe at once, the fallback is not asked under any policy, and the gauge stays.
\<close>

theorem redis_hang_up_changes_nothing:
  assumes "serves l" and "whole_micros l" and "breaker_inv (breaker_of r)"
    and "snd (admit (admit_at c) (breaker_of r)) = None"
    and "server c (script_call_for (the (scripts (algorithm l))) k l (nonce c)) = Inl Canceled"
  shows "redis_allow mk oor r c k l = Some (r, Inl (RedisFailed (algorithm l) Canceled))"
proof -
  have "breaker_do (admit_at c) (record_at c) (Inl Canceled) (breaker_of r) = (breaker_of r, Inl Canceled :: call_error + reply)"
    using assms(3,4)
    by (rule_tac admit_cases [where t = "admit_at c" and b = "breaker_of r"])
      (auto simp: breaker_do_def call_error_of_def record_result_def neutral_def breaker_inv_def set_state_def)
  then show ?thesis
    by (rule_tac redis_allow_cases [OF assms(1), of mk oor r c k]) (use assms(2,5) in \<open>auto simp: neutral_def\<close>)
qed

text \<open>
  C39. A limit whose window is below a microsecond passes the validation but is never enforced on
  the redis backend: every call errors before the breaker and before the degrade fallback, which
  is there to answer exactly when redis cannot, and the state does not change.
\<close>

theorem sub_microsecond_window_never_limits:
  assumes "limit_ok l" and "window l < microsecond"
  shows "redis_allow mk oor r c k l = Some (r, Inl (WindowBelowMicro (window l)))"
proof -
  have "window l sdiv microsecond \<le> 0"
    using assms by (simp add: limit_ok_def sdiv_pos microsecond_def)
  moreover have "scripts (algorithm l) \<noteq> None"
    unfolding scripts_known using limit_ok_algorithm [OF assms(1)] by blast
  ultimately show ?thesis by (auto simp: redis_allow_def)
qed

section \<open>Witnesses\<close>

definition demo_cfg :: redis_cfg where
  "demo_cfg = \<lparr>addr = ''redis:6379'', on_error = on_error_degrade\<rparr>"

definition healthy_call :: "int \<Rightarrow> redis_call" where
  "healthy_call t = \<lparr>admit_at = process_time t, record_at = process_time t, fallback_at = process_time t,
     nonce = ''00000000deadbeef'', server = (\<lambda>q. Inr [1, 2, 1700000010000000, 0])\<rparr>"

definition refused_call :: "int \<Rightarrow> redis_call" where
  "refused_call t = \<lparr>admit_at = process_time t, record_at = process_time t, fallback_at = process_time t,
     nonce = ''00000000deadbeef'', server = (\<lambda>q. Inl (CallFailed ''connection refused''))\<rparr>"

definition hung_up_call :: redis_call where
  "hung_up_call = (refused_call 0)\<lparr>server := (\<lambda>q. Inl Canceled)\<rparr>"

lemma search_serves: "serves search_limit" "whole_micros search_limit"
  by (simp_all add: serves_def search_limit_serves whole_micros_def microsecond_def)

lemma auth_serves: "serves auth_limit" "whole_micros auth_limit"
  by (simp_all add: serves_def auth_limit_serves whole_micros_def microsecond_def)

lemma auth_burst: "burst auth_limit = 0" "burst search_limit = 0"
  by (simp_all add: auth_limit_def search_limit_def)

definition outage_calls :: "(redis_call \<times> string \<times> limit) list" where
  "outage_calls = map (\<lambda>t. (refused_call t, ''/search:ip:::1'', search_limit)) [100, 200, 300, 400, 500, 600, 700]"

definition outage_result :: "redis_limiter \<times> answer list" where
  "outage_result = the (allow_all (redis_allow 2 no_range) (new_redis_limiter demo_cfg []) outage_calls)"

lemma refused_outage: "outage_call (refused_call t)"
  by (simp add: outage_call_def refused_call_def neutral_def)

lemma outage_calls_ok:
  "\<forall>(c, k, l) \<in> set outage_calls. outage_call c \<and> serves l \<and> whole_micros l"
  "\<forall>(c, k, l) \<in> set outage_calls. outage_call c \<and> search_limit = l \<and> serves l \<and> whole_micros l"
  by (auto simp: outage_calls_def refused_outage search_serves)

lemma new_redis_inv: "redis_inv mk plan (new_redis_limiter cfg g)"
  using one_hot_set_active [OF backend_known(1)] breaker_inv_new memory_inv_new
  by (auto simp: redis_inv_def new_redis_limiter_def)

lemma outage_returns:
  "allow_all (redis_allow 2 no_range) (new_redis_limiter demo_cfg []) outage_calls
     = Some (fst outage_result, snd outage_result)"
proof -
  have "\<forall>(c, k, l) \<in> set outage_calls. redis_good (\<lambda>k. search_limit) c k l"
    by (auto simp: outage_calls_def redis_good_def planned_def search_serves refused_call_def)
  from rl.all_return [OF new_redis_inv this, of 2 no_range demo_cfg "[]"] show ?thesis
    by (auto simp: outage_result_def)
qed

lemma demo_fallback: "fallback (new_redis_limiter demo_cfg g) = Some new_memory_limiter"
  by (simp add: new_redis_limiter_def demo_cfg_def)

theorem configured_limiter_serves_witness:
  "\<exists>b. new_limiter (limiter_of (apply_defaults example_config)) [] = Inr b"
proof -
  have "config_ok example_url_parser (apply_defaults example_config)"
    using example_parses by (simp add: parse_Inr)
  moreover have "\<forall>(c, k, l) \<in> set [(refused_call 100, ''/auth:ip:::1'', auth_limit)]. redis_good demo_plan c k l"
    by (simp add: redis_good_def planned_def demo_plan_def auth_serves refused_call_def)
  ultimately show ?thesis using configured_limiter_serves [where mk = 2 and oor = no_range and g = "[]"] by blast
qed

theorem degrade_refines_memory_witness:
  "\<exists>m bs. allow_all (memory_allow 2 no_range) new_memory_limiter (fallback_calls outage_calls) = Some (m, bs) \<and>
    snd outage_result = map degrade_answer bs \<and> fallback (fst outage_result) = Some m"
  by (rule degrade_refines_memory [OF outage_calls_ok(1) demo_fallback outage_returns])

definition two_instances :: "((redis_call \<times> string \<times> limit) list \<times> answer list \<times> int) list" where
  "two_instances = [(outage_calls, snd outage_result, 100), (outage_calls, snd outage_result, 0)]"

theorem degrade_bounded_by_instances_witness:
  "(\<Sum>(rs, as, x) \<leftarrow> two_instances.
      int (length (filter (\<lambda>t. x < instant t \<and> instant t \<le> x + window search_limit)
        (granted (zip (asked ''/search:ip:::1'' (fallback_calls rs)) (answers_for ''/search:ip:::1'' rs as))))))
    \<le> int (length two_instances) * 5"
proof -
  have c: "\<forall>t \<in> set (asked ''/search:ip:::1'' (fallback_calls outage_calls)). sliding_coh True search_limit t"
    "sorted (map instant (asked ''/search:ip:::1'' (fallback_calls outage_calls)))"
    by (auto simp: outage_calls_def fallback_calls_def refused_call_def process_time_coh)
  have "\<forall>(rs, as, x) \<in> set two_instances.
      (\<forall>(c, j, l) \<in> set rs. outage_call c \<and> search_limit = l \<and> serves l \<and> whole_micros l) \<and>
      (\<forall>t \<in> set (asked ''/search:ip:::1'' (fallback_calls rs)). sliding_coh True search_limit t) \<and>
      sorted (map instant (asked ''/search:ip:::1'' (fallback_calls rs))) \<and>
      (\<exists>r. allow_all (redis_allow 2 no_range) (new_redis_limiter demo_cfg []) rs = Some (r, as))"
    using c outage_calls_ok(2) outage_returns by (auto simp: two_instances_def intro!: exI [of _ "fst outage_result"])
  from degrade_bounded_by_instances [where plan = "\<lambda>k. search_limit", OF this search_limit_serves]
  have "on_error demo_cfg = on_error_degrade \<Longrightarrow> ?thesis" by (simp only: search_limit_fields)
  then show ?thesis by (simp add: demo_cfg_def)
qed

theorem redis_relays_reply_witness:
  "\<exists>r d. redis_allow 2 no_range (new_redis_limiter demo_cfg []) (healthy_call 100) ''/search:ip:::1'' search_limit
      = Some (r, Inr d) \<and> allowed d \<and> remaining d = 2 \<and> one_hot backend_redis (backend_gauge r)"
proof -
  have "server (healthy_call 100) q = Inr [1, 2, 1700000010000000, 0]" for q by (simp add: healthy_call_def)
  moreover have "state (breaker_of (new_redis_limiter demo_cfg [])) = Closed" by (simp add: new_redis_limiter_def)
  ultimately show ?thesis
    using redis_relays_reply [OF search_serves, of "new_redis_limiter demo_cfg []" "healthy_call 100"
        "''/search:ip:::1''" 1 2 1700000010000000 0 2 no_range]
    by (auto simp: in_int64_def int64_min_def int64_max_def)
qed

definition tripped :: redis_limiter where
  "tripped = (new_redis_limiter demo_cfg [])\<lparr>breaker_of :=
     \<lparr>state = Open, failures = 5, opened_at = process_time 0, gauge = state_code Open\<rparr>\<rparr>"

theorem redis_hang_up_changes_nothing_witness:
  "redis_allow 2 no_range tripped (hung_up_call\<lparr>admit_at := process_time (breaker_cooldown + 1)\<rparr>)
     ''/search:ip:::1'' search_limit = Some (tripped, Inl (RedisFailed algo_sliding_window Canceled))"
proof -
  let ?c = "hung_up_call\<lparr>admit_at := process_time (breaker_cooldown + 1)\<rparr>"
  have b: "breaker_of tripped = \<lparr>state = Open, failures = 5, opened_at = process_time 0, gauge = state_code Open\<rparr>"
    by (simp add: tripped_def)
  have "breaker_inv (breaker_of tripped)" by (simp add: b breaker_inv_def failure_threshold_def)
  moreover have "snd (admit (admit_at ?c) (breaker_of tripped)) = None" unfolding b by code_simp
  moreover have "server ?c q = Inl Canceled" for q by (simp add: hung_up_call_def)
  ultimately show ?thesis
    using redis_hang_up_changes_nothing [OF search_serves, of tripped ?c "''/search:ip:::1''" 2 no_range]
    by (simp add: search_limit_def)
qed

theorem sub_microsecond_window_never_limits_witness:
  "redis_allow 2 no_range (new_redis_limiter demo_cfg []) (healthy_call 100) ''/auth:ip:::1'' (auth_limit\<lparr>window := 999\<rparr>)
     = Some (new_redis_limiter demo_cfg [], Inl (WindowBelowMicro 999))"
  using sub_microsecond_window_never_limits [of "auth_limit\<lparr>window := 999\<rparr>"]
  by (simp add: limit_ok_def auth_limit_def algo_defs microsecond_def)

end
