(* ===== verification/Hooks.thy ===== *)
theory Hooks
  imports Redis
begin

text \<open>
  The observability hooks of \<open>internal/limiter\<close>: \<open>Instruments\<close> with its defaults, and the calls the
  constructors and \<open>Allow\<close> make on the hooks. Elsewhere the limiter keeps in \<open>gauge\<close> and
  \<open>backend_gauge\<close> what the process's own hooks were given; here this is proved to be what those calls
  leave there, and that the gauges say where the circuit stands and which backend decided last.
\<close>

section \<open>Instruments\<close>

text \<open>A hook acts on some world \<open>'w\<close>; \<open>None\<close> is nil.\<close>

record 'w instruments =
  breaker_hook :: "(int \<Rightarrow> 'w \<Rightarrow> 'w) option"
  backend_hook :: "(string \<Rightarrow> 'w \<Rightarrow> 'w) option"

definition nop_gauge :: "int \<Rightarrow> 'w \<Rightarrow> 'w" where "nop_gauge v x = x"
definition nop_backend :: "string \<Rightarrow> 'w \<Rightarrow> 'w" where "nop_backend active x = x"

definition instruments_defaults :: "'w instruments \<Rightarrow> 'w instruments" where
  "instruments_defaults ins =
     (let ins1 = (if breaker_hook ins = None then ins\<lparr>breaker_hook := Some nop_gauge\<rparr> else ins)
      in if backend_hook ins1 = None then ins1\<lparr>backend_hook := Some nop_backend\<rparr> else ins1)"

datatype hook_call = SetBreaker int | SetBackend string

definition call_hook :: "'w instruments \<Rightarrow> hook_call \<Rightarrow> 'w \<Rightarrow> 'w" where
  "call_hook ins c x =
     (case c of SetBreaker v \<Rightarrow> the (breaker_hook ins) v x | SetBackend a \<Rightarrow> the (backend_hook ins) a x)"

definition call_hooks :: "'w instruments \<Rightarrow> hook_call list \<Rightarrow> 'w \<Rightarrow> 'w" where
  "call_hooks ins cs x = fold (call_hook (instruments_defaults ins)) cs x"

lemma call_hooks_simps [simp]:
  "call_hooks ins [] x = x" "call_hooks ins (cs @ ds) x = call_hooks ins ds (call_hooks ins cs x)"
  by (simp_all add: call_hooks_def)

section \<open>The calls\<close>

text \<open>\<open>New\<close> and \<open>NewRedisLimiter\<close>: \<open>newBreaker\<close> shows the closed state first.\<close>

definition new_limiter_calls :: "limiter_cfg \<Rightarrow> hook_call list" where
  "new_limiter_calls cfg =
     (if backend cfg = backend_memory then [SetBackend backend_memory]
      else if backend cfg = backend_redis then [SetBreaker (state_code Closed), SetBackend backend_redis]
      else [])"

text \<open>\<open>setState\<close> in \<open>admit\<close> and in \<open>record\<close>.\<close>

definition admit_calls :: "gotime \<Rightarrow> breaker \<Rightarrow> hook_call list" where
  "admit_calls now b =
     (case state b of
        Open \<Rightarrow> if time_sub now (opened_at b) < breaker_cooldown then [] else [SetBreaker (state_code HalfOpen)]
      | HalfOpen \<Rightarrow> []
      | Closed \<Rightarrow> [])"

definition record_calls :: "call_error option \<Rightarrow> breaker \<Rightarrow> hook_call list" where
  "record_calls r b =
     (case state b of
        Closed \<Rightarrow>
          (case r of
             None \<Rightarrow> []
           | Some e \<Rightarrow>
               if \<not> neutral e \<and> failure_threshold \<le> wrap64 (failures b + 1) then [SetBreaker (state_code Open)] else [])
      | HalfOpen \<Rightarrow> [SetBreaker (state_code (if r = None then Closed else Open))]
      | Open \<Rightarrow> [])"

definition breaker_do_calls :: "gotime \<Rightarrow> gotime \<Rightarrow> call_error + 'a \<Rightarrow> breaker \<Rightarrow> hook_call list" where
  "breaker_do_calls t u r b =
     (case admit t b of
        (b1, Some e) \<Rightarrow> admit_calls t b
      | (b1, None) \<Rightarrow> admit_calls t b @ record_calls (call_error_of r) b1)"

text \<open>\<open>Allow\<close> sets the backend when a decision has been made, not on an error.\<close>

definition allow_calls :: "nat \<Rightarrow> (float64 \<Rightarrow> int) \<Rightarrow> redis_limiter \<Rightarrow> redis_call \<Rightarrow> string \<Rightarrow> limit \<Rightarrow> hook_call list" where
  "allow_calls mk oor r c key l =
     (case scripts (algorithm l) of
        None \<Rightarrow> []
      | Some entry \<Rightarrow>
          if window l sdiv microsecond \<le> 0 then []
          else
            (let q = server c (script_call_for entry key l (nonce c)) in
             breaker_do_calls (admit_at c) (record_at c) q (breaker_of r) @
             (case breaker_do (admit_at c) (record_at c) q (breaker_of r) of
                (b, Inr vals) \<Rightarrow> [SetBackend backend_redis]
              | (b, Inl e) \<Rightarrow>
                  (case fallback r of
                     None \<Rightarrow> []
                   | Some m \<Rightarrow>
                       if neutral e then []
                       else (case memory_allow mk oor m (fallback_at c) key l of
                               Some (m', Inr d) \<Rightarrow> [SetBackend backend_memory]
                             | _ \<Rightarrow> [])))))"

text \<open>A limiter with hooks: what it does is \<open>redis_allow\<close>, and its hooks see the calls.\<close>

fun hooked_run :: "nat \<Rightarrow> (float64 \<Rightarrow> int) \<Rightarrow> 'w instruments \<Rightarrow> redis_limiter \<Rightarrow> 'w \<Rightarrow> (redis_call \<times> string \<times> limit) list \<Rightarrow>
    (redis_limiter \<times> 'w \<times> answer list) option" where
  "hooked_run mk oor ins r x [] = Some (r, x, [])"
| "hooked_run mk oor ins r x ((c, k, l) # cs) =
     (case redis_allow mk oor r c k l of
        None \<Rightarrow> None
      | Some (r', a) \<Rightarrow>
          map_option (\<lambda>(r'', x', as). (r'', x', a # as))
            (hooked_run mk oor ins r' (call_hooks ins (allow_calls mk oor r c k l) x) cs))"

section \<open>The gauges are what the calls leave\<close>

text \<open>The process's hooks: the breaker's gauge and the pair of backend gauges.\<close>

definition process_hooks :: "(int \<times> string series) instruments" where
  "process_hooks = \<lparr>breaker_hook = Some (\<lambda>v (g, s). (v, s)), backend_hook = Some (\<lambda>a (g, s). (g, set_active_backend a s))\<rparr>"

definition shown :: "redis_limiter \<Rightarrow> int \<times> string series" where
  "shown r = (gauge (breaker_of r), backend_gauge r)"

lemma process_hook_simps [simp]:
  "call_hooks process_hooks [SetBreaker v] (g, s) = (v, s)"
  "call_hooks process_hooks [SetBackend a] (g, s) = (g, set_active_backend a s)"
  by (simp_all add: call_hooks_def call_hook_def instruments_defaults_def process_hooks_def)

lemma admit_shown: "admit t b = (b', e) \<Longrightarrow> call_hooks process_hooks (admit_calls t b) (gauge b, s) = (gauge b', s)"
  by (auto simp: admit_def admit_calls_def split: bstate.splits if_splits)

lemma record_shown: "call_hooks process_hooks (record_calls q b) (gauge b, s) = (gauge (record_result t q b), s)"
  by (auto simp: record_result_def record_calls_def Let_def split: bstate.split option.split)

lemma do_shown:
  assumes "breaker_do t u q b = (b', z)"
  shows "call_hooks process_hooks (breaker_do_calls t u q b) (gauge b, s) = (gauge b', s)"
  using assms admit_shown [of t b] record_shown
  by (auto simp: breaker_do_def breaker_do_calls_def split: prod.splits option.splits)

lemma allow_shown:
  assumes "redis_allow mk oor r c k l = Some (r', a)"
  shows "call_hooks process_hooks (allow_calls mk oor r c k l) (shown r) = shown r'"
proof (cases "scripts (algorithm l) = None \<or> window l sdiv microsecond \<le> 0")
  case True
  then show ?thesis using assms by (auto simp: redis_allow_def allow_calls_def split: option.splits)
next
  case False
  then obtain entry where e: "scripts (algorithm l) = Some entry" by auto
  let ?q = "server c (script_call_for entry k l (nonce c))"
  obtain b z where d: "breaker_do (admit_at c) (record_at c) ?q (breaker_of r) = (b, z)" by fastforce
  have "call_hooks process_hooks (breaker_do_calls (admit_at c) (record_at c) ?q (breaker_of r)) (shown r)
      = (gauge b, backend_gauge r)"
    unfolding shown_def by (rule do_shown [OF d])
  then show ?thesis
    using assms False
    by (auto simp: allow_calls_def redis_allow_def e d shown_def redis_fallback_def
        split: sum.splits option.splits if_splits prod.splits)
qed

section \<open>What the gauges mean\<close>

text \<open>
  The backend that decided last, \<open>b\<close> before the first decision: the memory if it was the fallback's,
  else redis; redis also when its reply could not be read. Other errors are nobody's decision.
\<close>

definition decided_by :: "string \<Rightarrow> answer \<Rightarrow> string" where
  "decided_by b a =
     (case a of
        Inr d \<Rightarrow> if degraded d then backend_memory else backend_redis
      | Inl (ReplyLength n) \<Rightarrow> backend_redis
      | Inl e \<Rightarrow> b)"

lemma memory_error: "memory_allow mk oor m t k l = Some (m', Inl e) \<Longrightarrow> decided_by b (Inl e) = b"
  by (auto simp: memory_allow_def memory_step_def Let_def decided_by_def split: option.splits if_splits prod.splits)

lemma fallback_decides:
  assumes "redis_fallback mk oor r m t k l = Some (r', a)" and "one_hot b (backend_gauge r)"
  shows "breaker_of r' = breaker_of r \<and> one_hot (decided_by b a) (backend_gauge r')"
proof (cases "memory_allow mk oor m t k l")
  case (Some p)
  obtain m' q where p: "p = (m', q)" by (cases p)
  show ?thesis
  proof (cases q)
    case (Inl e)
    have "decided_by b (Inl e) = b" using memory_error Some by (simp add: p Inl)
    then show ?thesis using assms Some by (auto simp: redis_fallback_def p Inl)
  next
    case (Inr d)
    then show ?thesis using assms Some one_hot_set_active [OF backend_known(2)]
      by (auto simp: redis_fallback_def p decided_by_def)
  qed
qed (use assms(1) in \<open>simp add: redis_fallback_def\<close>)

lemma allow_decides:
  assumes "redis_allow mk oor r c k l = Some (r', a)" and "breaker_inv (breaker_of r)" and "one_hot b (backend_gauge r)"
  shows "breaker_inv (breaker_of r') \<and> one_hot (decided_by b a) (backend_gauge r')"
proof (cases "scripts (algorithm l) = None \<or> window l sdiv microsecond \<le> 0")
  case True
  then show ?thesis using assms by (auto simp: redis_allow_def decided_by_def split: option.splits)
next
  case False
  then obtain entry where e: "scripts (algorithm l) = Some entry" by auto
  let ?q = "server c (script_call_for entry k l (nonce c))"
  obtain b1 z where d: "breaker_do (admit_at c) (record_at c) ?q (breaker_of r) = (b1, z)" by fastforce
  have i: "breaker_inv b1" using bg.supervise_inv [OF assms(2) d] .
  show ?thesis
  proof (cases z)
    case (Inr vals)
    then show ?thesis
      using assms(1) False i one_hot_set_active [OF backend_known(1)]
      by (auto simp: redis_allow_def e d decision_from_reply_def decided_by_def split: list.splits)
  next
    case (Inl err)
    then show ?thesis
      using assms(1,3) False i fallback_decides [of mk oor "r\<lparr>breaker_of := b1\<rparr>" _ "fallback_at c" k l r' a b]
      by (auto simp: redis_allow_def e d decided_by_def split: option.splits if_splits)
  qed
qed

section \<open>Properties\<close>

text \<open>
  The process's hooks end up with exactly what the limiter keeps as its gauges; a limiter without
  hooks leaves the world alone.
\<close>

lemma gauges_shown:
  assumes "hooked_run mk oor process_hooks r (shown r) cs = Some (r', x, as)"
  shows "x = shown r'"
  using assms
proof (induction cs arbitrary: r as)
  case (Cons y cs)
  obtain c k l where y: "y = (c, k, l)" by (cases y) auto
  with Cons.prems obtain r1 a bs where one: "redis_allow mk oor r c k l = Some (r1, a)"
    and rest: "hooked_run mk oor process_hooks r1 (call_hooks process_hooks (allow_calls mk oor r c k l) (shown r)) cs = Some (r', x, bs)"
    by (auto split: option.splits)
  show ?case using Cons.IH [OF rest [unfolded allow_shown [OF one]]] .
qed simp

lemma nil_hooks_do_nothing:
  "call_hooks \<lparr>breaker_hook = None, backend_hook = None\<rparr> cs x = x"
proof -
  have nop: "call_hook (instruments_defaults \<lparr>breaker_hook = None, backend_hook = None\<rparr>) c x = x" for c x
    by (cases c) (simp_all add: call_hook_def instruments_defaults_def nop_gauge_def nop_backend_def)
  show ?thesis by (induction cs arbitrary: x) (simp_all add: call_hooks_def nop)
qed

text \<open>The constructors' calls leave what the new limiter keeps.\<close>

lemma new_limiter_shown:
  "new_limiter cfg g = Inr (RedisBackend r) \<Longrightarrow> call_hooks process_hooks (new_limiter_calls cfg) (v, g) = shown r"
  "new_limiter cfg g = Inr (MemoryBackend m g') \<Longrightarrow> call_hooks process_hooks (new_limiter_calls cfg) (v, g) = (v, g')"
  by (auto simp: new_limiter_def new_limiter_calls_def shown_def new_redis_limiter_def new_breaker_def
      backend_memory_def backend_redis_def call_hooks_def call_hook_def instruments_defaults_def process_hooks_def split: if_splits)

lemma hooked_decides:
  assumes "hooked_run mk oor ins r x cs = Some (r', x', as)" and "breaker_inv (breaker_of r)" and "one_hot b (backend_gauge r)"
  shows "breaker_inv (breaker_of r') \<and> one_hot (foldl decided_by b as) (backend_gauge r')"
  using assms
proof (induction cs arbitrary: r x b as)
  case (Cons y cs)
  obtain c k l where y: "y = (c, k, l)" by (cases y) auto
  with Cons.prems(1) obtain r1 a bs where one: "redis_allow mk oor r c k l = Some (r1, a)" and as: "as = a # bs"
    and rest: "hooked_run mk oor ins r1 (call_hooks ins (allow_calls mk oor r c k l) x) cs = Some (r', x', bs)"
    by (auto split: option.splits)
  note d = allow_decides [OF one Cons.prems(2,3)]
  show ?case using Cons.IH [OF rest conjunct1 [OF d] conjunct2 [OF d]] by (simp add: as)
qed simp

text \<open>
  C34. The gauges tell the truth: from the construction of the redis backend on, after any calls, the
  process's breaker gauge is the code of the state the circuit is in, and of the pair of backend gauges
  exactly that of the backend that made the last decision is 1: redis at boot, the memory after a
  degraded decision, and unchanged by errors that are nobody's decision.
\<close>

theorem gauges_tell_the_truth:
  assumes "new_limiter cfg g = Inr (RedisBackend r)"
    and "hooked_run mk oor process_hooks r (call_hooks process_hooks (new_limiter_calls cfg) (v, g)) cs = Some (r', (shown_state, shown_backend), as)"
  shows "shown_state = state_code (state (breaker_of r')) \<and>
    one_hot (foldl decided_by backend_redis as) shown_backend"
proof -
  have start: "call_hooks process_hooks (new_limiter_calls cfg) (v, g) = shown r" by (rule new_limiter_shown(1) [OF assms(1)])
  obtain c where r: "r = new_redis_limiter c g" using assms(1) by (auto simp: new_limiter_def split: if_splits)
  have "breaker_inv (breaker_of r)" "one_hot backend_redis (backend_gauge r)"
    using breaker_inv_new one_hot_set_active [OF backend_known(1)] by (simp_all add: r new_redis_limiter_def)
  from hooked_decides [OF assms(2) this] gauges_shown [OF assms(2) [unfolded start]] show ?thesis
    by (simp add: shown_def breaker_inv_def)
qed

section \<open>Witnesses\<close>

text \<open>Six refused calls open the circuit, and a while later a probe is answered, and then one more call hangs up.\<close>

definition one_outage :: "(redis_call \<times> string \<times> limit) list" where
  "one_outage = replicate 6 (refused_call 100, ''/auth:ip:::1'', auth_limit)"

definition recovered :: "(redis_call \<times> string \<times> limit) list" where
  "recovered = one_outage @ [(healthy_call 2000000000, ''/auth:ip:::1'', auth_limit),
     (hung_up_call, ''/auth:ip:::1'', auth_limit)]"

definition hooked_demo :: "(redis_call \<times> string \<times> limit) list \<Rightarrow> (redis_limiter \<times> (int \<times> string series) \<times> answer list) option" where
  "hooked_demo cs = hooked_run 2 no_range process_hooks (new_redis_limiter demo_cfg [])
     (call_hooks process_hooks (new_limiter_calls \<lparr>backend = backend_redis, redis = demo_cfg\<rparr>) (7, [])) cs"

lemma hooked_demo_views:
  "map_option (\<lambda>(r, x, as). (state (breaker_of r), x, foldl decided_by backend_redis as)) (hooked_demo one_outage)
     = Some (Open, (1, [(''redis'', 0), (''memory'', 1)]), backend_memory) \<and>
   map_option (\<lambda>(r, x, as). (state (breaker_of r), x, foldl decided_by backend_redis as)) (hooked_demo recovered)
     = Some (Closed, (0, [(''redis'', 1), (''memory'', 0)]), backend_redis)"
  by code_simp

theorem gauges_tell_the_truth_witness:
  "\<exists>r as. hooked_demo one_outage = Some (r, (1, [(''redis'', 0), (''memory'', 1)]), as) \<and>
     1 = state_code (state (breaker_of r)) \<and> one_hot backend_memory [(''redis'', 0), (''memory'', 1)]"
proof -
  obtain r as where run: "hooked_demo one_outage = Some (r, (1, [(''redis'', 0), (''memory'', 1)]), as)"
    and last: "foldl decided_by backend_redis as = backend_memory"
    using hooked_demo_views by auto
  have "new_limiter \<lparr>backend = backend_redis, redis = demo_cfg\<rparr> [] = Inr (RedisBackend (new_redis_limiter demo_cfg []))"
    by (simp add: new_limiter_def backend_redis_def backend_memory_def)
  from gauges_tell_the_truth [OF this run [unfolded hooked_demo_def]] run last show ?thesis by auto
qed

end
