(* ===== verification/Keyspace.thy ===== *)
theory Keyspace
  imports Redis
begin

text \<open>
  The redis server the instances share, as far as they use it: the keys of the three scripts and
  what one script call does to them. The client's \<open>Run\<close> reaches the server at most once per
  call, as its retries are off; the server keeps its keys until they expire, and a call's visit says
  what the active expiry did to its key before. Keys of different scripts never coincide, since the
  algorithm is part of the key, so each script has its own map.
\<close>

section \<open>The server\<close>

record keyspace =
  window_keys :: "string \<Rightarrow> window_hash entry"
  log_keys :: "string \<Rightarrow> zset entry"
  bucket_keys :: "string \<Rightarrow> token_hash entry"

definition no_keys :: keyspace where
  "no_keys = \<lparr>window_keys = \<lambda>k. None, log_keys = \<lambda>k. None, bucket_keys = \<lambda>k. None\<rparr>"

text \<open>\<open>KEYS[1]\<close> and \<open>ARGV\<close> as the instance sends them; a missing argument is an error of the script.\<close>

definition run_script :: "script_call \<Rightarrow> visit \<Rightarrow> keyspace \<Rightarrow> (call_error + reply) \<times> keyspace" where
  "run_script q vis ks =
     (let k = lua_key q in
      case (lua_script q, lua_args q) of
        (FixedWindowLua, [ArgInt rat, ArgInt win]) \<Rightarrow>
          (case visit_key (fixed_window_script rat win) vis (window_keys ks k) of
             (r, e) \<Rightarrow> (Inr r, ks\<lparr>window_keys := (window_keys ks)(k := e)\<rparr>))
      | (TokenBucketLua, [ArgInt bst, ArgInt rat, ArgInt win]) \<Rightarrow>
          (case visit_key (token_bucket_script bst rat win) vis (bucket_keys ks k) of
             (r, e) \<Rightarrow> (Inr r, ks\<lparr>bucket_keys := (bucket_keys ks)(k := e)\<rparr>))
      | (SlidingWindowLua, [ArgInt rat, ArgInt win, ArgNonce nc]) \<Rightarrow>
          (case visit_key (sliding_window_script rat win nc) vis (log_keys ks k) of
             (r, e) \<Rightarrow> (Inr r, ks\<lparr>log_keys := (log_keys ks)(k := e)\<rparr>))
      | _ \<Rightarrow> (Inl (CallFailed ''ERR user_script''), ks))"

text \<open>The call an instance makes for a limit with a script.\<close>

definition call_for :: "string \<Rightarrow> limit \<Rightarrow> string \<Rightarrow> script_call" where
  "call_for k l nc = script_call_for (the (scripts (algorithm l))) k l nc"

section \<open>The scripts one by one\<close>

definition shared_key :: "limit \<Rightarrow> string \<Rightarrow> string" where
  "shared_key l k = ''turnike:'' @ algorithm l @ '':'' @ k"

lemma lua_key_call_for [simp]: "lua_key (call_for k l nc) = shared_key l k"
  by (simp add: call_for_def script_call_for_def shared_key_def)

lemma shared_key_inj [simp]: "shared_key l k = shared_key l j \<longleftrightarrow> k = j"
  by (simp add: shared_key_def)

lemma call_for_fixed:
  "serves_fixed l \<Longrightarrow> call_for k l nc =
     \<lparr>lua_script = FixedWindowLua, lua_key = shared_key l k, lua_args = [ArgInt (rate l), ArgInt (script_window l)]\<rparr>"
  by (simp add: call_for_def script_call_for_def shared_key_def script_window_def serves_algorithm scripts_def)

lemma call_for_token:
  "serves_token l \<Longrightarrow> call_for k l nc =
     \<lparr>lua_script = TokenBucketLua, lua_key = shared_key l k,
      lua_args = [ArgInt (burst l), ArgInt (rate l), ArgInt (script_window l)]\<rparr>"
  by (simp add: call_for_def script_call_for_def shared_key_def script_window_def serves_algorithm scripts_def algo_defs)

lemma call_for_sliding:
  "serves_sliding l \<Longrightarrow> call_for k l nc =
     \<lparr>lua_script = SlidingWindowLua, lua_key = shared_key l k,
      lua_args = [ArgInt (rate l), ArgInt (script_window l), ArgNonce nc]\<rparr>"
  by (simp add: call_for_def script_call_for_def shared_key_def script_window_def serves_algorithm scripts_def algo_defs)

lemma run_fixed:
  "serves_fixed l \<Longrightarrow> run_script (call_for k l nc) vis ks =
     (case fixed_at (rate l, script_window l) nc vis (window_keys ks (shared_key l k)) of
        (r, e) \<Rightarrow> (Inr r, ks\<lparr>window_keys := (window_keys ks)(shared_key l k := e)\<rparr>))"
  by (simp add: run_script_def Let_def call_for_fixed fixed_at_def)

lemma run_token:
  "serves_token l \<Longrightarrow> run_script (call_for k l nc) vis ks =
     (case token_at (burst l, rate l, script_window l) nc vis (bucket_keys ks (shared_key l k)) of
        (r, e) \<Rightarrow> (Inr r, ks\<lparr>bucket_keys := (bucket_keys ks)(shared_key l k := e)\<rparr>))"
  by (simp add: run_script_def Let_def call_for_token token_at_def)

lemma run_sliding:
  "serves_sliding l \<Longrightarrow> run_script (call_for k l nc) vis ks =
     (case sliding_at (rate l, script_window l) nc vis (log_keys ks (shared_key l k)) of
        (r, e) \<Rightarrow> (Inr r, ks\<lparr>log_keys := (log_keys ks)(shared_key l k := e)\<rparr>))"
  by (simp add: run_script_def Let_def call_for_sliding sliding_at_def)

lemmas run_script_serves = run_fixed run_token run_sliding

text \<open>Calls to different scripts use different keys.\<close>

lemma keys_apart:
  assumes "serves l" and "serves l'" and "lua_script (call_for k l nc) \<noteq> lua_script (call_for k' l' nc')"
  shows "lua_key (call_for k l nc) \<noteq> lua_key (call_for k' l' nc')"
proof
  assume "lua_key (call_for k l nc) = lua_key (call_for k' l' nc')"
  then have "algorithm l @ '':'' @ k = algorithm l' @ '':'' @ k'" by (simp add: shared_key_def)
  from split_colon [OF this no_colon [OF assms(1)] no_colon [OF assms(2)]] show False
    using assms(3) by (simp add: call_for_def script_call_for_def)
qed

section \<open>What every key keeps\<close>

definition keyspace_inv :: "(string \<Rightarrow> limit) \<Rightarrow> keyspace \<Rightarrow> bool" where
  "keyspace_inv plan ks \<longleftrightarrow> (\<forall>k. let l = plan k in
     (serves_fixed l \<longrightarrow> fixed_entry_ok (rate l) (script_window l) (window_keys ks (shared_key l k))) \<and>
     (serves_token l \<longrightarrow> token_entry_ok (burst l) (bucket_keys ks (shared_key l k))) \<and>
     (serves_sliding l \<longrightarrow> sliding_entry_ok (rate l) (log_keys ks (shared_key l k))))"

lemma no_keys_inv: "keyspace_inv plan no_keys"
  by (simp add: keyspace_inv_def no_keys_def fixed_entry_ok_def token_entry_ok_def sliding_entry_ok_def Let_def)

lemma shared_key_eq:
  assumes "serves l" and "serves l'" and "shared_key l k = shared_key l' k'"
  shows "k = k'"
  using split_colon [OF _ no_colon [OF assms(1)] no_colon [OF assms(2)], of k k'] assms(3)
  by (simp add: shared_key_def)

lemma serves_cases:
  assumes "serves l"
  obtains (fixed) "serves_fixed l" | (token) "serves_token l" | (sliding) "serves_sliding l"
  using assms by (auto simp: serves_def)

text \<open>A script call always answers, with a well-formed reply, and keeps every key in order.\<close>

lemma run_script_ok:
  assumes "keyspace_inv plan ks" and "plan k = l" and "serves l" and "whole_micros l"
  shows "\<exists>r ks'. run_script (call_for k l nc) vis ks = (Inr r, ks') \<and> reply_ok (limit_quota l) r \<and> keyspace_inv plan ks'"
proof -
  have other: "shared_key (plan j) j \<noteq> shared_key l k" if "serves (plan j)" "j \<noteq> k" for j
    using shared_key_eq [OF that(1) assms(3)] that(2) by blast
  note sv = serves_def
  from assms(3) show ?thesis
  proof (cases rule: serves_cases)
    case fixed
    let ?c = "(rate l, script_window l)"
    obtain r e where re: "fixed_at ?c nc vis (window_keys ks (shared_key l k)) = (r, e)" by fastforce
    have i: "fixed_entry_ok (fst ?c) (snd ?c) (window_keys ks (shared_key l k))"
      using assms(1,2) fixed by (auto simp: keyspace_inv_def Let_def)
    note w = script_args(1) [OF fixed assms(4)]
    have "fixed_entry_ok (rate l) (script_window l) e" "reply_ok (limit_quota l) r"
      using fs.inv_run [OF w i, of nc vis] fs.reply [OF w i, of nc vis] re serves_quota(1) [OF fixed] by simp_all
    then show ?thesis
      using re assms(1,2) other fixed by (auto simp: run_fixed keyspace_inv_def Let_def sv)
  next
    case token
    let ?c = "(burst l, rate l, script_window l)"
    obtain r e where re: "token_at ?c nc vis (bucket_keys ks (shared_key l k)) = (r, e)" by fastforce
    have i: "token_entry_ok (fst ?c) (bucket_keys ks (shared_key l k))"
      using assms(1,2) token by (auto simp: keyspace_inv_def Let_def)
    note w = script_args(3) [OF token assms(4)]
    have "token_entry_ok (burst l) e" "reply_ok (limit_quota l) r"
      using ts.inv_run [OF w i, of nc vis] ts.reply [OF w i, of nc vis] re serves_quota(3) [OF token] by simp_all
    then show ?thesis
      using re assms(1,2) other token by (auto simp: run_token keyspace_inv_def Let_def sv)
  next
    case sliding
    let ?c = "(rate l, script_window l)"
    obtain r e where re: "sliding_at ?c nc vis (log_keys ks (shared_key l k)) = (r, e)" by fastforce
    have i: "sliding_entry_ok (fst ?c) (log_keys ks (shared_key l k))"
      using assms(1,2) sliding by (auto simp: keyspace_inv_def Let_def)
    note w = script_args(2) [OF sliding assms(4)]
    have "sliding_entry_ok (rate l) e" "reply_ok (limit_quota l) r"
      using ss.inv_run [OF w i, of nc vis] ss.reply [OF w i, of nc vis] re serves_quota(2) [OF sliding] by simp_all
    then show ?thesis
      using re assms(1,2) other sliding by (auto simp: run_sliding keyspace_inv_def Let_def sv)
  qed
qed

section \<open>The history of a key\<close>

text \<open>
  What the server promises for the key of a limit with one script: an own call is that script on the
  key's entry, a call for another key leaves the entry alone.
\<close>

locale script_key =
  fixes ok :: "limit \<Rightarrow> bool"
    and run_at :: "limit \<Rightarrow> string \<Rightarrow> 'v served"
    and entry_at :: "limit \<Rightarrow> string \<Rightarrow> keyspace \<Rightarrow> 'v entry"
  assumes fresh: "entry_at l k no_keys = None"
    and own: "ok l \<Longrightarrow> run_script (call_for k l nc) vis ks = (Inr vals, ks') \<Longrightarrow>
      run_at l nc vis (entry_at l k ks) = (vals, entry_at l k ks')"
    and other: "ok l \<Longrightarrow> serves l' \<Longrightarrow> j \<noteq> k \<Longrightarrow> run_script (call_for j l' nc) vis ks = (Inr vals, ks') \<Longrightarrow>
      entry_at l k ks' = entry_at l k ks"

text \<open>A call for another key changes none of the three maps at this one.\<close>

lemma run_script_other:
  assumes "serves l" and "serves l'" and "j \<noteq> k" and "run_script (call_for j l' nc) vis ks = (Inr vals, ks')"
  shows "window_keys ks' (shared_key l k) = window_keys ks (shared_key l k)"
    and "bucket_keys ks' (shared_key l k) = bucket_keys ks (shared_key l k)"
    and "log_keys ks' (shared_key l k) = log_keys ks (shared_key l k)"
proof -
  have ne: "shared_key l' j \<noteq> shared_key l k" using shared_key_eq [OF assms(2,1)] assms(3) by blast
  have "window_keys ks' (shared_key l k) = window_keys ks (shared_key l k) \<and>
    bucket_keys ks' (shared_key l k) = bucket_keys ks (shared_key l k) \<and>
    log_keys ks' (shared_key l k) = log_keys ks (shared_key l k)"
    using assms(2) by (cases rule: serves_cases) (use assms(4) ne in \<open>auto simp: run_script_serves split: prod.splits\<close>)
  then show "window_keys ks' (shared_key l k) = window_keys ks (shared_key l k)"
    "bucket_keys ks' (shared_key l k) = bucket_keys ks (shared_key l k)"
    "log_keys ks' (shared_key l k) = log_keys ks (shared_key l k)" by blast+
qed

lemma serves_any: "serves_fixed l \<Longrightarrow> serves l" "serves_token l \<Longrightarrow> serves l" "serves_sliding l \<Longrightarrow> serves l"
  by (simp_all add: serves_def)

interpretation fk: script_key serves_fixed "\<lambda>l. fixed_at (rate l, script_window l)"
    "\<lambda>l k ks. window_keys ks (shared_key l k)"
  by unfold_locales
    (simp_all add: no_keys_def run_fixed run_script_other(1) [OF serves_any(1)] split: prod.splits, auto)

interpretation tk: script_key serves_token "\<lambda>l. token_at (burst l, rate l, script_window l)"
    "\<lambda>l k ks. bucket_keys ks (shared_key l k)"
  by unfold_locales
    (simp_all add: no_keys_def run_token run_script_other(2) [OF serves_any(2)] split: prod.splits, auto)

interpretation sk: script_key serves_sliding "\<lambda>l. sliding_at (rate l, script_window l)"
    "\<lambda>l k ks. log_keys ks (shared_key l k)"
  by unfold_locales
    (simp_all add: no_keys_def run_sliding run_script_other(3) [OF serves_any(3)] split: prod.splits, auto)

end
