(* ===== verification/Shared_Bucket.thy ===== *)
theory Shared_Bucket
  imports Scripts
begin

text \<open>
  What the token bucket script admits over time, over the doubles of the script's interpreter: the
  tokens of a key are balanced against the exact refill, also when the key expires in between (it is
  kept until it would be full) and when the server's clock steps back.
\<close>

section \<open>The exact refill\<close>

definition script_credit :: "int \<times> int \<times> int \<Rightarrow> int \<Rightarrow> rat" where
  "script_credit c e = of_int (fst (snd c)) * of_int e / of_int (snd (snd c))"

text \<open>The arguments are whole numbers that doubles hold.\<close>

definition exact_args :: "int \<times> int \<times> int \<Rightarrow> bool" where
  "exact_args c \<longleftrightarrow> token_args_ok c \<and> fst (snd c) \<le> 2 ^ 52 \<and> snd (snd c) \<le> 2 ^ 52"

lemma exact_argsD:
  assumes "exact_args c"
  shows "token_args_ok c" and "1 \<le> fst c" and "1 \<le> fst (snd c)" and "1 \<le> snd (snd c)"
    and "i2f (fst c) = of_int (fst c)" and "i2f (fst (snd c)) = of_int (fst (snd c))"
    and "i2f (snd (snd c)) = of_int (snd (snd c))" and "fst (snd c) \<le> 2 ^ 52" and "snd (snd c) \<le> 2 ^ 52"
  using assms by (auto simp: exact_args_def token_args_ok_def intro!: i2f_exact)

lemma script_credit_0 [simp]: "script_credit c 0 = 0"
  by (simp add: script_credit_def)

lemma script_credit_add: "script_credit c a + script_credit c b = script_credit c (a + b)"
  by (simp add: script_credit_def add_divide_distrib distrib_left)

lemma script_credit_mono: "exact_args c \<Longrightarrow> a \<le> b \<Longrightarrow> script_credit c a \<le> script_credit c b"
  using exact_argsD(3,4) [of c] by (auto simp: script_credit_def intro!: divide_right_mono mult_left_mono)

definition per_micro :: "int \<times> int \<times> int \<Rightarrow> float64" where
  "per_micro c = fdiv (i2f (fst (snd c))) (i2f (snd (snd c)))"

text \<open>\<open>rate/window\<close> as the script has it, between its exact value and one rounding more.\<close>

lemma per_micro_bounds:
  assumes "exact_args c"
  shows "per_micro c \<le> of_int (fst (snd c)) / of_int (snd (snd c)) * (1 + ulp_half)"
    and "0 < per_micro c" and "per_micro c \<le> 2 ^ 53"
proof -
  note a = exact_argsD [OF assms]
  let ?r = "of_int (fst (snd c)) / of_int (snd (snd c)) :: rat"
  have w: "1 \<le> (of_int (snd (snd c)) :: rat)" "(of_int (snd (snd c)) :: rat) \<le> 2 ^ 52"
    and r: "1 \<le> (of_int (fst (snd c)) :: rat)" "(of_int (fst (snd c)) :: rat) \<le> 2 ^ 52"
    using a(3,4,8,9) of_int_le_iff [where ?'a = rat, of "snd (snd c)" "2 ^ 52"]
      of_int_le_iff [where ?'a = rat, of "fst (snd c)" "2 ^ 52"] by simp_all
  have "1 / 2 ^ 52 \<le> ?r" using w r by (intro frac_le) auto
  then have t: "tiny \<le> ?r" "0 < ?r" by (auto intro: tiny_le order_trans [of _ "1 / 2 ^ 52"] less_le_trans [of _ "1 / 2 ^ 52"])
  have p: "per_micro c = fl ?r" by (simp add: per_micro_def fdiv_def a(6,7))
  show u: "per_micro c \<le> ?r * (1 + ulp_half)" unfolding p by (rule fl_normal(1) [OF t(1)])
  have "0 < ?r * (1 - ulp_half)" by (rule mult_pos_pos [OF t(2)]) simp
  then show "0 < per_micro c" using fl_normal(2) [OF t(1)] by (simp add: p)
  have "?r \<le> 2 ^ 52 / 1" using w r by (intro frac_le) auto
  then have "?r * (1 + ulp_half) \<le> 2 ^ 52 * 2" by (intro mult_mono) (simp_all add: ulp_half_def)
  then show "per_micro c \<le> 2 ^ 53" using u by simp
qed

section \<open>The refill of a live key\<close>

lemma script_slack_bound: "(1 + ulp_half) ^ 2 \<le> credit_slack" "(1 + ulp_half) / (1 - ulp_half) ^ 3 \<le> credit_slack"
  unfolding ulp_half_def credit_slack_def by code_simp+

lemma refill_gain:
  assumes a: "exact_args c" and "0 \<le> t" and "0 < e" and "e \<le> 2 ^ 53"
  shows "min (i2f (fst c)) (fadd t (fmul (i2f e) (per_micro c)))
    \<le> t + script_credit c e * credit_slack + of_int (fst c) / 2 ^ 52"
proof -
  note b = exact_argsD [OF a] and p = per_micro_bounds [OF a]
  define r where "r = (of_int (fst (snd c)) / of_int (snd (snd c)) :: rat)"
  have e: "i2f e = of_int e" "(0 :: rat) \<le> of_int e" using assms(3,4) by (auto intro: i2f_exact)
  have r: "0 \<le> r" using b(3,4) by (simp add: r_def)
  have p0: "0 \<le> of_int e * per_micro c" using e p(2) by simp
  have "of_int e * per_micro c * (1 + ulp_half) \<le> of_int e * (r * (1 + ulp_half)) * (1 + ulp_half)"
    using p(1) e by (intro mult_right_mono mult_left_mono) (auto simp: r_def)
  also have "\<dots> = of_int e * r * (1 + ulp_half) ^ 2" by (simp add: power2_eq_square)
  also have "\<dots> \<le> of_int e * r * credit_slack"
    using e r script_slack_bound(1) by (intro mult_left_mono) auto
  also have "of_int e * r = script_credit c e" by (simp add: r_def script_credit_def)
  finally have f: "fl (of_int e * per_micro c) \<le> script_credit c e * credit_slack + tiny"
    using fl_upper [OF p0] by linarith
  have "1 \<le> (of_int (fst c) :: rat)" using b(2) by simp
  moreover have "0 \<le> t + fl (of_int e * per_micro c)" using assms(2) fl_nonneg [OF p0] by simp
  ultimately have "min (of_int (fst c)) (fl (t + fl (of_int e * per_micro c))) + tiny
      \<le> t + fl (of_int e * per_micro c) + of_int (fst c) / 2 ^ 52" by (rule capped_sum)
  with f show ?thesis by (simp add: fadd_def fmul_def b(5) e(1))
qed

section \<open>A key that has expired\<close>

text \<open>The time a key with \<open>x\<close> tokens is kept, in milliseconds.\<close>

definition kept_for :: "int \<times> int \<times> int \<Rightarrow> float64 \<Rightarrow> int" where
  "kept_for c x = max 1 \<lceil>fdiv (fdiv (fsub (i2f (fst c)) x) (per_micro c)) 1000\<rceil>"

lemma expired_full:
  assumes a: "exact_args c" and "x \<le> of_int (fst c)" and late: "now div 1000 + kept_for c x < now' div 1000"
  shows "of_int (fst c) \<le> x + script_credit c (now' - now) * credit_slack + of_int (fst c) / 2 ^ 52"
proof -
  have "0 < kept_for c x" by (simp add: kept_for_def)
  then have le: "now \<le> now'" using late zdiv_mono1 [of now' now 1000] by linarith
  then have credit: "0 \<le> script_credit c (now' - now)"
    using script_credit_mono [OF a, of 0 "now' - now"] by simp
  show ?thesis
  proof (cases "of_int (fst c) - x \<le> 1 / 10 ^ 16")
    case True
    note b = exact_argsD [OF a]
    have "1 \<le> (of_int (fst c) :: rat)" using b(2) by simp
    then have "(1 / 10 ^ 16 :: rat) \<le> of_int (fst c) / 2 ^ 52"
      by (rule order_trans [rotated, OF divide_right_mono]) simp_all
    moreover have "0 \<le> script_credit c (now' - now) * credit_slack"
      using credit by (simp add: credit_slack_def)
    ultimately show ?thesis using True by linarith
  next
    case False
    note b = exact_argsD [OF a] and p = per_micro_bounds [OF a]
    define r where "r = (of_int (fst (snd c)) / of_int (snd (snd c)) :: rat)"
    define D where "D = of_int (fst c) - x"
    define P where "P = per_micro c"
    define k where "k = 1 - ulp_half"
    have k: "0 < k" "1 / 2 \<le> k" by (simp_all add: k_def ulp_half_def)
    have D: "1 / 10 ^ 16 \<le> D" using False by (simp add: D_def)
    have P: "0 < P" "P \<le> r * (1 + ulp_half)" "P \<le> 2 ^ 53" using p by (simp_all add: P_def r_def)
    have t: "tiny \<le> y" if "1 / 10 ^ 40 \<le> y" for y
      by (rule order_trans [OF _ that]) (simp add: tiny_def divide_le_eq)
    have "1 / 10 ^ 40 \<le> D" using D by (rule order_trans [rotated]) simp
    from fl_normal(2) [OF t [OF this]] have d: "D * k \<le> fl D" by (simp add: k_def)
    have "1 / 10 ^ 16 * (1 / 2) \<le> D * k" using D k by (intro mult_mono) auto
    then have fD: "1 / 10 ^ 17 \<le> fl D" using d by (rule order_trans [rotated, OF order_trans]) simp
    have "(1 / 10 ^ 17) / 2 ^ 53 \<le> fl D / P" using fD P by (intro frac_le) auto
    then have q: "1 / 10 ^ 34 \<le> fl D / P" by (rule order_trans [rotated]) simp
    then have "1 / 10 ^ 40 \<le> fl D / P" by (rule order_trans [rotated]) simp
    from fl_normal(2) [OF t [OF this]] have f: "fl D / P * k \<le> fl (fl D / P)" by (simp add: k_def)
    have "0 \<le> fl D / P" using q by (rule order_trans [rotated]) simp
    then have "1 / 10 ^ 34 * (1 / 2) \<le> fl D / P * k" using q k by (intro mult_mono) simp_all
    then have "1 / 10 ^ 35 \<le> fl (fl D / P)" using f by (rule order_trans [rotated, OF order_trans]) simp
    then have "1 / 10 ^ 40 \<le> fl (fl D / P) / 1000" by simp
    from fl_normal(2) [OF t [OF this]]
    have m: "fl (fl D / P) * k \<le> 1000 * fl (fl (fl D / P) / 1000)" by (simp add: k_def)
    have "\<lceil>fl (fl (fl D / P) / 1000)\<rceil> \<le> kept_for c x"
      by (simp add: kept_for_def fdiv_def fsub_def b(5) D_def P_def)
    then have "fl (fl (fl D / P) / 1000) \<le> of_int (kept_for c x)" by (simp add: ceiling_le_iff)
    moreover have "1000 * kept_for c x \<le> now' - now" using late by linarith
    then have "1000 * of_int (kept_for c x) \<le> (of_int (now' - now) :: rat)"
      by (metis of_int_le_iff of_int_mult of_int_numeral)
    ultimately have w: "fl (fl D / P) * k \<le> of_int (now' - now)" using m by linarith
    have "D * k ^ 3 / P = D * k / P * k * k" by (simp add: power3_eq_cube)
    also have "\<dots> \<le> fl D / P * k * k" using d P k by (intro mult_right_mono divide_right_mono) auto
    also have "\<dots> \<le> fl (fl D / P) * k" using f k by (intro mult_right_mono) auto
    finally have "D * k ^ 3 / P \<le> of_int (now' - now)" using w by linarith
    then have "D * k ^ 3 \<le> of_int (now' - now) * P" using P(1) by (simp add: divide_le_eq)
    also have "\<dots> \<le> of_int (now' - now) * (r * (1 + ulp_half))"
      using le by (intro mult_left_mono P(2)) simp
    finally have "D \<le> of_int (now' - now) * r * ((1 + ulp_half) / k ^ 3)"
      using k(1) by (simp add: le_divide_eq mult.assoc)
    also have "of_int (now' - now) * r = script_credit c (now' - now)" by (simp add: r_def script_credit_def)
    also have "script_credit c (now' - now) * ((1 + ulp_half) / k ^ 3) \<le> script_credit c (now' - now) * credit_slack"
      unfolding k_def by (rule mult_left_mono [OF script_slack_bound(2) credit])
    finally have "D \<le> script_credit c (now' - now) * credit_slack" .
    moreover have "0 \<le> (of_int (fst c) :: rat) / 2 ^ 52" using b(2) by simp
    ultimately show ?thesis by (simp add: D_def)
  qed
qed

section \<open>The balance of a key\<close>

text \<open>What rounding can add to the tokens of one call.\<close>

definition call_slack :: "int \<times> int \<times> int \<Rightarrow> rat" where
  "call_slack c = of_int (fst c) / 2 ^ 51"

lemma call_slack_nonneg: "exact_args c \<Longrightarrow> 0 \<le> call_slack c"
  using exact_argsD(2) [of c] by (simp add: call_slack_def)

lemma lua_threshold_lower: "1 - 2 / 10 ^ 9 \<le> lua_threshold"
  by code_simp

abbreviation bucket_script :: "int \<times> int \<times> int \<Rightarrow> token_hash script" where
  "bucket_script c \<equiv> token_bucket_script (fst c) (fst (snd c)) (snd (snd c))"

lemma token_at_eq: "token_at c u vis e = bucket_script c (snd vis) (swept (fst vis) e)"
  by (simp add: token_at_def visit_key_def)

lemma token_call:
  assumes a: "exact_args c" and i: "token_entry_ok (fst c) e"
  obtains v where "snd (bucket_script c now e) = Some (v, now div 1000 + kept_for c (tokens_field v))"
    and "last_field v = last_field (refilled c now e)"
    and "(if hd (fst (bucket_script c now e)) = 1 then admit_cost else 0) + tokens_field v
      \<le> tokens_field (refilled c now e) + call_slack c / 2"
    and "0 \<le> tokens_field v" and "tokens_field v \<le> of_int (fst c)"
proof -
  note b = exact_argsD [OF a] and r = refilled_bounds [OF exact_argsD(1) [OF a] i, of now]
  define x where "x = tokens_field (refilled c now e)"
  define ok where "ok = (lua_threshold \<le> x)"
  define v where "v = \<lparr>tokens_field = (if ok then take_token x else x), last_field = last_field (refilled c now e)\<rparr>"
  have B: "1 \<le> (of_int (fst c) :: rat)" using b(2) by simp
  have "fst c \<le> 2 ^ 53" using b(1) by (simp add: token_args_ok_def)
  note t = take_token_bounds [OF r(2) b(2) this, folded x_def]
  have cost: "(if ok then admit_cost else 0) + tokens_field v \<le> x + call_slack c / 2"
  proof (cases ok)
    case True
    have "1 - 2 / 10 ^ 9 \<le> x" using True lua_threshold_lower by (simp add: ok_def)
    from take_token_price [OF B this] r(2) show ?thesis
      using True by (simp add: v_def x_def call_slack_def admit_cost_def)
  qed (use call_slack_nonneg [OF a] in \<open>simp add: v_def\<close>)
  have "hd (fst (bucket_script c now e)) = 1 \<longleftrightarrow> ok"
    by (simp add: token_script_eq Let_def ok_def x_def)
  moreover have "snd (bucket_script c now e) = Some (v, now div 1000 + kept_for c (tokens_field v))"
    by (simp add: token_script_eq Let_def v_def ok_def x_def pexpire_def pexpireat_def kept_for_def per_micro_def)
  ultimately show ?thesis
    using that [of v] cost t r by (auto simp: v_def x_def split: if_splits)
qed

text \<open>
  The call after another one: \<open>t\<close> is the reading at the call before, and \<open>y\<close> the true time from
  which the refill has yet to be credited. The key may have expired since, found so by the script itself or
  by the sweep before it.
\<close>

lemma next_call:
  fixes sw :: sweep
  assumes a: "exact_args c" and e: "e = Some (v, t div 1000 + kept_for c (tokens_field v))"
    and i: "token_entry_ok (fst c) e"
    and l: "0 \<le> last_field v" "now \<le> 2 ^ 52" and y: "y \<le> x" "now - last_field v \<le> x - y" "now - t \<le> x - y"
    and sw: "case sw of None \<Rightarrow> True | Some (t', z) \<Rightarrow> t' - t \<le> x - y"
  obtains v' y' where "snd (bucket_script c now (swept sw e)) = Some (v', now div 1000 + kept_for c (tokens_field v'))"
    and "y \<le> y'" and "y' \<le> x" and "last_field v' = now \<and> y' = x \<or> last_field v' = last_field v \<and> y' = y"
    and "(if hd (fst (bucket_script c now (swept sw e))) = 1 then admit_cost else 0) + tokens_field v'
      \<le> tokens_field v + script_credit c (y' - y) * credit_slack + call_slack c"
proof -
  have v: "0 \<le> tokens_field v" "tokens_field v \<le> of_int (fst c)" using i by (simp_all add: e token_entry_ok_def)
  have half: "of_int (fst c) / 2 ^ 52 = call_slack c / 2" by (simp add: call_slack_def)
  have mono: "script_credit c d * credit_slack \<le> script_credit c (x - y) * credit_slack" if "d \<le> x - y" for d
    using script_credit_mono [OF a that] by (simp add: credit_slack_def mult_right_mono)
  let ?e = "swept sw e"
  obtain v' where v': "snd (bucket_script c now ?e) = Some (v', now div 1000 + kept_for c (tokens_field v'))"
    "last_field v' = last_field (refilled c now ?e)"
    "(if hd (fst (bucket_script c now ?e)) = 1 then admit_cost else 0) + tokens_field v'
      \<le> tokens_field (refilled c now ?e) + call_slack c / 2"
    by (rule token_call [OF a token_swept [OF i]])
  consider (expired) t' where "t div 1000 + kept_for c (tokens_field v) < t' div 1000" "t' - t \<le> x - y" "live now ?e = None"
    | (older) "live now ?e = Some v" "last_field v < now" | (kept) "live now ?e = Some v" "\<not> last_field v < now"
  proof (cases "?e = e")
    case True
    then show ?thesis using that y(3) unfolding True
      by (cases "t div 1000 + kept_for c (tokens_field v) < now div 1000"; cases "last_field v < now") (auto simp: live_def e)
  next
    case False
    then have "?e = None" using swept_cases by metis
    moreover obtain t' z where "sw = Some (t', z)" "live t' e = None"
      using False by (auto simp: swept_def split: option.splits prod.splits)
    ultimately show ?thesis using that(1) [of t'] sw by (auto simp: live_def e split: if_splits)
  qed
  then show ?thesis
  proof cases
    case expired
    then have "refilled c now ?e = \<lparr>tokens_field = of_int (fst c), last_field = now\<rparr>"
      by (simp add: refilled_def lua_refill_def exact_argsD(5) [OF a])
    with expired_full [OF a v(2) expired(1), unfolded half] mono [OF expired(2)] v' y(1) show ?thesis
      by (intro that [of v' x]) simp_all
  next
    case older
    have "now - last_field v \<le> 2 ^ 53" "0 < now - last_field v" using l older by simp_all
    with refill_gain [OF a v(1), of "now - last_field v", unfolded half] older
    have "tokens_field (refilled c now ?e) \<le> tokens_field v + script_credit c (now - last_field v) * credit_slack + call_slack c / 2"
      "last_field (refilled c now ?e) = now"
      by (simp_all add: refilled_def lua_refill_def per_micro_def)
    with mono [OF y(2)] v' y(1) show ?thesis by (intro that [of v' x]) simp_all
  next
    case kept
    then have "refilled c now ?e = v" by (simp add: refilled_def lua_refill_def)
    with v' y(1) call_slack_nonneg [OF a] show ?thesis by (intro that [of v' y]) simp_all
  qed
qed

section \<open>The balance of a run\<close>

definition bucket_run :: "int \<times> int \<times> int \<Rightarrow> timed_call list \<Rightarrow> token_hash entry \<Rightarrow> (visit \<times> reply) list \<times> token_hash entry" where
  "bucket_run c qs e = script_run (token_at c) (map fst qs) e"

lemma bucket_run_append:
  "bucket_run c (ps @ qs) e =
     (fst (bucket_run c ps e) @ fst (bucket_run c qs (snd (bucket_run c ps e))),
      snd (bucket_run c qs (snd (bucket_run c ps e))))"
  by (simp add: bucket_run_def script_run_append)

lemma bucket_run_one: "bucket_run c [q] e =
    ([(snd (fst q), fst (bucket_script c (clock_at q) (swept (sweep_of q) e)))],
     snd (bucket_script c (clock_at q) (swept (sweep_of q) e)))"
  by (simp add: bucket_run_def token_at_eq clock_at_def sweep_of_def)

text \<open>A key whose reading is one the server's clock can have given.\<close>

definition clocked :: "token_hash entry \<Rightarrow> bool" where
  "clocked e \<longleftrightarrow> (case e of None \<Rightarrow> True | Some (v, px) \<Rightarrow> 0 \<le> last_field v)"

definition readings_ok :: "timed_call list \<Rightarrow> bool" where
  "readings_ok qs \<longleftrightarrow> (\<forall>q \<in> set qs. 0 \<le> clock_at q \<and> clock_at q \<le> 2 ^ 52)"

lemma clocked_swept: "clocked e \<Longrightarrow> clocked (swept sw e)"
  using swept_cases [of sw e] by (auto simp: clocked_def)

lemma refilled_last: "0 \<le> now \<Longrightarrow> clocked e \<Longrightarrow>
    0 \<le> last_field (refilled c now e) \<and> now \<le> last_field (refilled c now e)"
  by (auto simp: clocked_def refilled_def lua_refill_def live_def split: option.splits if_splits prod.splits)

lemma bucket_keeps:
  assumes a: "exact_args c" and "token_entry_ok (fst c) e" and "clocked e" and "readings_ok qs"
  shows "token_entry_ok (fst c) (snd (bucket_run c qs e)) \<and> clocked (snd (bucket_run c qs e))"
  using assms(4)
proof (induction qs rule: rev_induct)
  case Nil
  then show ?case using assms(2,3) by (simp add: bucket_run_def)
next
  case (snoc q qs)
  let ?e = "swept (sweep_of q) (snd (bucket_run c qs e))" and ?now = "clock_at q"
  have IH: "token_entry_ok (fst c) ?e" "clocked ?e" and n: "0 \<le> ?now"
    using snoc by (simp_all add: readings_ok_def token_swept clocked_swept)
  obtain v where "snd (bucket_script c ?now ?e) = Some (v, ?now div 1000 + kept_for c (tokens_field v))"
    "last_field v = last_field (refilled c ?now ?e)" "0 \<le> tokens_field v" "tokens_field v \<le> of_int (fst c)"
    by (rule token_call [OF a IH(1), of ?now])
  then show ?case using refilled_last [OF n IH(2)]
    by (simp add: bucket_run_append bucket_run_one token_entry_ok_def clocked_def)
qed

text \<open>The state after a call, with the true time \<open>y\<close> up to which the refill has been credited.\<close>

definition balanced :: "int \<times> int \<times> int \<Rightarrow> timed_call \<Rightarrow> timed_call list \<Rightarrow> token_hash entry \<Rightarrow> int \<Rightarrow> token_hash \<Rightarrow> bool" where
  "balanced c q0 qs e y v \<longleftrightarrow>
     snd (bucket_run c (q0 # qs) e) = Some (v, clock_at (last (q0 # qs)) div 1000 + kept_for c (tokens_field v)) \<and>
     0 \<le> last_field v \<and> snd q0 \<le> y \<and> y \<le> snd (last (q0 # qs)) \<and>
     (\<forall>q. (\<forall>p \<in> set (q0 # qs). only_loses p q) \<longrightarrow> clock_at q - last_field v \<le> snd q - y) \<and>
     of_nat (length (granted_at (fst (bucket_run c (q0 # qs) e)))) * admit_cost + tokens_field v
       \<le> of_int (fst c) + script_credit c (y - snd q0) * credit_slack + of_nat (length (q0 # qs)) * call_slack c"

lemma balance:
  assumes a: "exact_args c" and "token_entry_ok (fst c) e" and "clocked e" and "readings_ok (q0 # qs)"
    and "sorted_wrt only_loses (q0 # qs)"
  shows "\<exists>y v. balanced c q0 qs e y v"
  using assms(4,5)
proof (induction qs rule: rev_induct)
  case Nil
  let ?now = "clock_at q0" and ?e = "swept (sweep_of q0) e"
  have n: "0 \<le> ?now" using Nil by (simp add: readings_ok_def)
  note i = token_swept [OF assms(2), of "sweep_of q0"]
  obtain v where v: "snd (bucket_script c ?now ?e) = Some (v, ?now div 1000 + kept_for c (tokens_field v))"
    "last_field v = last_field (refilled c ?now ?e)"
    "(if hd (fst (bucket_script c ?now ?e)) = 1 then admit_cost else 0) + tokens_field v
      \<le> tokens_field (refilled c ?now ?e) + call_slack c / 2"
    by (rule token_call [OF a i, of ?now])
  have "tokens_field (refilled c ?now ?e) \<le> of_int (fst c)" by (rule refilled_bounds(2) [OF exact_argsD(1) [OF a] i])
  with v refilled_last [OF n clocked_swept [OF assms(3)], of c "sweep_of q0"] call_slack_nonneg [OF a] have "balanced c q0 [] e (snd q0) v"
    by (auto simp: balanced_def bucket_run_one granted_at_def only_loses_def split: if_splits)
  then show ?case by blast
next
  case (snoc q qs)
  let ?e = "snd (bucket_run c (q0 # qs) e)" and ?l = "last (q0 # qs)" and ?now = "clock_at q"
  have r: "readings_ok (q0 # qs)" "?now \<le> 2 ^ 52" "0 \<le> ?now" and o: "sorted_wrt only_loses (q0 # qs)"
    and oq: "\<forall>p \<in> set (q0 # qs). only_loses p q"
    using snoc.prems by (auto simp: readings_ok_def sorted_wrt_append)
  from snoc.IH [OF r(1) o] obtain y v where b: "balanced c q0 qs e y v" by blast
  note b = b [unfolded balanced_def]
  have l: "only_loses ?l q" using oq last_in_set [of "q0 # qs"] by blast
  have i: "token_entry_ok (fst c) ?e" using bucket_keeps [OF a assms(2,3) r(1)] by blast
  have y: "y \<le> snd q" "?now - last_field v \<le> snd q - y" "?now - clock_at ?l \<le> snd q - y"
    using b l oq by (auto simp only: only_loses_def)
  have sw: "case sweep_of q of None \<Rightarrow> True | Some (t', z) \<Rightarrow> t' - clock_at ?l \<le> snd q - y"
    using b l by (auto simp only: only_loses_def split: option.splits prod.splits)
  let ?e1 = "swept (sweep_of q) ?e"
  obtain v' y' where n: "snd (bucket_script c ?now ?e1) = Some (v', ?now div 1000 + kept_for c (tokens_field v'))"
    "y \<le> y'" "y' \<le> snd q" "last_field v' = ?now \<and> y' = snd q \<or> last_field v' = last_field v \<and> y' = y"
    "(if hd (fst (bucket_script c ?now ?e1)) = 1 then admit_cost else 0) + tokens_field v'
      \<le> tokens_field v + script_credit c (y' - y) * credit_slack + call_slack c"
    by (rule next_call [OF a conjunct1 [OF b] i _ r(2) y sw]) (use b in blast)+
  have run: "bucket_run c (q0 # qs @ [q]) e = (fst (bucket_run c (q0 # qs) e) @ [(snd (fst q), fst (bucket_script c ?now ?e1))],
      snd (bucket_script c ?now ?e1))"
    using bucket_run_append [of c "q0 # qs" "[q]" e] by (simp add: bucket_run_one)
  have credit: "script_credit c (y - snd q0) * credit_slack + script_credit c (y' - y) * credit_slack
      = script_credit c (y' - snd q0) * credit_slack"
    unfolding distrib_right [symmetric] script_credit_add by simp
  have "of_nat (length (granted_at (fst (bucket_run c (q0 # qs @ [q]) e)))) * admit_cost =
      of_nat (length (granted_at (fst (bucket_run c (q0 # qs) e)))) * admit_cost
        + (if hd (fst (bucket_script c ?now ?e1)) = 1 then admit_cost else 0)"
    by (simp add: run granted_at_def algebra_simps)
  with b n(5) credit have "of_nat (length (granted_at (fst (bucket_run c (q0 # qs @ [q]) e)))) * admit_cost + tokens_field v'
      \<le> of_int (fst c) + script_credit c (y' - snd q0) * credit_slack + of_nat (length (q0 # qs @ [q])) * call_slack c"
    by (simp add: algebra_simps)
  moreover have "clock_at q' - last_field v' \<le> snd q' - y'" if "\<forall>p \<in> set (q0 # qs @ [q]). only_loses p q'" for q'
  proof -
    have "\<forall>p \<in> set (q0 # qs). only_loses p q'" using that by simp
    then have "clock_at q' - last_field v \<le> snd q' - y" using b by blast
    moreover have "only_loses q q'" using that by simp
    ultimately show ?thesis using n(4) by (auto simp: only_loses_def)
  qed
  moreover have "0 \<le> last_field v'" "snd q0 \<le> y'" using n(2,4) b r(3) by auto
  ultimately have "balanced c q0 (qs @ [q]) e y' v'"
    using n(1,3) by (simp add: balanced_def run)
  then show ?case by blast
qed

lemma bucket_bound:
  assumes a: "exact_args c" and "token_entry_ok (fst c) e" and "clocked e" and "readings_ok qs"
    and "sorted_wrt only_loses qs" and "\<forall>q \<in> set qs. y \<le> snd q \<and> snd q \<le> z" and "y \<le> z"
  shows "of_nat (length (granted_at (fst (bucket_run c qs e)))) * admit_cost
    \<le> of_int (fst c) + script_credit c (z - y) * credit_slack + of_nat (length qs) * call_slack c"
proof (cases qs)
  case Nil
  have "0 \<le> script_credit c (z - y) * credit_slack"
    using script_credit_mono [OF a, of 0 "z - y"] assms(7) by (simp add: credit_slack_def)
  then show ?thesis using exact_argsD(2) [OF a] by (simp add: Nil bucket_run_def granted_at_def)
next
  case (Cons q0 qs')
  obtain x v where b: "balanced c q0 qs' e x v" using balance [OF a assms(2-5) [unfolded Cons]] by blast
  have "0 \<le> tokens_field v"
    using bucket_keeps [OF a assms(2,3,4)] b by (simp add: Cons balanced_def token_entry_ok_def)
  moreover have "y \<le> snd q0" "snd (last (q0 # qs')) \<le> z"
    using assms(6) last_in_set [of "q0 # qs'"] unfolding Cons by auto
  then have "script_credit c (x - snd q0) * credit_slack \<le> script_credit c (z - y) * credit_slack"
    using b script_credit_mono [OF a, of "x - snd q0" "z - y"]
    by (intro mult_right_mono) (auto simp: balanced_def credit_slack_def)
  ultimately show ?thesis using b by (simp add: Cons balanced_def)
qed

section \<open>Any interval\<close>

lemma interval_segment:
  assumes "sorted (map f qs)" and "(y :: int) \<le> z"
  shows "qs = filter (\<lambda>q. f q \<le> y) qs @ filter (\<lambda>q. y < f q \<and> f q \<le> z) qs @ filter (\<lambda>q. z < f q) qs"
  using assms
proof (induction qs)
  case (Cons q qs)
  have later: "filter (\<lambda>p. f p \<le> y) qs = []" if "y < f q"
    using Cons.prems(1) that by (fastforce simp: filter_empty_conv)
  have last: "filter (\<lambda>p. y < f p \<and> f p \<le> z) qs = []" if "z < f q"
    using Cons.prems(1) that by (fastforce simp: filter_empty_conv)
  from Cons.IH Cons.prems show ?case
    by (cases "f q \<le> y"; cases "f q \<le> z") (use later last in \<open>simp_all\<close>)
qed simp

text \<open>
  Over any true interval the key grants at most the burst and what the interval refills, up to the
  epsilon of the test and the rounding.
\<close>

lemma bucket_interval:
  assumes a: "exact_args c" and "readings_ok qs" and "sorted_wrt only_loses qs" and "y \<le> z"
  shows "of_nat (length (filter (\<lambda>(q, t, r). hd r = 1 \<and> y < snd q \<and> snd q \<le> z) (zip qs (fst (bucket_run c qs None))))) * admit_cost
    \<le> of_int (fst c) + script_credit c (z - y) * credit_slack
      + of_nat (length (filter (\<lambda>q. y < snd q \<and> snd q \<le> z) qs)) * call_slack c"
proof -
  define as bs cs where "as = filter (\<lambda>q. snd q \<le> y) qs" and "bs = filter (\<lambda>q. y < snd q \<and> snd q \<le> z) qs"
    and "cs = filter (\<lambda>q. z < snd q) qs"
  have "sorted (map snd qs)"
    using assms(3) by (auto simp: sorted_wrt_map only_loses_def elim: sorted_wrt_mono_rel [rotated])
  from interval_segment [OF this assms(4)] have qs: "qs = as @ bs @ cs" by (simp add: as_def bs_def cs_def)
  define e where "e = snd (bucket_run c as None)"
  have len: "length (fst (bucket_run c xs e')) = length xs" for xs e'
    using script_run_times [of "token_at c" "map fst xs" e'] by (metis bucket_run_def length_map)
  have "filter (\<lambda>(q, t, r). hd r = 1 \<and> y < snd q \<and> snd q \<le> z) (zip qs (fst (bucket_run c qs None)))
      = filter (\<lambda>(q, t, r). hd r = 1) (zip bs (fst (bucket_run c bs e)))"
  proof -
    have "filter (\<lambda>(q, t, r). hd r = 1 \<and> y < snd q \<and> snd q \<le> z) (zip as rs) = []"
      "filter (\<lambda>(q, t, r). hd r = 1 \<and> y < snd q \<and> snd q \<le> z) (zip cs rs) = []"
      "filter (\<lambda>(q, t, r). hd r = 1 \<and> y < snd q \<and> snd q \<le> z) (zip bs rs) = filter (\<lambda>(q, t, r). hd r = 1) (zip bs rs)"
      for rs :: "(visit \<times> reply) list"
      by (auto simp: filter_empty_conv as_def bs_def cs_def dest: set_zip_leftD intro!: filter_cong)
    then show ?thesis by (simp add: qs bucket_run_append e_def zip_append1 len)
  qed
  moreover have "length (filter (\<lambda>(q, t, r). hd r = 1) (zip bs rs)) = length (granted_at rs)"
    if "length rs = length bs" for rs
    using that by (induction rs bs rule: list_induct2) (auto simp: granted_at_def)
  moreover have "token_entry_ok (fst c) e \<and> clocked e" unfolding e_def
    by (rule bucket_keeps [OF a]) (use assms(2) in \<open>auto simp: token_entry_ok_def clocked_def readings_ok_def as_def\<close>)
  moreover have "of_nat (length (granted_at (fst (bucket_run c bs e)))) * admit_cost
      \<le> of_int (fst c) + script_credit c (z - y) * credit_slack + of_nat (length bs) * call_slack c"
    if "token_entry_ok (fst c) e" "clocked e"
    by (rule bucket_bound [OF a that]) (use assms in \<open>auto simp: bs_def readings_ok_def sorted_wrt_filter\<close>)
  ultimately show ?thesis by (simp add: len bs_def)
qed

end
