(* ===== verification/Instances.thy ===== *)
theory Instances
  imports Keyspace
begin

text \<open>
  Many callers of many gateway instances on one redis: \<open>RedisLimiter.Allow\<close> of
  \<open>internal/limiter/redis.go\<close> cut at its critical sections (the breaker's \<open>admit\<close> and
  \<open>record\<close>, the fallback's mutex, the gauge's mutex) and at the script's execution on the
  server, so that the calls in flight interleave freely. A reply may be lost after the script has
  run, the call may fail without it, and the script may run after its caller has given up.
\<close>

section \<open>One call\<close>

text \<open>Where a call stands; \<open>Heard\<close> is after the client returned, \<open>Judged\<close> after \<open>do\<close> did.\<close>

datatype phase =
    Asking
  | Waiting
  | Heard "call_error + reply"
  | Judged "call_error + reply"
  | Fallen decision
  | Panicked
  | Done answer

text \<open>\<open>ran\<close> is what the script replied on the server, if it has run, and \<open>fell\<close> what the
  fallback answered, if it was asked.\<close>

record call =
  gate :: nat
  call_key :: string
  call_limit :: limit
  call_nonce :: string
  probing :: bool
  sent :: bool
  ran :: "reply option"
  fell :: "answer option"
  phase :: phase

definition new_call :: "nat \<Rightarrow> string \<Rightarrow> limit \<Rightarrow> string \<Rightarrow> call" where
  "new_call i k l nc =
     \<lparr>gate = i, call_key = k, call_limit = l, call_nonce = nc, probing = False, sent = False, ran = None, fell = None,
      phase =
        (if scripts (algorithm l) = None then Done (Inl (NoScriptFor (algorithm l)))
         else if window l sdiv microsecond \<le> 0 then Done (Inl (WindowBelowMicro (window l)))
         else Asking)\<rparr>"

datatype move = Ask gotime | Hear "call_error + reply" | Note gotime | Settle gotime | Leave

definition ask :: "gotime \<Rightarrow> redis_limiter \<Rightarrow> call \<Rightarrow> redis_limiter \<times> call" where
  "ask t r c =
     (case admit t (breaker_of r) of
        (b, None) \<Rightarrow> (r\<lparr>breaker_of := b\<rparr>, c\<lparr>probing := state (breaker_of r) = Open, sent := True, phase := Waiting\<rparr>)
      | (b, Some e) \<Rightarrow> (r\<lparr>breaker_of := b\<rparr>, c\<lparr>phase := Judged (Inl e)\<rparr>))"

definition note_result :: "gotime \<Rightarrow> call_error + reply \<Rightarrow> redis_limiter \<Rightarrow> call \<Rightarrow> redis_limiter \<times> call" where
  "note_result t q r c =
     (r\<lparr>breaker_of := record_result t (call_error_of q) (breaker_of r)\<rparr>, c\<lparr>phase := Judged q\<rparr>)"

definition settle :: "nat \<Rightarrow> (float64 \<Rightarrow> int) \<Rightarrow> gotime \<Rightarrow> memory \<Rightarrow> redis_limiter \<Rightarrow> call \<Rightarrow> redis_limiter \<times> call" where
  "settle mk oor t m r c =
     (case memory_allow mk oor m t (call_key c) (call_limit c) of
        None \<Rightarrow> (r, c\<lparr>phase := Panicked\<rparr>)
      | Some (m', Inl e) \<Rightarrow> (r\<lparr>fallback := Some m'\<rparr>, c\<lparr>fell := Some (Inl e), phase := Done (Inl e)\<rparr>)
      | Some (m', Inr d) \<Rightarrow> (r\<lparr>fallback := Some m'\<rparr>, c\<lparr>fell := Some (Inr d), phase := Fallen d\<rparr>))"

text \<open>The last step: what is returned, after the gauge has been set where the code sets it.\<close>

definition leave_redis :: "reply \<Rightarrow> redis_limiter \<Rightarrow> call \<Rightarrow> redis_limiter \<times> call" where
  "leave_redis vals r c =
     (r\<lparr>backend_gauge := set_active_backend backend_redis (backend_gauge r)\<rparr>,
      c\<lparr>phase := Done (decision_from_reply vals (quota_from (the (scripts (algorithm (call_limit c)))) (call_limit c)))\<rparr>)"

definition leave_memory :: "decision \<Rightarrow> redis_limiter \<Rightarrow> call \<Rightarrow> redis_limiter \<times> call" where
  "leave_memory d r c =
     (r\<lparr>backend_gauge := set_active_backend backend_memory (backend_gauge r)\<rparr>,
      c\<lparr>phase := Done (Inr (d\<lparr>degraded := True\<rparr>))\<rparr>)"

definition falls_back :: "redis_limiter \<Rightarrow> call_error \<Rightarrow> bool" where
  "falls_back r e \<longleftrightarrow> fallback r \<noteq> None \<and> \<not> neutral e"

text \<open>
  While a call waits, \<open>Hear (Inl e)\<close> may happen at any time: whether and when the client gives up,
  for a timeout, a broken connection or a hang-up, is not decided by the server's answer. Every
  behaviour of the client is among these steps, so what holds in all of them is safety; nothing here
  says that a call that waits is ever heard.
\<close>

fun advance :: "nat \<Rightarrow> (float64 \<Rightarrow> int) \<Rightarrow> move \<Rightarrow> redis_limiter \<Rightarrow> call \<Rightarrow> (redis_limiter \<times> call) option" where
  "advance mk oor (Ask t) r c = (if phase c = Asking then Some (ask t r c) else None)"
| "advance mk oor (Hear q) r c = (if phase c = Waiting then Some (r, c\<lparr>phase := Heard q\<rparr>) else None)"
| "advance mk oor (Note t) r c = (case phase c of Heard q \<Rightarrow> Some (note_result t q r c) | _ \<Rightarrow> None)"
| "advance mk oor (Settle t) r c =
     (case phase c of
        Judged (Inl e) \<Rightarrow> if falls_back r e then Some (settle mk oor t (the (fallback r)) r c) else None
      | _ \<Rightarrow> None)"
| "advance mk oor Leave r c =
     (case phase c of
        Judged (Inr vals) \<Rightarrow> Some (leave_redis vals r c)
      | Judged (Inl e) \<Rightarrow>
          if falls_back r e then None else Some (r, c\<lparr>phase := Done (Inl (RedisFailed (algorithm (call_limit c)) e))\<rparr>)
      | Fallen d \<Rightarrow> Some (leave_memory d r c)
      | _ \<Rightarrow> None)"

lemmas advance_defs = ask_def note_result_def settle_def leave_redis_def leave_memory_def

section \<open>Everything together\<close>

record cluster =
  gates :: "redis_limiter list"
  flights :: "call list"
  shared :: keyspace

text \<open>Each instance with its configuration and its backend gauge, and an empty server.\<close>

definition boot :: "(redis_cfg \<times> string series) list \<Rightarrow> cluster" where
  "boot cs = \<lparr>gates = map (\<lambda>(cfg, g). new_redis_limiter cfg g) cs, flights = [], shared = no_keys\<rparr>"

text \<open>
  \<open>Execute n vis x\<close> is the script of call \<open>n\<close> on the server at the true time \<open>x\<close>, which
  the program never sees; \<open>vis\<close> is the visit, what the server's clock reads in microseconds and what
  the active expiry has done to the key before.
\<close>

datatype happening = Arrive nat string limit string | Move nat move | Execute nat visit int

definition may_hear :: "call \<Rightarrow> move \<Rightarrow> bool" where
  "may_hear c mv = (case mv of Hear (Inr vals) \<Rightarrow> ran c = Some vals | _ \<Rightarrow> True)"

definition arrive :: "nat \<Rightarrow> string \<Rightarrow> limit \<Rightarrow> string \<Rightarrow> cluster \<Rightarrow> cluster option" where
  "arrive i k l nc s =
     (if i < length (gates s) then Some (s\<lparr>flights := flights s @ [new_call i k l nc]\<rparr>) else None)"

definition make_move :: "nat \<Rightarrow> (float64 \<Rightarrow> int) \<Rightarrow> nat \<Rightarrow> move \<Rightarrow> cluster \<Rightarrow> cluster option" where
  "make_move mk oor n mv s =
     (if n < length (flights s) \<and> may_hear (flights s ! n) mv then
        (case advance mk oor mv (gates s ! gate (flights s ! n)) (flights s ! n) of
           None \<Rightarrow> None
         | Some (r, c) \<Rightarrow> Some (s\<lparr>gates := (gates s)[gate (flights s ! n) := r], flights := (flights s)[n := c]\<rparr>))
      else None)"

definition execute :: "nat \<Rightarrow> visit \<Rightarrow> cluster \<Rightarrow> cluster option" where
  "execute n vis s =
     (if n < length (flights s) \<and> sent (flights s ! n) \<and> ran (flights s ! n) = None then
        (let c = flights s ! n in
         case run_script (call_for (call_key c) (call_limit c) (call_nonce c)) vis (shared s) of
           (Inl e, ks) \<Rightarrow> Some (s\<lparr>shared := ks\<rparr>)
         | (Inr vals, ks) \<Rightarrow> Some (s\<lparr>shared := ks, flights := (flights s)[n := c\<lparr>ran := Some vals\<rparr>]\<rparr>))
      else None)"

fun happen :: "nat \<Rightarrow> (float64 \<Rightarrow> int) \<Rightarrow> cluster \<Rightarrow> happening \<Rightarrow> cluster option" where
  "happen mk oor s (Arrive i k l nc) = arrive i k l nc s"
| "happen mk oor s (Move n mv) = make_move mk oor n mv s"
| "happen mk oor s (Execute n vis x) = execute n vis s"

fun cluster_run :: "nat \<Rightarrow> (float64 \<Rightarrow> int) \<Rightarrow> cluster \<Rightarrow> happening list \<Rightarrow> cluster option" where
  "cluster_run mk oor s [] = Some s"
| "cluster_run mk oor s (e # es) =
     (case happen mk oor s e of None \<Rightarrow> None | Some s' \<Rightarrow> cluster_run mk oor s' es)"

lemma cluster_run_append:
  "cluster_run mk oor s (es @ fs) =
     (case cluster_run mk oor s es of None \<Rightarrow> None | Some s' \<Rightarrow> cluster_run mk oor s' fs)"
  by (induction mk oor s es rule: cluster_run.induct) (auto split: option.split)

lemma cluster_run_snoc:
  "cluster_run mk oor s (es @ [e]) = Some s'' \<longleftrightarrow>
     (\<exists>s'. cluster_run mk oor s es = Some s' \<and> happen mk oor s' e = Some s'')"
  by (auto simp: cluster_run_append split: option.splits)

lemma arrive_Some:
  "arrive i k l nc s = Some s' \<longleftrightarrow> i < length (gates s) \<and> s' = s\<lparr>flights := flights s @ [new_call i k l nc]\<rparr>"
  by (auto simp: arrive_def)

lemma make_move_Some:
  "make_move mk oor n mv s = Some s' \<longleftrightarrow>
     (\<exists>r c. n < length (flights s) \<and> may_hear (flights s ! n) mv \<and>
        advance mk oor mv (gates s ! gate (flights s ! n)) (flights s ! n) = Some (r, c) \<and>
        s' = s\<lparr>gates := (gates s)[gate (flights s ! n) := r], flights := (flights s)[n := c]\<rparr>)"
  by (auto simp: make_move_def split: option.splits)

text \<open>A step of one call keeps what the call was made with and what it has found out.\<close>

definition made_with :: "call \<Rightarrow> nat \<times> string \<times> limit \<times> string" where
  "made_with c = (gate c, call_key c, call_limit c, call_nonce c)"

lemma advance_keeps:
  assumes "advance mk oor mv r c = Some (r', c')"
  shows "made_with c' = made_with c" and "ran c' = ran c"
  using assms
  by (cases mv; auto simp: advance_defs made_with_def split: phase.splits sum.splits option.splits prod.splits if_splits)+

section \<open>What every interleaving keeps\<close>

text \<open>Nothing a call holds is made up: a reply it has heard is one its script gave, a decision it
  returns is that reply or the fallback's answer, and it never panics.\<close>

definition phase_ok :: "call \<Rightarrow> bool" where
  "phase_ok c \<longleftrightarrow>
     (case phase c of
        Asking \<Rightarrow> \<not> sent c \<and> fell c = None
      | Waiting \<Rightarrow> sent c \<and> fell c = None
      | Heard q \<Rightarrow> sent c \<and> fell c = None \<and> (\<forall>vals. q = Inr vals \<longrightarrow> ran c = Some vals)
      | Judged q \<Rightarrow> fell c = None \<and> (\<forall>vals. q = Inr vals \<longrightarrow> ran c = Some vals)
      | Fallen d \<Rightarrow> fell c = Some (Inr d) \<and> decision_ok (limit_quota (call_limit c)) d
      | Panicked \<Rightarrow> False
      | Done (Inl e) \<Rightarrow> True
      | Done (Inr d) \<Rightarrow> decision_ok (limit_quota (call_limit c)) d \<and>
          (if degraded d then \<exists>d'. fell c = Some (Inr d') \<and> d = d'\<lparr>degraded := True\<rparr>
           else \<exists>vals. ran c = Some vals \<and> decision_from_reply vals (limit_quota (call_limit c)) = Inr d))"

definition call_ok :: "(string \<Rightarrow> limit) \<Rightarrow> call \<Rightarrow> bool" where
  "call_ok plan c \<longleftrightarrow>
     plan (call_key c) = call_limit c \<and> serves (call_limit c) \<and> whole_micros (call_limit c) \<and>
     (\<forall>vals. ran c = Some vals \<longrightarrow> sent c \<and> reply_ok (limit_quota (call_limit c)) vals) \<and> phase_ok c"

definition cluster_inv :: "nat \<Rightarrow> (string \<Rightarrow> limit) \<Rightarrow> cluster \<Rightarrow> bool" where
  "cluster_inv mk plan s \<longleftrightarrow>
     (\<forall>r \<in> set (gates s). redis_inv mk plan r) \<and> keyspace_inv plan (shared s) \<and>
     (\<forall>c \<in> set (flights s). gate c < length (gates s) \<and> call_ok plan c)"

lemma quota_from_scripts: "serves l \<Longrightarrow> quota_from (the (scripts (algorithm l))) l = limit_quota l"
  by (metis option.sel scripts_serves)

lemma new_call_ok:
  assumes "plan k = l" and "serves l" and "whole_micros l"
  shows "call_ok plan (new_call i k l nc)" and "phase (new_call i k l nc) = Asking"
proof -
  have "scripts (algorithm l) \<noteq> None" using scripts_serves [OF assms(2)] by blast
  then show "phase (new_call i k l nc) = Asking"
    using micros_pos [OF assms(2)] assms(3) by (simp add: new_call_def)
  then show "call_ok plan (new_call i k l nc)"
    using assms by (simp add: call_ok_def phase_ok_def) (simp add: new_call_def)
qed

lemma ask_ok:
  assumes "redis_inv mk plan r" and "call_ok plan c" and "phase c = Asking" and "ask t r c = (r', c')"
  shows "redis_inv mk plan r' \<and> call_ok plan c'"
proof (rule admit_cases [where t = t and b = "breaker_of r"])
qed (use assms admit_inv [of "breaker_of r" t] in \<open>auto simp: ask_def redis_inv_def call_ok_def phase_ok_def\<close>)

lemma note_ok:
  assumes "redis_inv mk plan r" and "call_ok plan c" and "phase c = Heard q" and "note_result t q r c = (r', c')"
  shows "redis_inv mk plan r' \<and> call_ok plan c'"
  using assms record_inv [of "breaker_of r" t "call_error_of q"]
  by (auto simp: note_result_def redis_inv_def call_ok_def phase_ok_def)

lemma planned_call: "call_ok plan c \<Longrightarrow> planned plan t (call_key c) (call_limit c)"
  by (simp add: call_ok_def planned_def)

lemma settle_memory:
  assumes "memory_inv mk plan m" and "call_ok plan c"
  obtains (full) "memory_allow mk oor m t (call_key c) (call_limit c) = Some (m, Inl (AtCapacity mk))"
      "settle mk oor t m r c = (r\<lparr>fallback := Some m\<rparr>,
         c\<lparr>fell := Some (Inl (AtCapacity mk)), phase := Done (Inl (AtCapacity mk))\<rparr>)"
  | (decided) m' d where "memory_allow mk oor m t (call_key c) (call_limit c) = Some (m', Inr d)"
      "decision_ok (limit_quota (call_limit c)) d" "memory_inv mk plan m'"
      "settle mk oor t m r c = (r\<lparr>fallback := Some m'\<rparr>, c\<lparr>fell := Some (Inr d), phase := Fallen d\<rparr>)"
  by (rule redis_fallback_cases [OF assms(1) planned_call [OF assms(2)], where oor = oor and t = t])
    (auto simp: settle_def intro: that)

lemma settle_ok:
  assumes "redis_inv mk plan r" and "call_ok plan c" and "phase c = Judged (Inl e)" and "fallback r = Some m"
    and "settle mk oor t m r c = (r', c')"
  shows "redis_inv mk plan r' \<and> call_ok plan c'"
proof -
  have m: "memory_inv mk plan m" using assms(1,4) by (simp add: redis_inv_def)
  show ?thesis
    by (rule settle_memory [OF m assms(2), of oor t r])
      (use assms m in \<open>auto simp: redis_inv_def call_ok_def phase_ok_def\<close>)
qed

lemma leave_ok:
  assumes "redis_inv mk plan r" and "call_ok plan c"
  shows "phase c = Judged (Inr vals) \<Longrightarrow> leave_redis vals r c = (r', c') \<Longrightarrow> redis_inv mk plan r' \<and> call_ok plan c'"
    and "phase c = Fallen d \<Longrightarrow> leave_memory d r c = (r', c') \<Longrightarrow> redis_inv mk plan r' \<and> call_ok plan c'"
proof -
  have hot: "\<exists>a. one_hot a (set_active_backend b x)" if "b \<in> set backends" for b x
    using one_hot_set_active that by blast
  {
    assume p: "phase c = Judged (Inr vals)" and l: "leave_redis vals r c = (r', c')"
    then have "ran c = Some vals" "reply_ok (limit_quota (call_limit c)) vals" "serves (call_limit c)"
      using assms(2) by (auto simp: call_ok_def phase_ok_def)
    with decision_from_reply_ok show "redis_inv mk plan r' \<and> call_ok plan c'"
      using l assms hot
      by (fastforce simp: leave_redis_def redis_inv_def call_ok_def phase_ok_def quota_from_scripts)
  next
    assume "phase c = Fallen d" and "leave_memory d r c = (r', c')"
    then show "redis_inv mk plan r' \<and> call_ok plan c'"
      using assms hot by (auto simp: leave_memory_def redis_inv_def call_ok_def phase_ok_def)
  }
qed

lemma advance_ok:
  assumes "redis_inv mk plan r" and "call_ok plan c" and "may_hear c mv" and "advance mk oor mv r c = Some (r', c')"
  shows "redis_inv mk plan r' \<and> call_ok plan c'"
proof (cases mv)
  case (Ask t)
  then have "phase c = Asking" "ask t r c = (r', c')" using assms(4) by (simp_all split: if_splits)
  then show ?thesis using ask_ok [OF assms(1,2)] by blast
next
  case (Hear q)
  then have "phase c = Waiting" "r' = r" "c' = c\<lparr>phase := Heard q\<rparr>" using assms(4) by (simp_all split: if_splits)
  then show ?thesis using assms(1-3) Hear by (cases q) (auto simp: may_hear_def call_ok_def phase_ok_def)
next
  case (Note t)
  then obtain q where "phase c = Heard q" "note_result t q r c = (r', c')"
    using assms(4) by (cases "phase c") simp_all
  then show ?thesis using note_ok [OF assms(1,2)] by blast
next
  case (Settle t)
  then obtain e where "phase c = Judged (Inl e)" "falls_back r e" "settle mk oor t (the (fallback r)) r c = (r', c')"
    using assms(4) by (auto split: phase.splits sum.splits if_splits)
  then show ?thesis using settle_ok [OF assms(1,2)] by (auto simp: falls_back_def)
next
  case Leave
  then consider (redis) vals where "phase c = Judged (Inr vals)" "leave_redis vals r c = (r', c')"
    | (memory) d where "phase c = Fallen d" "leave_memory d r c = (r', c')"
    | (failed) e where "r' = r" "c' = c\<lparr>phase := Done (Inl e)\<rparr>"
    using assms(4) by (auto split: phase.splits sum.splits if_splits)
  then show ?thesis
  proof cases
    case failed
    then show ?thesis using assms(1,2) by (simp add: call_ok_def phase_ok_def)
  qed (use leave_ok [OF assms(1,2)] in blast)+
qed

definition planned_arrival :: "(string \<Rightarrow> limit) \<Rightarrow> happening \<Rightarrow> bool" where
  "planned_arrival plan e \<longleftrightarrow>
     (case e of Arrive i k l nc \<Rightarrow> plan k = l \<and> serves l \<and> whole_micros l | _ \<Rightarrow> True)"

lemma executed_ok:
  assumes "call_ok plan c" and "ran c = None" and "sent c" and "reply_ok (limit_quota (call_limit c)) vals"
  shows "call_ok plan (c\<lparr>ran := Some vals\<rparr>)"
  using assms by (auto simp: call_ok_def phase_ok_def split: phase.splits sum.splits if_splits)

lemma in_list_update: "x \<in> set (xs[n := y]) \<Longrightarrow> x = y \<or> x \<in> set xs"
  using set_update_subset_insert by fastforce

lemma flight_ok: "cluster_inv mk plan s \<Longrightarrow> n < length (flights s) \<Longrightarrow>
    gate (flights s ! n) < length (gates s) \<and> call_ok plan (flights s ! n) \<and>
    redis_inv mk plan (gates s ! gate (flights s ! n))"
  by (simp add: cluster_inv_def)

lemma happen_ok:
  assumes "cluster_inv mk plan s" and "planned_arrival plan e" and "happen mk oor s e = Some s'"
  shows "cluster_inv mk plan s'"
proof (cases e)
  case (Arrive i k l nc)
  then have "call_ok plan (new_call i k l nc)" using assms(2) by (intro new_call_ok) (auto simp: planned_arrival_def)
  moreover have "gate (new_call i k l nc) = i" by (simp add: new_call_def)
  ultimately show ?thesis using assms(1,3) Arrive by (auto simp: cluster_inv_def arrive_Some)
next
  case (Move n mv)
  let ?c = "flights s ! n"
  obtain r c where n: "n < length (flights s)" "may_hear ?c mv"
    and a: "advance mk oor mv (gates s ! gate ?c) ?c = Some (r, c)"
    and s': "s' = s\<lparr>gates := (gates s)[gate ?c := r], flights := (flights s)[n := c]\<rparr>"
    using assms(3) Move by (auto simp: make_move_Some)
  note f = flight_ok [OF assms(1) n(1)]
  have "redis_inv mk plan r \<and> call_ok plan c" by (rule advance_ok [OF _ _ n(2) a]) (use f in auto)
  moreover have "gate c = gate ?c" using advance_keeps(1) [OF a] by (simp add: made_with_def)
  ultimately show ?thesis using assms(1) f by (auto simp: cluster_inv_def s' dest!: in_list_update)
next
  case (Execute n vis x)
  let ?c = "flights s ! n"
  have n: "n < length (flights s)" "sent ?c" "ran ?c = None" and x: "execute n vis s = Some s'"
    using assms(3) Execute by (auto simp: execute_def split: if_splits)
  note f = flight_ok [OF assms(1) n(1)]
  then have c: "plan (call_key ?c) = call_limit ?c" "serves (call_limit ?c)" "whole_micros (call_limit ?c)"
    by (auto simp: call_ok_def)
  have "keyspace_inv plan (shared s)" using assms(1) by (simp add: cluster_inv_def)
  from run_script_ok [OF this c, of "call_nonce ?c" vis]
  obtain vals ks where r: "run_script (call_for (call_key ?c) (call_limit ?c) (call_nonce ?c)) vis (shared s) = (Inr vals, ks)"
    "reply_ok (limit_quota (call_limit ?c)) vals" "keyspace_inv plan ks" by auto
  then have s': "s' = s\<lparr>shared := ks, flights := (flights s)[n := ?c\<lparr>ran := Some vals\<rparr>]\<rparr>"
    using x n by (simp add: execute_def Let_def)
  have "call_ok plan (?c\<lparr>ran := Some vals\<rparr>)" using executed_ok f n r(2) by blast
  then show ?thesis using assms(1) f r(3) by (auto simp: cluster_inv_def s' dest!: in_list_update)
qed

lemma boot_inv: "cluster_inv mk plan (boot cs)"
  by (auto simp: cluster_inv_def boot_def no_keys_inv redis_inv_new)

lemma cluster_run_ok:
  assumes "cluster_run mk oor s es = Some s'" and "\<forall>e \<in> set es. planned_arrival plan e" and "cluster_inv mk plan s"
  shows "cluster_inv mk plan s'"
  using assms
proof (induction es arbitrary: s)
  case (Cons e es)
  then obtain s1 where s1: "happen mk oor s e = Some s1" "cluster_run mk oor s1 es = Some s'"
    by (auto split: option.splits)
  have "cluster_inv mk plan s1" by (rule happen_ok [OF Cons.prems(3) _ s1(1)]) (use Cons.prems(2) in simp)
  then show ?case using Cons.IH [OF s1(2)] Cons.prems(2) by simp
qed simp

section \<open>One call on its own\<close>

text \<open>The moves of one call, with nothing in between.\<close>

fun moves :: "nat \<Rightarrow> (float64 \<Rightarrow> int) \<Rightarrow> redis_limiter \<Rightarrow> call \<Rightarrow> move list \<Rightarrow> (redis_limiter \<times> call) option" where
  "moves mk oor r c [] = Some (r, c)"
| "moves mk oor r c (mv # ms) =
     (case advance mk oor mv r c of None \<Rightarrow> None | Some (r', c') \<Rightarrow> moves mk oor r' c' ms)"

text \<open>The moves bring what the call of the whole operation brings.\<close>

definition brings :: "redis_call \<Rightarrow> call \<Rightarrow> move \<Rightarrow> bool" where
  "brings q c mv =
     (case mv of
        Ask t \<Rightarrow> t = admit_at q
      | Hear x \<Rightarrow> x = server q (call_for (call_key c) (call_limit c) (call_nonce c))
      | Note t \<Rightarrow> t = record_at q
      | Settle t \<Rightarrow> t = fallback_at q
      | Leave \<Rightarrow> True)"

text \<open>How far a call still has to go.\<close>

definition distance :: "call \<Rightarrow> nat" where
  "distance c =
     (case phase c of
        Asking \<Rightarrow> 5 | Waiting \<Rightarrow> 4 | Heard q \<Rightarrow> 3 | Judged q \<Rightarrow> 2 | Fallen d \<Rightarrow> 1 | Panicked \<Rightarrow> 0 | Done a \<Rightarrow> 0)"

lemma advance_distance: "advance mk oor mv r c = Some (r', c') \<Longrightarrow> distance c' < distance c"
  by (cases mv; auto simp: advance_defs distance_def split: phase.splits sum.splits option.splits prod.splits if_splits)

definition finishes :: "nat \<Rightarrow> (float64 \<Rightarrow> int) \<Rightarrow> redis_call \<Rightarrow> redis_limiter \<Rightarrow> call \<Rightarrow> redis_limiter \<Rightarrow> answer \<Rightarrow> bool" where
  "finishes mk oor q r c r' a \<longleftrightarrow>
     (\<exists>ms c'. list_all (brings q c) ms \<and> moves mk oor r c ms = Some (r', c') \<and> phase c' = Done a)"

lemma advance_done: "phase c = Done a \<or> phase c = Panicked \<Longrightarrow> advance mk oor mv r c = None"
  by (cases mv) auto

lemma brings_same: "made_with c' = made_with c \<Longrightarrow> brings q c' = brings q c"
  by (auto simp: fun_eq_iff brings_def made_with_def split: move.split)

lemma finishes_done:
  "phase c = Done b \<Longrightarrow> finishes mk oor q r c r' a \<longleftrightarrow> r' = r \<and> a = b"
  "phase c = Panicked \<Longrightarrow> \<not> finishes mk oor q r c r' a"
proof -
  have n: "ms = []" if "phase c = Done b \<or> phase c = Panicked" "moves mk oor r c ms = Some (r', c')" for b ms c'
    using that advance_done [of c b mk oor _ r] by (cases ms) auto
  show "phase c = Done b \<Longrightarrow> finishes mk oor q r c r' a \<longleftrightarrow> r' = r \<and> a = b"
  proof
    assume d: "phase c = Done b" and "r' = r \<and> a = b"
    then show "finishes mk oor q r c r' a"
      unfolding finishes_def by (intro exI [of _ "[]"] exI [of _ c]) simp
  qed (use n in \<open>fastforce simp: finishes_def\<close>)
  show "phase c = Panicked \<Longrightarrow> \<not> finishes mk oor q r c r' a"
    using n by (fastforce simp: finishes_def)
qed

lemma finishes_step:
  assumes "distance c \<noteq> 0"
  shows "finishes mk oor q r c r' a \<longleftrightarrow>
    (\<exists>mv r1 c1. brings q c mv \<and> advance mk oor mv r c = Some (r1, c1) \<and> finishes mk oor q r1 c1 r' a)"
proof
  assume "finishes mk oor q r c r' a"
  then obtain ms c' where m: "list_all (brings q c) ms" "moves mk oor r c ms = Some (r', c')" "phase c' = Done a"
    by (auto simp: finishes_def)
  moreover have "ms \<noteq> []" using assms m(2,3) by (auto simp: distance_def)
  ultimately obtain mv ms' where ms: "ms = mv # ms'" by (cases ms) auto
  then obtain r1 c1 where "advance mk oor mv r c = Some (r1, c1)" "moves mk oor r1 c1 ms' = Some (r', c')"
    using m(2) by (auto split: option.splits)
  moreover from this(1) have "brings q c1 = brings q c" by (rule brings_same [OF advance_keeps(1)])
  ultimately show "\<exists>mv r1 c1. brings q c mv \<and> advance mk oor mv r c = Some (r1, c1) \<and> finishes mk oor q r1 c1 r' a"
    using m(1,3) unfolding ms finishes_def by (metis list.pred_inject(2))
next
  assume "\<exists>mv r1 c1. brings q c mv \<and> advance mk oor mv r c = Some (r1, c1) \<and> finishes mk oor q r1 c1 r' a"
  then obtain mv r1 c1 ms c' where b: "brings q c mv" and a: "advance mk oor mv r c = Some (r1, c1)"
    and m: "list_all (brings q c1) ms" "moves mk oor r1 c1 ms = Some (r', c')" "phase c' = Done a"
    by (auto simp: finishes_def)
  from a have "brings q c1 = brings q c" by (rule brings_same [OF advance_keeps(1)])
  with b a m show "finishes mk oor q r c r' a"
    unfolding finishes_def by (intro exI [of _ "mv # ms"] exI [of _ c']) simp
qed

text \<open>In each phase there is one move a call can make.\<close>

lemma finishes_by:
  assumes "advance mk oor mv r c = Some (r1, c1)" and "brings q c mv"
    and "\<And>mv'. brings q c mv' \<Longrightarrow> advance mk oor mv' r c \<noteq> None \<Longrightarrow> mv' = mv"
  shows "finishes mk oor q r c r' a \<longleftrightarrow> finishes mk oor q r1 c1 r' a"
proof -
  have "distance c \<noteq> 0" using advance_distance [OF assms(1)] by simp
  then show ?thesis unfolding finishes_step [OF \<open>distance c \<noteq> 0\<close>]
    using assms(1,2) assms(3) by (metis option.discI option.inject prod.inject)
qed

lemma finishes_asking:
  assumes "phase c = Asking" and "ask (admit_at q) r c = (r1, c1)"
  shows "finishes mk oor q r c r' a \<longleftrightarrow> finishes mk oor q r1 c1 r' a"
proof (rule finishes_by [where mv = "Ask (admit_at q)"])
  show "mv' = Ask (admit_at q)" if "brings q c mv'" "advance mk oor mv' r c \<noteq> None" for mv'
    using that assms(1) by (cases mv') (simp_all add: brings_def)
qed (simp_all add: assms brings_def)

lemma finishes_waiting:
  assumes "phase c = Waiting" and "x = server q (call_for (call_key c) (call_limit c) (call_nonce c))"
  shows "finishes mk oor q r c r' a \<longleftrightarrow> finishes mk oor q r (c\<lparr>phase := Heard x\<rparr>) r' a"
proof (rule finishes_by [where mv = "Hear x"])
  show "mv' = Hear x" if "brings q c mv'" "advance mk oor mv' r c \<noteq> None" for mv'
    using that assms by (cases mv') (simp_all add: brings_def)
qed (simp_all add: assms brings_def)

lemma finishes_heard:
  assumes "phase c = Heard x" and "note_result (record_at q) x r c = (r1, c1)"
  shows "finishes mk oor q r c r' a \<longleftrightarrow> finishes mk oor q r1 c1 r' a"
proof (rule finishes_by [where mv = "Note (record_at q)"])
  show "mv' = Note (record_at q)" if "brings q c mv'" "advance mk oor mv' r c \<noteq> None" for mv'
    using that assms(1) by (cases mv') (simp_all add: brings_def)
qed (simp_all add: assms brings_def)

lemma finishes_fallen:
  assumes "phase c = Fallen d" and "leave_memory d r c = (r1, c1)"
  shows "finishes mk oor q r c r' a \<longleftrightarrow> finishes mk oor q r1 c1 r' a"
proof (rule finishes_by [where mv = Leave])
  show "mv' = Leave" if "brings q c mv'" "advance mk oor mv' r c \<noteq> None" for mv'
    using that assms(1) by (cases mv') (simp_all add: brings_def)
qed (simp_all add: assms brings_def)

lemma finishes_replied:
  assumes "phase c = Judged (Inr vals)"
  shows "finishes mk oor q r c r' a \<longleftrightarrow>
    r' = r\<lparr>backend_gauge := set_active_backend backend_redis (backend_gauge r)\<rparr> \<and>
    a = decision_from_reply vals (quota_from (the (scripts (algorithm (call_limit c)))) (call_limit c))"
proof -
  obtain r1 c1 where l: "leave_redis vals r c = (r1, c1)" by fastforce
  have "finishes mk oor q r c r' a \<longleftrightarrow> finishes mk oor q r1 c1 r' a"
  proof (rule finishes_by [where mv = Leave])
    show "mv' = Leave" if "brings q c mv'" "advance mk oor mv' r c \<noteq> None" for mv'
      using that assms by (cases mv') (simp_all add: brings_def)
  qed (simp_all add: assms brings_def l)
  then show ?thesis using l finishes_done(1) [of c1] by (auto simp: leave_redis_def)
qed

lemma finishes_failed:
  assumes "phase c = Judged (Inl e)"
  shows "finishes mk oor q r c r' a \<longleftrightarrow>
    (if falls_back r e then redis_fallback mk oor r (the (fallback r)) (fallback_at q) (call_key c) (call_limit c) = Some (r', a)
     else r' = r \<and> a = Inl (RedisFailed (algorithm (call_limit c)) e))"
proof (cases "falls_back r e")
  case True
  obtain r1 c1 where l: "settle mk oor (fallback_at q) (the (fallback r)) r c = (r1, c1)" by fastforce
  have "finishes mk oor q r c r' a \<longleftrightarrow> finishes mk oor q r1 c1 r' a"
  proof (rule finishes_by [where mv = "Settle (fallback_at q)"])
    show "mv' = Settle (fallback_at q)" if "brings q c mv'" "advance mk oor mv' r c \<noteq> None" for mv'
      using that assms True by (cases mv') (simp_all add: brings_def)
  qed (simp_all add: assms brings_def l True)
  moreover have "finishes mk oor q r1 c1 r' a \<longleftrightarrow>
      redis_fallback mk oor r (the (fallback r)) (fallback_at q) (call_key c) (call_limit c) = Some (r', a)"
  proof (cases "memory_allow mk oor (the (fallback r)) (fallback_at q) (call_key c) (call_limit c)")
    case None
    then show ?thesis using l finishes_done(2) [of c1] by (auto simp: settle_def redis_fallback_def)
  next
    case (Some y)
    obtain m x where y: "y = (m, x)" by (cases y) auto
    show ?thesis
    proof (cases x)
      case (Inl e')
      then show ?thesis using l Some y finishes_done(1) [of c1] by (auto simp: settle_def redis_fallback_def)
    next
      case (Inr d)
      then have p: "phase c1 = Fallen d" using l Some y by (auto simp: settle_def)
      obtain r2 c2 where l2: "leave_memory d r1 c1 = (r2, c2)" by fastforce
      have "finishes mk oor q r2 c2 r' a \<longleftrightarrow> r' = r2 \<and> a = Inr (d\<lparr>degraded := True\<rparr>)"
        using l2 by (intro finishes_done(1)) (auto simp: leave_memory_def)
      then show ?thesis
        unfolding finishes_fallen [OF p l2] using l l2 Some y Inr
        by (auto simp: settle_def redis_fallback_def leave_memory_def)
    qed
  qed
  ultimately show ?thesis using True by simp
next
  case False
  have "finishes mk oor q r c r' a \<longleftrightarrow>
    finishes mk oor q r (c\<lparr>phase := Done (Inl (RedisFailed (algorithm (call_limit c)) e))\<rparr>) r' a"
  proof (rule finishes_by [where mv = Leave])
    show "mv' = Leave" if "brings q c mv'" "advance mk oor mv' r c \<noteq> None" for mv'
      using that assms False by (cases mv') (simp_all add: brings_def)
  qed (simp_all add: assms brings_def False)
  then show ?thesis using False finishes_done(1) by simp
qed

lemma uninterrupted:
  "finishes mk oor q r (new_call i k l (nonce q)) r' a \<longleftrightarrow> redis_allow mk oor r q k l = Some (r', a)"
proof (cases "scripts (algorithm l) = None \<or> window l sdiv microsecond \<le> 0")
  case True
  then show ?thesis
    using finishes_done(1) by (auto simp: new_call_def redis_allow_def split: option.split)
next
  case False
  let ?c = "new_call i k l (nonce q)"
  obtain entry where e: "scripts (algorithm l) = Some entry" using False by auto
  have p: "phase ?c = Asking" using False by (simp add: new_call_def)
  have c: "call_key ?c = k" "call_limit ?c = l" "call_nonce ?c = nonce q" by (simp_all add: new_call_def)
  have cf: "call_for k l (nonce q) = script_call_for entry k l (nonce q)" by (simp add: call_for_def e)
  obtain b x where ad: "admit (admit_at q) (breaker_of r) = (b, x)" by fastforce
  show ?thesis
  proof (cases x)
    case (Some err)
    have "ask (admit_at q) r ?c = (r\<lparr>breaker_of := b\<rparr>, ?c\<lparr>phase := Judged (Inl err)\<rparr>)"
      using ad Some by (simp add: ask_def)
    from finishes_asking [OF p this] show ?thesis
      using ad Some False e c
      by (auto simp: finishes_failed redis_allow_def breaker_do_def falls_back_def split: option.split)
  next
    case None
    let ?c1 = "?c\<lparr>probing := state (breaker_of r) = Open, sent := True, phase := Waiting\<rparr>"
    let ?s = "server q (script_call_for entry k l (nonce q))"
    let ?b = "record_result (record_at q) (call_error_of ?s) b"
    have "ask (admit_at q) r ?c = (r\<lparr>breaker_of := b\<rparr>, ?c1)" using ad None by (simp add: ask_def)
    note f = finishes_asking [OF p this]
    have w: "phase ?c1 = Waiting" by simp
    have "?s = server q (call_for (call_key ?c1) (call_limit ?c1) (call_nonce ?c1))" by (simp add: c cf)
    note f = f finishes_waiting [OF w this]
    let ?c2 = "?c1\<lparr>phase := Heard ?s\<rparr>"
    have h: "phase ?c2 = Heard ?s" by simp
    have "note_result (record_at q) ?s (r\<lparr>breaker_of := b\<rparr>) ?c2 = (r\<lparr>breaker_of := ?b\<rparr>, ?c2\<lparr>phase := Judged ?s\<rparr>)"
      by (simp add: note_result_def)
    note f = f finishes_heard [OF h this]
    show ?thesis
      unfolding f using ad None False e c
      by (cases ?s) (auto simp: finishes_failed finishes_replied redis_allow_def breaker_do_def falls_back_def
          split: option.split)
  qed
qed

section \<open>What one step leaves of a call\<close>

lemma advance_fell:
  assumes "advance mk oor mv r c = Some (r', c')" and "call_ok plan c" and "fell c = Some a"
  shows "fell c' = Some a"
  using assms
  by (cases mv; auto simp: advance_defs call_ok_def phase_ok_def split: phase.splits sum.splits option.splits prod.splits if_splits)

lemma execute_cases:
  assumes "execute n vis s = Some s'" and "cluster_inv mk plan s"
  obtains vals ks where "n < length (flights s)" "ran (flights s ! n) = None"
    "run_script (call_for (call_key (flights s ! n)) (call_limit (flights s ! n)) (call_nonce (flights s ! n))) vis
       (shared s) = (Inr vals, ks)"
    "s' = s\<lparr>shared := ks, flights := (flights s)[n := (flights s ! n)\<lparr>ran := Some vals\<rparr>]\<rparr>"
proof -
  have n: "n < length (flights s)" "sent (flights s ! n)" "ran (flights s ! n) = None"
    using assms(1) by (auto simp: execute_def split: if_splits)
  then have c: "plan (call_key (flights s ! n)) = call_limit (flights s ! n)" "serves (call_limit (flights s ! n))"
    "whole_micros (call_limit (flights s ! n))"
    using flight_ok [OF assms(2)] by (auto simp: call_ok_def)
  have "keyspace_inv plan (shared s)" using assms(2) by (simp add: cluster_inv_def)
  from run_script_ok [OF this c, of "call_nonce (flights s ! n)" vis] that n assms(1) show ?thesis
    by (auto simp: execute_def Let_def)
qed

lemma happen_flight:
  assumes "happen mk oor s e = Some s'" and "cluster_inv mk plan s" and "n < length (flights s)"
  shows "n < length (flights s')" and "made_with (flights s' ! n) = made_with (flights s ! n)"
    and "ran (flights s ! n) = Some v \<Longrightarrow> ran (flights s' ! n) = Some v"
    and "fell (flights s ! n) = Some a \<Longrightarrow> fell (flights s' ! n) = Some a"
proof -
  have "n < length (flights s') \<and> made_with (flights s' ! n) = made_with (flights s ! n) \<and>
    (ran (flights s ! n) = Some v \<longrightarrow> ran (flights s' ! n) = Some v) \<and>
    (fell (flights s ! n) = Some a \<longrightarrow> fell (flights s' ! n) = Some a)"
  proof (cases e)
    case (Arrive i k l nc)
    then show ?thesis using assms by (auto simp: arrive_Some nth_append)
  next
    case (Move m mv)
    then obtain r c where m: "m < length (flights s)"
      and a: "advance mk oor mv (gates s ! gate (flights s ! m)) (flights s ! m) = Some (r, c)"
      and s': "s' = s\<lparr>gates := (gates s)[gate (flights s ! m) := r], flights := (flights s)[m := c]\<rparr>"
      using assms(1) by (auto simp: make_move_Some)
    have "call_ok plan (flights s ! m)" using flight_ok [OF assms(2) m] by blast
    note k = advance_keeps [OF a] advance_fell [OF a this]
    show ?thesis using assms(3) k by (cases "m = n") (auto simp: s' Move)
  next
    case (Execute m vis x)
    then have "execute m vis s = Some s'" using assms(1) by simp
    from execute_cases [OF this assms(2)] obtain vals ks where r: "ran (flights s ! m) = None"
      and s': "s' = s\<lparr>shared := ks, flights := (flights s)[m := (flights s ! m)\<lparr>ran := Some vals\<rparr>]\<rparr>" by metis
    then show ?thesis
      using assms(3) Execute by (cases "m = n") (auto simp: made_with_def)
  qed
  then show "n < length (flights s')" "made_with (flights s' ! n) = made_with (flights s ! n)"
    "ran (flights s ! n) = Some v \<Longrightarrow> ran (flights s' ! n) = Some v"
    "fell (flights s ! n) = Some a \<Longrightarrow> fell (flights s' ! n) = Some a"
    by auto
qed

lemma happen_gates: "happen mk oor s e = Some s' \<Longrightarrow> length (gates s') = length (gates s)"
  by (cases e) (auto simp: arrive_Some make_move_Some execute_def Let_def split: if_splits prod.splits sum.splits)

lemma cluster_run_gates: "cluster_run mk oor s es = Some s' \<Longrightarrow> length (gates s') = length (gates s)"
proof (induction es arbitrary: s)
  case (Cons e es)
  then show ?case using happen_gates by (fastforce split: option.splits)
qed simp

section \<open>The script runs on the server\<close>

definition executions :: "happening list \<Rightarrow> (nat \<times> visit \<times> int) list" where
  "executions es = concat (map (\<lambda>e. case e of Execute n vis x \<Rightarrow> [(n, vis, x)] | _ \<Rightarrow> []) es)"

definition on_key :: "cluster \<Rightarrow> string \<Rightarrow> (nat \<times> 'x) list \<Rightarrow> (nat \<times> 'x) list" where
  "on_key s k xs = filter (\<lambda>(n, x). call_key (flights s ! n) = k) xs"

text \<open>The runs for one key, as calls with their true times.\<close>

definition timed_calls :: "cluster \<Rightarrow> string \<Rightarrow> happening list \<Rightarrow> timed_call list" where
  "timed_calls s k es = map (\<lambda>(n, vis, x). ((call_nonce (flights s ! n), vis), x)) (on_key s k (executions es))"

definition reply_of :: "cluster \<Rightarrow> nat \<times> visit \<times> int \<Rightarrow> visit \<times> reply" where
  "reply_of s q = (case q of (n, vis, x) \<Rightarrow> (vis, the (ran (flights s ! n))))"

lemma executions_snoc:
  "executions (es @ [e]) = executions es @ (case e of Execute n vis x \<Rightarrow> [(n, vis, x)] | _ \<Rightarrow> [])"
  by (simp add: executions_def)

lemma on_key_cong:
  assumes "\<forall>(n, x) \<in> set xs. n < length (flights s)" and "\<And>n. n < length (flights s) \<Longrightarrow> made_with (flights s' ! n) = made_with (flights s ! n)"
  shows "on_key s' k xs = on_key s k xs"
  unfolding on_key_def using assms by (intro filter_cong) (auto simp: made_with_def)

definition reached :: "nat \<Rightarrow> (float64 \<Rightarrow> int) \<Rightarrow> (string \<Rightarrow> limit) \<Rightarrow> (redis_cfg \<times> string series) list \<Rightarrow> happening list \<Rightarrow> cluster \<Rightarrow> bool" where
  "reached mk oor plan cs es s \<longleftrightarrow>
     cluster_run mk oor (boot cs) es = Some s \<and> (\<forall>e \<in> set es. planned_arrival plan e)"

lemma reached_inv: "reached mk oor plan cs es s \<Longrightarrow> cluster_inv mk plan s"
  using cluster_run_ok boot_inv by (auto simp: reached_def)

lemma reached_induct [consumes 1, case_names boot step]:
  assumes "reached mk oor plan cs es s" and "P [] (boot cs)"
    and "\<And>es s e s'. reached mk oor plan cs es s \<Longrightarrow> cluster_inv mk plan s \<Longrightarrow> P es s \<Longrightarrow>
      happen mk oor s e = Some s' \<Longrightarrow> planned_arrival plan e \<Longrightarrow> P (es @ [e]) s'"
  shows "P es s"
  using assms(1)
proof (induction es arbitrary: s rule: rev_induct)
  case Nil
  then show ?case using assms(2) by (simp add: reached_def)
next
  case (snoc e es)
  then obtain s1 where s1: "cluster_run mk oor (boot cs) es = Some s1" "happen mk oor s1 e = Some s"
    by (auto simp: reached_def cluster_run_snoc)
  then have r: "reached mk oor plan cs es s1" using snoc.prems by (simp add: reached_def)
  show ?case
    by (rule assms(3) [OF r reached_inv [OF r] snoc.IH [OF r] s1(2)]) (use snoc.prems in \<open>simp add: reached_def\<close>)
qed

text \<open>The calls the server has run for a key, in its order: the nonce and the visit.\<close>

definition script_calls :: "cluster \<Rightarrow> string \<Rightarrow> happening list \<Rightarrow> (string \<times> visit) list" where
  "script_calls s k es = map (\<lambda>(n, vis, x). (call_nonce (flights s ! n), vis)) (on_key s k (executions es))"

lemma script_calls_timed: "script_calls s k es = map fst (timed_calls s k es)"
  by (auto simp: script_calls_def timed_calls_def)

lemma executed:
  assumes "reached mk oor plan cs es s"
  shows "\<forall>(n, vis, x) \<in> set (executions es). n < length (flights s) \<and> ran (flights s ! n) \<noteq> None"
  using assms
proof (induction rule: reached_induct)
  case boot
  then show ?case by (simp add: executions_def)
next
  case (step es s e s')
  note same = happen_flight [OF step.hyps(3,2)]
  have later: "n < length (flights s') \<and> ran (flights s' ! n) \<noteq> None" if "(n, vis, x) \<in> set (executions es)" for n vis x
    using same(1,3) step.IH that by blast
  moreover have "n < length (flights s') \<and> ran (flights s' ! n) \<noteq> None" if "e = Execute n vis x" for n vis x
  proof -
    have "execute n vis s = Some s'" using step.hyps(3) that by simp
    from execute_cases [OF this step.hyps(2)] show ?thesis by (metis cluster.select_convs(2) cluster.surjective
      cluster.update_convs(2,3) length_list_update nth_list_update_eq call.select_convs(7) call.surjective
      call.update_convs(7) option.distinct(1))
  qed
  ultimately show ?case by (auto simp: executions_snoc split: happening.splits)
qed

text \<open>Steps that run no script leave the server and the record of its runs alone.\<close>

lemma unexecuted:
  assumes "happen mk oor s e = Some s'" and "\<And>n vis x. e \<noteq> Execute n vis x"
  shows "shared s' = shared s" and "executions (es @ [e]) = executions es"
  using assms by (cases e; auto simp: executions_snoc arrive_Some make_move_Some)+

text \<open>What the past runs say of a later state.\<close>

lemma past_runs:
  assumes "reached mk oor plan cs es s" and "happen mk oor s e = Some s'"
  shows "on_key s' k (executions es) = on_key s k (executions es)"
    and "map (reply_of s') (on_key s k (executions es)) = map (reply_of s) (on_key s k (executions es))"
    and "map (\<lambda>(n, vis, x). (call_nonce (flights s' ! n), vis)) (on_key s k (executions es)) = script_calls s k es"
proof -
  note same = happen_flight [OF assms(2) reached_inv [OF assms(1)]] and E = executed [OF assms(1)]
  show "on_key s' k (executions es) = on_key s k (executions es)"
    by (rule on_key_cong) (use E same(2) in auto)
  show "map (reply_of s') (on_key s k (executions es)) = map (reply_of s) (on_key s k (executions es))"
    using same(3) E by (force simp: on_key_def reply_of_def)
  show "map (\<lambda>(n, vis, x). (call_nonce (flights s' ! n), vis)) (on_key s k (executions es)) = script_calls s k es"
    using same(2) E by (auto simp: script_calls_def on_key_def made_with_def)
qed

text \<open>
  What the server has done for a key is a run of its script over the executions in their order,
  whatever instances they came from, and the replies are those the calls were given.
\<close>

context script_key
begin

lemma server_history:
  assumes "reached mk oor plan cs es s" and "ok (plan k)"
  shows "script_run (run_at (plan k)) (script_calls s k es) None =
      (map (reply_of s) (on_key s k (executions es)), entry_at (plan k) k (shared s))"
  using assms(1)
proof (induction rule: reached_induct)
  case boot
  then show ?case by (simp add: executions_def script_calls_def on_key_def boot_def fresh)
next
  case (step es s e s')
  note past = past_runs [OF step.hyps(1,3)]
  show ?case
  proof (cases "\<exists>n vis x. e = Execute n vis x")
    case False
    then have same: "shared s' = shared s" "executions (es @ [e]) = executions es"
      using unexecuted [OF step.hyps(3)] by blast+
    show ?thesis unfolding script_calls_def [of s'] same past by (rule step.IH)
  next
    case True
    then obtain n vis x where e: "e = Execute n vis x" by blast
    then have "execute n vis s = Some s'" using step.hyps(3) by simp
    from execute_cases [OF this step.hyps(2)] obtain vals ks where n: "n < length (flights s)"
      and r: "run_script (call_for (call_key (flights s ! n)) (call_limit (flights s ! n)) (call_nonce (flights s ! n))) vis
        (shared s) = (Inr vals, ks)"
      and s': "s' = s\<lparr>shared := ks, flights := (flights s)[n := (flights s ! n)\<lparr>ran := Some vals\<rparr>]\<rparr>" by metis
    have c: "plan (call_key (flights s ! n)) = call_limit (flights s ! n)" "serves (call_limit (flights s ! n))"
      using flight_ok [OF step.hyps(2) n] by (auto simp: call_ok_def)
    have es: "executions (es @ [e]) = executions es @ [(n, vis, x)]" by (simp add: executions_snoc e)
    have shared: "shared s' = ks" by (simp add: s')
    have same: "call_key (flights s' ! n) = call_key (flights s ! n)" "call_nonce (flights s' ! n) = call_nonce (flights s ! n)"
      and reply: "reply_of s' (n, vis, x) = (vis, vals)" using n by (simp_all add: s' reply_of_def)
    have split: "on_key s' k (executions (es @ [e])) =
        on_key s k (executions es) @ (if call_key (flights s ! n) = k then [(n, vis, x)] else [])"
      using past(1) by (simp add: es on_key_def same)
    show ?thesis
    proof (cases "call_key (flights s ! n) = k")
      case True
      with c r have "run_at (plan k) (call_nonce (flights s ! n)) vis (entry_at (plan k) k (shared s))
          = (vals, entry_at (plan k) k ks)" by (intro own [OF assms(2)]) auto
      then show ?thesis
        unfolding script_calls_def [of s'] split map_append past(2,3) script_run_append step.IH
        using True by (simp add: same reply shared)
    next
      case False
      from other [OF assms(2) c(2) this r] show ?thesis
        unfolding script_calls_def [of s'] split map_append past(2,3) using step.IH False by (simp add: shared)
    qed
  qed
qed

end

text \<open>The calls redis granted, by the execution that granted them.\<close>

definition redis_grants :: "cluster \<Rightarrow> string \<Rightarrow> happening list \<Rightarrow> (nat \<times> visit \<times> int) list" where
  "redis_grants s k es =
     filter (\<lambda>(n, vis, x). case phase (flights s ! n) of Done (Inr d) \<Rightarrow> allowed d \<and> \<not> degraded d | _ \<Rightarrow> False)
       (on_key s k (executions es))"

lemma zip_two_maps: "zip (map f xs) (map g xs) = map (\<lambda>x. (f x, g x)) xs"
  by (induction xs) auto

lemma done_granted:
  assumes "call_ok plan c" and "phase c = Done (Inr d)" and "allowed d" and "\<not> degraded d"
  shows "hd (the (ran c)) = 1"
proof -
  obtain vals where v: "ran c = Some vals" "decision_from_reply vals (limit_quota (call_limit c)) = Inr d"
    using assms by (auto simp: call_ok_def phase_ok_def)
  then have "reply_ok (limit_quota (call_limit c)) vals" using assms(1) by (auto simp: call_ok_def)
  from reply_answer(2) [OF this] show ?thesis using v assms(3) by simp
qed

text \<open>Behind every such decision is a run of its own script that granted it.\<close>

lemma grants_ran:
  assumes "reached mk oor plan cs es s"
  shows "length (filter Q (redis_grants s k es))
    \<le> length (filter (\<lambda>q. hd (snd (reply_of s q)) = 1 \<and> Q q) (on_key s k (executions es)))"
proof -
  have "hd (snd (reply_of s q)) = 1" if "q \<in> set (redis_grants s k es)" for q
  proof -
    obtain n vis x where q: "q = (n, vis, x)" by (cases q) auto
    then have "(n, vis, x) \<in> set (executions es)" using that by (auto simp: redis_grants_def on_key_def)
    then have "n < length (flights s)" using executed [OF assms] by blast
    then have "call_ok plan (flights s ! n)" using flight_ok [OF reached_inv [OF assms]] by blast
    from done_granted [OF this] that show ?thesis
      by (auto simp: q redis_grants_def reply_of_def split: phase.splits sum.splits)
  qed
  then show ?thesis
    by (auto simp: redis_grants_def filter_filter case_prod_beta intro!: length_filter_mono)
qed

text \<open>The same runs, counted over the calls with their replies.\<close>

lemma zipped_runs:
  "length (filter (\<lambda>(q, t, r). hd r = 1 \<and> P (snd q)) (zip (timed_calls s k es) (map (reply_of s) (on_key s k (executions es)))))
    = length (filter (\<lambda>q. hd (snd (reply_of s q)) = 1 \<and> (case q of (n, vis, x) \<Rightarrow> P x)) (on_key s k (executions es)))"
  by (simp add: timed_calls_def zip_two_maps filter_map o_def case_prod_beta)

lemma redis_quota:
  assumes "reached mk oor plan cs es s" and "serves_sliding (plan k)" and "whole_micros (plan k)"
    and "distinct (map stamp (timed_calls s k es))" and "sorted_wrt only_loses (timed_calls s k es)"
  shows "int (length (filter (\<lambda>(n, vis, x). y < x \<and> x \<le> y + script_window (plan k)) (redis_grants s k es)))
    \<le> rate (plan k)"
proof -
  let ?c = "(rate (plan k), script_window (plan k))" and ?E = "on_key s k (executions es)"
  let ?P = "\<lambda>x. y < x \<and> x \<le> y + snd ?c"
  have "fst (shared_log ?c (timed_calls s k es)) = map (reply_of s) ?E"
    using sk.server_history [OF assms(1,2)] by (simp add: shared_log_def script_calls_timed)
  then have "length (filter (\<lambda>q. ?P (snd q)) (shared_grants ?c (timed_calls s k es)))
      = length (filter (\<lambda>(q, t, r). hd r = 1 \<and> ?P (snd q)) (zip (timed_calls s k es) (map (reply_of s) ?E)))"
    by (simp add: shared_grants_def filter_map filter_filter o_def case_prod_unfold)
  with grants_ran [OF assms(1), of "\<lambda>(n, vis, x). ?P x" k] shared_interval [OF script_args(2) [OF assms(2,3)] assms(4,5), of y]
    zipped_runs [where P = ?P and s = s and k = k and es = es]
  show ?thesis by simp
qed

section \<open>The fallbacks\<close>

definition settled :: "happening list \<Rightarrow> (nat \<times> gotime) list" where
  "settled es = concat (map (\<lambda>e. case e of Move n (Settle t) \<Rightarrow> [(n, t)] | _ \<Rightarrow> []) es)"

definition settles :: "cluster \<Rightarrow> nat \<Rightarrow> happening list \<Rightarrow> (nat \<times> gotime) list" where
  "settles s i es = filter (\<lambda>(n, t). gate (flights s ! n) = i) (settled es)"

definition fallback_requests :: "cluster \<Rightarrow> (nat \<times> gotime) list \<Rightarrow> (gotime \<times> string \<times> limit) list" where
  "fallback_requests s xs = map (\<lambda>(n, t). (t, call_key (flights s ! n), call_limit (flights s ! n))) xs"

definition fell_of :: "cluster \<Rightarrow> nat \<times> gotime \<Rightarrow> answer" where
  "fell_of s q = the (fell (flights s ! fst q))"

lemma settled_snoc:
  "settled (es @ [e]) = settled es @ (case e of Move n (Settle t) \<Rightarrow> [(n, t)] | _ \<Rightarrow> [])"
  by (simp add: settled_def)

lemma advance_fallback:
  "advance mk oor mv r c = Some (r', c') \<Longrightarrow> (\<And>t. mv \<noteq> Settle t) \<Longrightarrow> fallback r' = fallback r"
  by (cases mv; auto simp: advance_defs split: phase.splits sum.splits option.splits prod.splits if_splits)

lemma advance_settle:
  assumes "advance mk oor (Settle t) r c = Some (r', c')" and "redis_inv mk plan r" and "call_ok plan c"
  obtains m m' a where "fallback r = Some m" "memory_allow mk oor m t (call_key c) (call_limit c) = Some (m', a)"
    "fallback r' = Some m'" "fell c' = Some a"
proof -
  from assms(1) obtain e where p: "phase c = Judged (Inl e)" "falls_back r e"
    "settle mk oor t (the (fallback r)) r c = (r', c')"
    by (auto split: phase.splits sum.splits if_splits)
  then obtain m where m: "fallback r = Some m" by (auto simp: falls_back_def)
  then have "memory_inv mk plan m" using assms(2) by (simp add: redis_inv_def)
  then show ?thesis
    by (rule settle_memory [OF _ assms(3), of mk m oor t r]) (use p(3) m in \<open>auto intro: that\<close>)
qed

text \<open>
  What an instance's fallback has answered is a run of the in-memory limiter over the calls that
  fell back there, in the order they took its mutex.
\<close>

lemma fallback_history:
  assumes "reached mk oor plan cs es s"
  shows "(\<forall>(n, t) \<in> set (settled es). n < length (flights s) \<and> fell (flights s ! n) \<noteq> None) \<and>
    (\<forall>i < length cs.
       (fallback (gates s ! i) = None \<longrightarrow> settles s i es = []) \<and>
       (\<forall>m. fallback (gates s ! i) = Some m \<longrightarrow>
          allow_all (memory_allow mk oor) new_memory_limiter (fallback_requests s (settles s i es)) =
            Some (m, map (fell_of s) (settles s i es))))"
  using assms
proof (induction rule: reached_induct)
  case boot
  then show ?case
    by (auto simp: settled_def settles_def boot_def fallback_requests_def new_redis_limiter_def split: prod.splits if_splits)
next
  case (step es s e s')
  note same = happen_flight [OF step.hyps(3,2)]
  have N: "length (gates s) = length cs" "length (gates s') = length cs"
    using step.hyps(1,3) cluster_run_gates happen_gates by (fastforce simp: reached_def boot_def)+
  have old: "n < length (flights s) \<and> fell (flights s ! n) \<noteq> None" if "(n, t) \<in> set (settled es)" for n t
    using step.IH that by auto
  have later: "n < length (flights s') \<and> fell (flights s' ! n) \<noteq> None" if "(n, t) \<in> set (settled es)" for n t
    using same(1,4) old [OF that] by blast
  have S: "settles s' i es = settles s i es" for i
    unfolding settles_def using same(2) old by (intro filter_cong) (auto simp: made_with_def)
  have R: "fallback_requests s' (settles s i es) = fallback_requests s (settles s i es)" for i
    using same(2) old by (auto simp: fallback_requests_def settles_def made_with_def)
  have F: "map (fell_of s') (settles s i es) = map (fell_of s) (settles s i es)" for i
    using same(4) old by (force simp: fell_of_def settles_def)
  have quiet: ?case if "settled (es @ [e]) = settled es" "\<forall>i < length cs. fallback (gates s' ! i) = fallback (gates s ! i)"
  proof -
    have "settles s' i (es @ [e]) = settles s i es" for i using S that(1) by (simp add: settles_def)
    then show ?thesis using step.IH later that by (auto simp: R F)
  qed
  show ?case
  proof (cases e)
    case (Arrive i k l nc)
    then show ?thesis using step.hyps(3) by (intro quiet) (auto simp: settled_snoc arrive_Some)
  next
    case (Execute n vis x)
    then have "gates s' = gates s"
      using step.hyps(3) by (auto simp: execute_def Let_def split: if_splits prod.splits sum.splits)
    then show ?thesis using Execute by (intro quiet) (auto simp: settled_snoc)
  next
    case (Move n mv)
    let ?c = "flights s ! n"
    obtain r c where n: "n < length (flights s)"
      and a: "advance mk oor mv (gates s ! gate ?c) ?c = Some (r, c)"
      and s': "s' = s\<lparr>gates := (gates s)[gate ?c := r], flights := (flights s)[n := c]\<rparr>"
      using step.hyps(3) Move by (auto simp: make_move_Some)
    note f = flight_ok [OF step.hyps(2) n]
    show ?thesis
    proof (cases "\<exists>t. mv = Settle t")
      case False
      then have "fallback r = fallback (gates s ! gate ?c)" using advance_fallback [OF a] by blast
      moreover have "settled (es @ [e]) = settled es" using False Move by (auto simp: settled_snoc split: move.split)
      ultimately show ?thesis using f N by (intro quiet) (auto simp: s' nth_list_update)
    next
      case True
      then obtain t where t: "mv = Settle t" by blast
      obtain m m' b where m: "fallback (gates s ! gate ?c) = Some m"
        "memory_allow mk oor m t (call_key ?c) (call_limit ?c) = Some (m', b)" "fallback r = Some m'" "fell c = Some b"
        using advance_settle [OF a [unfolded t]] f by blast
      have e: "settled (es @ [e]) = settled es @ [(n, t)]" by (simp add: settled_snoc Move t)
      have c: "gate c = gate ?c" "call_key c = call_key ?c" "call_limit c = call_limit ?c"
        using advance_keeps(1) [OF a] by (simp_all add: made_with_def)
      have new: "settles s' i (es @ [e]) = settles s i es @ (if gate ?c = i then [(n, t)] else [])" for i
        using S n c by (auto simp: settles_def e s')
      have last: "fallback_requests s' [(n, t)] = [(t, call_key ?c, call_limit ?c)]" "fell_of s' (n, t) = b"
        using n c m(4) by (simp_all add: fallback_requests_def fell_of_def s')
      have app: "fallback_requests s' (xs @ ys) = fallback_requests s' xs @ fallback_requests s' ys" for xs ys
        by (simp add: fallback_requests_def)
      have "n < length (flights s')" "fell (flights s' ! n) \<noteq> None" using n m(4) by (simp_all add: s')
      moreover have "(fallback (gates s' ! i) = None \<longrightarrow> settles s' i (es @ [e]) = []) \<and>
         (\<forall>m. fallback (gates s' ! i) = Some m \<longrightarrow>
            allow_all (memory_allow mk oor) new_memory_limiter (fallback_requests s' (settles s' i (es @ [e]))) =
              Some (m, map (fell_of s') (settles s' i (es @ [e]))))" if "i < length cs" for i
      proof (cases "gate ?c = i")
        case True
        have g: "gates s' ! i = r" using True that N by (simp add: s')
        have "allow_all (memory_allow mk oor) new_memory_limiter (fallback_requests s (settles s i es)) =
            Some (m, map (fell_of s) (settles s i es))"
          using step.IH m(1) True that by blast
        then show ?thesis
          using m(2,3) True by (simp add: g new app R F last allow_all_append)
      next
        case False
        then have "gates s' ! i = gates s ! i" by (simp add: s')
        then show ?thesis using step.IH False that by (simp add: new R F)
      qed
      ultimately show ?thesis using later by (auto simp: e)
    qed
  qed
qed

text \<open>The calls an instance's fallback granted, by the clock reading it granted them at.\<close>

definition memory_grants :: "cluster \<Rightarrow> nat \<Rightarrow> string \<Rightarrow> happening list \<Rightarrow> (nat \<times> gotime) list" where
  "memory_grants s i k es =
     filter (\<lambda>(n, t). case phase (flights s ! n) of Done (Inr d) \<Rightarrow> allowed d \<and> degraded d | _ \<Rightarrow> False)
       (on_key s k (settles s i es))"

definition fallback_times :: "cluster \<Rightarrow> nat \<Rightarrow> string \<Rightarrow> happening list \<Rightarrow> gotime list" where
  "fallback_times s i k es = map snd (on_key s k (settles s i es))"

lemma asked_requests: "asked k (fallback_requests s xs) = map snd (on_key s k xs)"
  by (induction xs) (auto simp: fallback_requests_def on_key_def)

lemma granted_requests:
  "granted (zip (map snd (on_key s k xs)) (answers_for k (fallback_requests s xs) (map (fell_of s) xs))) =
     map snd (filter (\<lambda>q. case fell_of s q of Inl e \<Rightarrow> False | Inr d \<Rightarrow> allowed d) (on_key s k xs))"
proof (induction xs)
  case (Cons q xs)
  then show ?case
    by (cases q) (auto simp: fallback_requests_def on_key_def answers_for_def granted_def)
qed (simp add: fallback_requests_def on_key_def answers_for_def granted_def)

lemma memory_quota:
  assumes "reached mk oor plan cs es s" and "serves_sliding (plan k)" and "i < length cs"
    and "\<forall>t \<in> set (fallback_times s i k es). sliding_coh c (plan k) t"
    and "sorted (map instant (fallback_times s i k es))"
  shows "int (length (filter (\<lambda>(n, t). z < instant t \<and> instant t \<le> z + window (plan k)) (memory_grants s i k es)))
    \<le> rate (plan k)"
proof -
  let ?xs = "settles s i es" and ?W = "\<lambda>t. z < instant t \<and> instant t \<le> z + window (plan k)"
  note h = fallback_history [OF assms(1)]
  have ok: "call_ok plan (flights s ! n)" if "(n, t) \<in> set ?xs" for n t
    using h that flight_ok [OF reached_inv [OF assms(1)]] by (fastforce simp: settles_def)
  let ?A = "\<lambda>q. case fell_of s q of Inl e \<Rightarrow> False | Inr d \<Rightarrow> allowed d"
  have "?A q" if "q \<in> set (memory_grants s i k es)" for q
  proof -
    obtain n t where q: "q = (n, t)" by (cases q) auto
    then have "call_ok plan (flights s ! n)" using that ok by (auto simp: memory_grants_def on_key_def)
    with that show ?thesis
      by (auto simp: q memory_grants_def fell_of_def call_ok_def phase_ok_def split: phase.splits sum.splits)
  qed
  then have "length (filter (\<lambda>(n, t). ?W t) (memory_grants s i k es))
      \<le> length (filter (\<lambda>q. ?A q \<and> ?W (snd q)) (on_key s k ?xs))"
    by (auto simp: memory_grants_def filter_filter case_prod_beta intro!: length_filter_mono)
  moreover have "int (length (filter (\<lambda>q. ?A q \<and> ?W (snd q)) (on_key s k ?xs))) \<le> rate (plan k)"
  proof (cases "fallback (gates s ! i)")
    case None
    then have "?xs = []" using h assms(3) by blast
    then show ?thesis using limit64D(1) [of "plan k"] assms(2) by (simp add: on_key_def serves_sliding_def)
  next
    case (Some m)
    then have run: "allow_all (memory_allow mk oor) new_memory_limiter (fallback_requests s ?xs) = Some (m, map (fell_of s) ?xs)"
      using h assms(3) by blast
    have "\<forall>(t, j, l) \<in> set (fallback_requests s ?xs). plan j = l \<and> serves l"
      using ok by (auto simp: fallback_requests_def call_ok_def)
    from sliding_shared_memory [OF this assms(2) _ _ run, of c z] assms(4,5)
    have "int (length (filter ?W (map snd (filter ?A (on_key s k ?xs))))) \<le> rate (plan k)"
      by (simp add: asked_requests granted_requests fallback_times_def)
    then show ?thesis by (simp add: filter_map o_def conj_commute cong: filter_cong)
  qed
  ultimately show ?thesis by simp
qed

section \<open>Each breaker on its own\<close>

text \<open>What an event is to the breaker of instance \<open>i\<close>, and who is under way there.\<close>

definition breaker_events :: "nat \<Rightarrow> cluster \<Rightarrow> happening \<Rightarrow> event list" where
  "breaker_events i s e =
     (case e of
        Move n mv \<Rightarrow>
          if n < length (flights s) \<and> gate (flights s ! n) = i then
            (case mv of
               Ask t \<Rightarrow>
                 (if snd (admit t (breaker_of (gates s ! i))) = None
                  then [Admitted t (state (breaker_of (gates s ! i)) = Open)] else [Rejected t])
             | Note t \<Rightarrow> (case phase (flights s ! n) of Heard q \<Rightarrow> [Finished t (probing (flights s ! n)) (call_error_of q)] | _ \<Rightarrow> [])
             | _ \<Rightarrow> [])
          else []
      | _ \<Rightarrow> [])"

fun breaker_trace :: "nat \<Rightarrow> (float64 \<Rightarrow> int) \<Rightarrow> nat \<Rightarrow> cluster \<Rightarrow> happening list \<Rightarrow> event list" where
  "breaker_trace mk oor i s [] = []"
| "breaker_trace mk oor i s (e # es) =
     breaker_events i s e @ (case happen mk oor s e of None \<Rightarrow> [] | Some s' \<Rightarrow> breaker_trace mk oor i s' es)"

definition in_redis :: "call \<Rightarrow> bool" where
  "in_redis c \<longleftrightarrow> (case phase c of Waiting \<Rightarrow> True | Heard q \<Rightarrow> True | _ \<Rightarrow> False)"

definition under_way :: "nat \<Rightarrow> cluster \<Rightarrow> bool multiset" where
  "under_way i s = image_mset probing (filter_mset (\<lambda>c. gate c = i \<and> in_redis c) (mset (flights s)))"

definition breaker_view :: "nat \<Rightarrow> cluster \<Rightarrow> calls" where
  "breaker_view i s = (breaker_of (gates s ! i), under_way i s)"

lemma mset_update_split:
  assumes "n < length xs"
  shows "\<exists>M. mset xs = add_mset (xs ! n) M \<and> (\<forall>y. mset (xs[n := y]) = add_mset y M)"
proof -
  have "mset xs = add_mset (xs ! n) (mset xs - {#xs ! n#})" using assms by simp
  moreover have "mset (xs[n := y]) = add_mset y (mset xs - {#xs ! n#})" for y by (rule mset_update [OF assms])
  ultimately show ?thesis by blast
qed

lemma call_steps_one: "call_step x e y \<Longrightarrow> call_steps x [e] y"
  by (rule call_steps.more [OF _ call_steps.none])

text \<open>A move of a call of the instance is a step of its breaker with the others as they are.\<close>

lemma breaker_move:
  assumes "advance mk oor mv r c = Some (r', c')" and "call_ok plan c"
  defines "u \<equiv> \<lambda>c M. if in_redis c then add_mset (probing c) M else M"
  shows "call_steps (breaker_of r, u c M)
    (case mv of
       Ask t \<Rightarrow> (if snd (admit t (breaker_of r)) = None then [Admitted t (state (breaker_of r) = Open)] else [Rejected t])
     | Note t \<Rightarrow> (case phase c of Heard q \<Rightarrow> [Finished t (probing c) (call_error_of q)] | _ \<Rightarrow> [])
     | _ \<Rightarrow> []) (breaker_of r', u c' M)"
proof (cases mv)
  case (Ask t)
  then have c: "phase c = Asking" "ask t r c = (r', c')" using assms(1) by (simp_all split: if_splits)
  obtain b x where ad: "admit t (breaker_of r) = (b, x)" by fastforce
  show ?thesis
  proof (cases x)
    case None
    then show ?thesis
      using call_step.admitted [of t "breaker_of r" b M] ad c Ask
      by (auto simp: ask_def u_def in_redis_def intro!: call_steps_one)
  next
    case (Some e)
    then show ?thesis
      using call_step.rejected [of t "breaker_of r" b e M] ad c Ask
      by (auto simp: ask_def u_def in_redis_def intro!: call_steps_one)
  qed
next
  case (Note t)
  then obtain q where q: "phase c = Heard q" "note_result t q r c = (r', c')"
    using assms(1) by (cases "phase c") simp_all
  then show ?thesis
    using call_step.finished [of "probing c" "add_mset (probing c) M" "breaker_of r" t "call_error_of q"] Note
    by (auto simp: note_result_def u_def in_redis_def intro!: call_steps_one)
next
  case (Hear q)
  then show ?thesis
    using assms(1) by (auto simp: u_def in_redis_def split: if_splits intro: call_steps.none)
next
  case (Settle t)
  then have "breaker_of r' = breaker_of r \<and> \<not> in_redis c \<and> \<not> in_redis c'"
    using assms(1) by (auto simp: settle_def in_redis_def split: phase.splits sum.splits if_splits option.splits prod.splits)
  then show ?thesis using Settle by (simp add: u_def call_steps.none)
next
  case Leave
  then have "breaker_of r' = breaker_of r \<and> \<not> in_redis c \<and> \<not> in_redis c'"
    using assms(1)
    by (auto simp: leave_redis_def leave_memory_def in_redis_def split: phase.splits sum.splits if_splits)
  then show ?thesis using Leave by (simp add: u_def call_steps.none)
qed

lemma breaker_step:
  assumes "happen mk oor s e = Some s'" and "cluster_inv mk plan s" and "i < length (gates s)"
  shows "call_steps (breaker_view i s) (breaker_events i s e) (breaker_view i s')"
proof (cases e)
  case (Arrive j k l nc)
  then have "breaker_view i s' = breaker_view i s"
    using assms(1) by (auto simp: arrive_Some breaker_view_def under_way_def in_redis_def new_call_def)
  then show ?thesis using Arrive by (simp add: breaker_events_def call_steps.none)
next
  case (Execute n vis x)
  then have "execute n vis s = Some s'" using assms(1) by simp
  from execute_cases [OF this assms(2)] obtain vals ks where n: "n < length (flights s)"
    and s': "s' = s\<lparr>shared := ks, flights := (flights s)[n := (flights s ! n)\<lparr>ran := Some vals\<rparr>]\<rparr>" by metis
  obtain M where "mset (flights s) = add_mset (flights s ! n) M" "\<forall>y. mset ((flights s)[n := y]) = add_mset y M"
    using mset_update_split [OF n] by blast
  then have "breaker_view i s' = breaker_view i s"
    by (simp add: s' breaker_view_def under_way_def in_redis_def)
  then show ?thesis using Execute by (simp add: breaker_events_def call_steps.none)
next
  case (Move n mv)
  let ?c = "flights s ! n"
  obtain r c where n: "n < length (flights s)"
    and a: "advance mk oor mv (gates s ! gate ?c) ?c = Some (r, c)"
    and s': "s' = s\<lparr>gates := (gates s)[gate ?c := r], flights := (flights s)[n := c]\<rparr>"
    using assms(1) Move by (auto simp: make_move_Some)
  note f = flight_ok [OF assms(2) n]
  have g: "gate c = gate ?c" using advance_keeps(1) [OF a] by (simp add: made_with_def)
  obtain M where M: "mset (flights s) = add_mset ?c M" "\<forall>y. mset ((flights s)[n := y]) = add_mset y M"
    using mset_update_split [OF n] by blast
  show ?thesis
  proof (cases "gate ?c = i")
    case False
    then have "breaker_view i s' = breaker_view i s"
      by (simp add: s' breaker_view_def under_way_def M g)
    then show ?thesis using Move False by (simp add: breaker_events_def call_steps.none)
  next
    case True
    let ?M = "image_mset probing (filter_mset (\<lambda>c. gate c = i \<and> in_redis c) M)"
    have v: "breaker_view i s = (breaker_of (gates s ! gate ?c), if in_redis ?c then add_mset (probing ?c) ?M else ?M)"
      using True by (simp add: breaker_view_def under_way_def M)
    have v': "breaker_view i s' = (breaker_of r, if in_redis c then add_mset (probing c) ?M else ?M)"
      using True g assms(3) by (simp add: breaker_view_def under_way_def s' M)
    have ev: "breaker_events i s e = (case mv of
        Ask t \<Rightarrow> (if snd (admit t (breaker_of (gates s ! gate ?c))) = None
                  then [Admitted t (state (breaker_of (gates s ! gate ?c)) = Open)] else [Rejected t])
      | Note t \<Rightarrow> (case phase ?c of Heard q \<Rightarrow> [Finished t (probing ?c) (call_error_of q)] | _ \<Rightarrow> [])
      | _ \<Rightarrow> [])"
      using True n Move by (cases mv) (simp_all add: breaker_events_def)
    have "call_ok plan ?c" using f by blast
    then show ?thesis unfolding v v' ev by (rule breaker_move [OF a])
  qed
qed

lemma breaker_simulated:
  assumes "cluster_run mk oor s es = Some s'" and "\<forall>e \<in> set es. planned_arrival plan e" and "cluster_inv mk plan s"
    and "i < length (gates s)"
  shows "call_steps (breaker_view i s) (breaker_trace mk oor i s es) (breaker_view i s')"
  using assms
proof (induction es arbitrary: s)
  case Nil
  then show ?case by (simp add: call_steps.none)
next
  case (Cons e es)
  then obtain s1 where s1: "happen mk oor s e = Some s1" "cluster_run mk oor s1 es = Some s'"
    by (auto split: option.splits)
  have "cluster_inv mk plan s1" by (rule happen_ok [OF Cons.prems(3) _ s1(1)]) (use Cons.prems(2) in simp)
  then have "call_steps (breaker_view i s1) (breaker_trace mk oor i s1 es) (breaker_view i s')"
    using Cons.IH [OF s1(2)] Cons.prems(2,4) happen_gates [OF s1(1)] by simp
  with breaker_step [OF s1(1) Cons.prems(3,4)] show ?case by (simp add: s1(1) call_steps_append)
qed

lemma boot_view: "i < length cs \<Longrightarrow> breaker_view i (boot cs) = idle"
  by (simp add: breaker_view_def under_way_def boot_def idle_def new_redis_limiter_def split: prod.split)

section \<open>Properties\<close>

text \<open>
  C2. What every client of a sliding-window key can get out of \<open>N\<close> instances, however their calls
  interleave, time out, lose their replies, hang up or find the circuits open: over a true interval of
  one window redis grants at most the rate, and together with what the fallbacks grant over one window of
  their own clocks it is at most \<open>N + 1\<close> times the rate. So over-admission is bounded by the number
  of instances, also while redis is out of reach and comes back with its keys. The clocks of the
  instances do not step back, the server's may only lose time, its active expiry may delete expired keys
  at any time, and no two calls draw the same nonce for the same microsecond. The window is at least a
  microsecond, and the numbers of the script are within the range where Lua is exact (\<open>lua_exact\<close>).
\<close>

theorem instances_over_admission:
  assumes "cluster_run mk oor (boot cs) es = Some s" and "\<forall>e \<in> set es. planned_arrival plan e"
    and "serves_sliding (plan k)" and "whole_micros (plan k)"
    and "lua_exact (plan k) (map clock_at (timed_calls s k es))"
    and "distinct (map stamp (timed_calls s k es))" and "sorted_wrt only_loses (timed_calls s k es)"
    and "\<forall>i < length cs. (\<forall>t \<in> set (fallback_times s i k es). sliding_coh c (plan k) t) \<and>
      sorted (map instant (fallback_times s i k es))"
  shows "int (length (filter (\<lambda>(n, vis, x). y < x \<and> x \<le> y + script_window (plan k)) (redis_grants s k es)))
      \<le> rate (plan k) \<and>
    int (length (filter (\<lambda>(n, vis, x). y < x \<and> x \<le> y + script_window (plan k)) (redis_grants s k es))) +
      (\<Sum>i < length cs. int (length (filter (\<lambda>(n, t). z i < instant t \<and> instant t \<le> z i + window (plan k))
         (memory_grants s i k es))))
      \<le> (int (length cs) + 1) * rate (plan k)"
proof -
  have r: "reached mk oor plan cs es s" using assms(1,2) by (simp add: reached_def)
  have "(\<Sum>i < length cs. int (length (filter (\<lambda>(n, t). z i < instant t \<and> instant t \<le> z i + window (plan k))
         (memory_grants s i k es)))) \<le> (\<Sum>i < length cs. rate (plan k))"
    using memory_quota [OF r assms(3)] assms(8) by (intro sum_mono) blast
  then show ?thesis using redis_quota [OF r assms(3,4,6,7), of y] by (simp add: algebra_simps)
qed

text \<open>
  C7. The breaker of every instance sees a run of the calls of \<open>Breaker\<close>: whatever the callers of all
  instances do, the events of one instance, taken in their order, are steps of that machine from its
  idle state, and the calls in flight there are those that wait for redis. Its bounds and its liveness
  therefore hold for every instance.
\<close>

theorem instance_breaker_refines:
  assumes "cluster_run mk oor (boot cs) es = Some s" and "\<forall>e \<in> set es. planned_arrival plan e" and "i < length cs"
  shows "call_steps idle (breaker_trace mk oor i (boot cs) es) (breaker_of (gates s ! i), under_way i s)"
proof -
  have "i < length (gates (boot cs))" using assms(3) by (simp add: boot_def)
  from breaker_simulated [OF assms(1,2) boot_inv this] show ?thesis
    unfolding boot_view [OF assms(3)] by (simp add: breaker_view_def)
qed

text \<open>
  C8. In every reachable state no call has panicked, every decision returned has its limit's shape and is
  either the reply the call's own script gave or its fallback's answer, every gauge marks exactly one
  backend, every breaker's gauge is its state's code and its counter in range, and a half-open
  circuit has its probe in flight at its own instance.
\<close>

theorem instances_reachable_states:
  assumes "cluster_run mk oor (boot cs) es = Some s" and "\<forall>e \<in> set es. planned_arrival plan e"
  shows "(\<forall>c \<in> set (flights s). phase c \<noteq> Panicked \<and>
      (\<forall>d. phase c = Done (Inr d) \<longrightarrow> decision_ok (limit_quota (call_limit c)) d \<and>
        (if degraded d then \<exists>d'. fell c = Some (Inr d') \<and> d = d'\<lparr>degraded := True\<rparr>
         else ran c \<noteq> None \<and> decision_from_reply (the (ran c)) (limit_quota (call_limit c)) = Inr d))) \<and>
    (\<forall>i < length cs. (\<exists>!a. one_hot a (backend_gauge (gates s ! i))) \<and> breaker_inv (breaker_of (gates s ! i)) \<and>
      (state (breaker_of (gates s ! i)) = HalfOpen \<longrightarrow> True \<in># under_way i s))"
proof -
  have r: "reached mk oor plan cs es s" using assms by (simp add: reached_def)
  note inv = reached_inv [OF r]
  have "phase c \<noteq> Panicked \<and>
      (\<forall>d. phase c = Done (Inr d) \<longrightarrow> decision_ok (limit_quota (call_limit c)) d \<and>
        (if degraded d then \<exists>d'. fell c = Some (Inr d') \<and> d = d'\<lparr>degraded := True\<rparr>
         else ran c \<noteq> None \<and> decision_from_reply (the (ran c)) (limit_quota (call_limit c)) = Inr d))"
    if "c \<in> set (flights s)" for c
  proof -
    have "call_ok plan c" using inv that by (simp add: cluster_inv_def)
    then show ?thesis by (auto simp: call_ok_def phase_ok_def)
  qed
  moreover have "(\<exists>!a. one_hot a (backend_gauge (gates s ! i))) \<and> breaker_inv (breaker_of (gates s ! i)) \<and>
      (state (breaker_of (gates s ! i)) = HalfOpen \<longrightarrow> True \<in># under_way i s)" if i: "i < length cs" for i
  proof -
    have g: "i < length (gates (boot cs))" "i < length (gates s)"
      using i cluster_run_gates [OF assms(1)] by (simp_all add: boot_def)
    have "\<exists>!a. one_hot a (backend_gauge (gates s ! i))"
      using inv g(2) one_hot_unique by (auto simp: cluster_inv_def redis_inv_def)
    moreover have "call_steps idle (breaker_trace mk oor i (boot cs) es) (breaker_view i s)"
      using breaker_simulated [OF assms boot_inv g(1)] boot_view [OF i] by simp
    from call_steps_inv [OF this idle_inv] have "calls_inv (breaker_view i s)" .
    ultimately show ?thesis by (simp add: calls_inv_def breaker_view_def)
  qed
  ultimately show ?thesis by blast
qed

section \<open>Witnesses\<close>

text \<open>Two instances under degrade: redis grants the call of the first one; the second one's script
  runs as well, but its reply is lost and the fallback grants the call.\<close>

definition two_gateways :: "(redis_cfg \<times> string series) list" where
  "two_gateways = [(demo_cfg, []), (demo_cfg, [])]"

definition search_key :: string where "search_key = ''/search:ip:::1''"

definition lost_reply :: "happening list" where
  "lost_reply =
     [Arrive 0 search_key search_limit ''a'', Arrive 1 search_key search_limit ''b'',
      Move 0 (Ask (process_time 100)), Move 1 (Ask (process_time 100)),
      Execute 1 (None, 1700000000000000) 0, Execute 0 (Some (1700000000000000, 1), 1700000000000001) 1,
      Move 1 (Hear (Inl (CallFailed ''i/o timeout''))), Move 0 (Hear (Inr [1, 3, 1700000010000001, 0])),
      Move 1 (Note (process_time 200)), Move 0 (Note (process_time 200)), Move 1 (Settle (process_time 200)),
      Move 1 Leave, Move 0 Leave]"

definition after_lost_reply :: cluster where
  "after_lost_reply = the (cluster_run 2 no_range (boot two_gateways) lost_reply)"

lemma lost_reply_run: "cluster_run 2 no_range (boot two_gateways) lost_reply = Some after_lost_reply"
proof -
  have "cluster_run 2 no_range (boot two_gateways) lost_reply \<noteq> None" by code_simp
  then show ?thesis by (simp add: after_lost_reply_def)
qed

lemma lost_reply_planned: "\<forall>e \<in> set lost_reply. planned_arrival (\<lambda>k. search_limit) e"
  by (simp add: lost_reply_def planned_arrival_def search_serves)

lemma lost_reply_views:
  "timed_calls after_lost_reply search_key lost_reply =
     [((''b'', None, 1700000000000000), 0), ((''a'', Some (1700000000000000, 1), 1700000000000001), 1)] \<and>
   map (\<lambda>i. fallback_times after_lost_reply i search_key lost_reply) [0, 1] = [[], [process_time 200]] \<and>
   redis_grants after_lost_reply search_key lost_reply = [(0, (Some (1700000000000000, 1), 1700000000000001), 1)] \<and>
   map (\<lambda>i. length (memory_grants after_lost_reply i search_key lost_reply)) [0, 1] = [0, 1] \<and>
   length (flights after_lost_reply) = 2"
  by code_simp

theorem instances_over_admission_witness:
  "int (length (redis_grants after_lost_reply search_key lost_reply)) = 1 \<and>
   int (length (filter (\<lambda>(n, vis, x). 0 < x \<and> x \<le> 0 + script_window search_limit)
     (redis_grants after_lost_reply search_key lost_reply))) +
   (\<Sum>i < 2. int (length (filter (\<lambda>(n, t). 0 < instant t \<and> instant t \<le> 0 + window search_limit)
     (memory_grants after_lost_reply i search_key lost_reply)))) \<le> 3 * rate search_limit"
proof -
  note v = lost_reply_views
  have w: "script_window search_limit = 10000000" by (simp add: script_window_def microsecond_def sdiv_pos)
  have "timed_calls after_lost_reply search_key lost_reply =
      [((''b'', None, 1700000000000000), 0), ((''a'', Some (1700000000000000, 1), 1700000000000001), 1)]" using v by blast
  then have t: "lua_exact search_limit (map clock_at (timed_calls after_lost_reply search_key lost_reply))"
    "distinct (map stamp (timed_calls after_lost_reply search_key lost_reply))"
    "sorted_wrt only_loses (timed_calls after_lost_reply search_key lost_reply)"
    by (simp_all add: lua_exact_def w auth_burst only_loses_def sweep_of_def clock_at_def stamp_def)
  have "fallback_times after_lost_reply 0 search_key lost_reply = []"
    "fallback_times after_lost_reply (Suc 0) search_key lost_reply = [process_time 200]" using v by simp_all
  then have f: "\<forall>i < length two_gateways. (\<forall>t \<in> set (fallback_times after_lost_reply i search_key lost_reply).
      sliding_coh True search_limit t) \<and> sorted (map instant (fallback_times after_lost_reply i search_key lost_reply))"
    by (auto simp: two_gateways_def less_Suc_eq numeral_2_eq_2 process_time_coh)
  have "redis_grants after_lost_reply search_key lost_reply = [(0, (Some (1700000000000000, 1), 1700000000000001), 1)]" using v by blast
  moreover have "length two_gateways = 2" by (simp add: two_gateways_def)
  ultimately show ?thesis
    using instances_over_admission [OF lost_reply_run lost_reply_planned search_limit_serves search_serves(2) t f, of 0 "\<lambda>i. 0"]
    by simp
qed

theorem instance_breaker_refines_witness:
  "\<exists>es b. es \<noteq> [] \<and> call_steps idle es (b, under_way 1 after_lost_reply) \<and> failures b = 1"
proof -
  have "1 < length two_gateways" by (simp add: two_gateways_def)
  note s = instance_breaker_refines [OF lost_reply_run lost_reply_planned this]
  have "breaker_trace 2 no_range 1 (boot two_gateways) lost_reply \<noteq> [] \<and>
    failures (breaker_of (gates after_lost_reply ! 1)) = 1" by code_simp
  with s show ?thesis by blast
qed

theorem instances_reachable_states_witness:
  "\<exists>!a. one_hot a (backend_gauge (gates after_lost_reply ! 1))"
  using instances_reachable_states [OF lost_reply_run lost_reply_planned] by (simp add: two_gateways_def)

text \<open>Two instances under fail\_closed: the first one's call is granted, the second one's reply is lost.\<close>

definition closed_gateways :: "(redis_cfg \<times> string series) list" where
  "closed_gateways = [(demo_cfg\<lparr>on_error := on_error_fail_closed\<rparr>, []), (demo_cfg\<lparr>on_error := on_error_fail_closed\<rparr>, [])]"

definition search_bucket :: string where "search_bucket = ''/search:ip:10.0.0.1''"

definition closed_events :: "happening list" where
  "closed_events =
     [Arrive 0 search_bucket search_limit ''a'', Arrive 1 search_bucket search_limit ''b'',
      Move 0 (Ask (process_time 100)), Move 1 (Ask (process_time 100)),
      Execute 1 (None, 1700000000000000) 0, Execute 0 (Some (1700000000000000, 1), 1700000000000001) 1,
      Move 1 (Hear (Inl (CallFailed ''i/o timeout''))), Move 0 (Hear (Inr [1, 3, 1700000010000001, 0])),
      Move 1 (Note (process_time 200)), Move 0 (Note (process_time 200)), Move 1 Leave, Move 0 Leave]"

definition after_closed :: cluster where
  "after_closed = the (cluster_run 2 no_range (boot closed_gateways) closed_events)"

lemma closed_run: "cluster_run 2 no_range (boot closed_gateways) closed_events = Some after_closed"
proof -
  have "cluster_run 2 no_range (boot closed_gateways) closed_events \<noteq> None" by code_simp
  then show ?thesis by (simp add: after_closed_def)
qed

lemma closed_views:
  "timed_calls after_closed search_bucket closed_events = [((''b'', None, 1700000000000000), 0), ((''a'', Some (1700000000000000, 1), 1700000000000001), 1)] \<and>
   map call_key (flights after_closed) = [search_bucket, search_bucket] \<and>
   map call_limit (flights after_closed) = [search_limit, search_limit] \<and>
   map phase (flights after_closed) =
     [Done (Inr \<lparr>allowed = True, quota = 5, remaining = 3, reset = unix_micro 1700000010000001, retry_after = 0, degraded = False\<rparr>),
      Done (Inl (RedisFailed algo_sliding_window (CallFailed ''i/o timeout'')))]"
  by code_simp

end
