(* ===== verification/Quotas.thy ===== *)
theory Quotas
  imports Instances Shared_Bucket
begin

text \<open>
  What the clients of all instances get out of redis for a key of each kind of limit, however the
  calls interleave and fail: the fixed window's quota per window of the grid and the token bucket's
  burst and refill. The sliding window is in \<open>Instances\<close>, where the fallbacks are counted too.
\<close>

section \<open>Fixed window\<close>

text \<open>What the script of a call decided, whether or not the reply got back.\<close>

definition script_answer :: "cluster \<Rightarrow> nat \<times> visit \<times> int \<Rightarrow> answer" where
  "script_answer s q = (case q of (n, vis, x) \<Rightarrow>
     decision_from_reply (the (ran (flights s ! n))) (limit_quota (call_limit (flights s ! n))))"

definition returned_until :: "int \<Rightarrow> call \<Rightarrow> bool" where
  "returned_until g c \<longleftrightarrow> (case phase c of Done a \<Rightarrow> granted_until g a | _ \<Rightarrow> False)"

lemma key_run:
  assumes "reached mk oor plan cs es s" and "(n, vis, x) \<in> set (on_key s k (executions es))"
  obtains vals where "ran (flights s ! n) = Some vals" and "call_limit (flights s ! n) = plan k"
    and "call_ok plan (flights s ! n)" and "reply_ok (limit_quota (plan k)) vals"
proof -
  have q: "(n, vis, x) \<in> set (executions es)" "call_key (flights s ! n) = k" using assms(2) by (auto simp: on_key_def)
  then have n: "n < length (flights s)" "ran (flights s ! n) \<noteq> None" using executed [OF assms(1)] by blast+
  then have c: "call_ok plan (flights s ! n)" using flight_ok [OF reached_inv [OF assms(1)]] by blast
  then show ?thesis using that n(2) q(2) by (auto simp: call_ok_def)
qed

lemma fixed_replies:
  assumes "reached mk oor plan cs es s"
  shows "int (length (filter (\<lambda>q. granted_until g (script_answer s q)) (on_key s k (executions es))))
    = grants_in g (map (reply_of s) (on_key s k (executions es)))"
proof -
  have "granted_until g (script_answer s q) \<longleftrightarrow> hd (snd (reply_of s q)) = 1 \<and> snd (reply_of s q) ! 2 = g"
    if q: "q \<in> set (on_key s k (executions es))" for q
  proof -
    obtain n vis x where nq: "q = (n, vis, x)" by (cases q) auto
    show ?thesis
      by (rule key_run [OF assms q [unfolded nq]]) (simp add: nq script_answer_def reply_of_def reply_answer(1))
  qed
  then show ?thesis by (simp add: grants_in_def filter_map o_def case_prod_beta cong: filter_cong)
qed

lemma granted_returned:
  assumes r: "reached mk oor plan cs es s"
  shows "length (filter (\<lambda>(n, vis, x). returned_until g (flights s ! n)) (redis_grants s k es))
    \<le> length (filter (\<lambda>q. granted_until g (script_answer s q)) (on_key s k (executions es)))"
  unfolding redis_grants_def filter_filter
proof (rule length_filter_mono, clarify)
  fix n vis x
  assume q: "(n, vis, x) \<in> set (on_key s k (executions es))" and "returned_until g (flights s ! n)"
    and "case phase (flights s ! n) of Done (Inr d) \<Rightarrow> allowed d \<and> \<not> degraded d | _ \<Rightarrow> False"
  then obtain d where "phase (flights s ! n) = Done (Inr d)" "\<not> degraded d" "granted_until g (Inr d)"
    by (auto simp: returned_until_def split: phase.splits sum.splits)
  then show "granted_until g (script_answer s (n, vis, x))"
    by (rule_tac key_run [OF r q]) (auto simp: script_answer_def call_ok_def phase_ok_def)
qed

lemma fixed_runs:
  assumes "reached mk oor plan cs es s" and "serves_fixed (plan k)"
  shows "int (length (filter (\<lambda>q. granted_until g (script_answer s q)) (on_key s k (executions es)))) =
    grants_in g (fst (script_run (fixed_at (rate (plan k), script_window (plan k))) (script_calls s k es) None))"
  using fk.server_history [OF assms] by (simp add: fixed_replies [OF assms(1)])

lemma fixed_window_grants:
  assumes "reached mk oor plan cs es s" and "serves_fixed (plan k)" and "whole_micros (plan k)"
    and "no_relapse (script_window (plan k)) (script_calls s k es)"
  shows "int (length (filter (\<lambda>(n, vis, x). returned_until g (flights s ! n)) (redis_grants s k es))) \<le> rate (plan k)"
proof -
  have "grants_in g (fst (script_run (fixed_at (rate (plan k), script_window (plan k))) (script_calls s k es) None))
      \<le> rate (plan k)"
    using fixed_grants [OF script_args(1) [OF assms(2,3)]] assms(4) by simp
  with granted_returned [OF assms(1), of g k] fixed_runs [OF assms(1,2), of g] show ?thesis by linarith
qed

text \<open>
  C13. All instances share one exact fixed-window quota, however their calls interleave, time out or lose
  their replies: for each \<open>Reset\<close> the server grants at most the rate, and if its clock does not
  step back exactly the smaller of the rate and the number of calls it ran in that window; the
  undegraded decisions with that \<open>Reset\<close> that reach clients are among them. The server's clock may
  step back, with one condition: not behind the window in which its active expiry has already looked
  at the key, because an expired count that has been deleted does not come back. The window is at
  least a microsecond, and the script's numbers are within Lua's exact range.
\<close>

theorem instances_share_fixed_window:
  assumes "cluster_run mk oor (boot cs) es = Some s" and "\<forall>e \<in> set es. planned_arrival plan e"
    and "serves_fixed (plan k)" and "whole_micros (plan k)"
    and "lua_exact (plan k) (map (\<lambda>(nc, sw, t). t) (script_calls s k es))"
    and "no_relapse (script_window (plan k)) (script_calls s k es)"
    and "granted_runs = filter (\<lambda>q. granted_until g (script_answer s q)) (on_key s k (executions es))"
  shows "length (filter (\<lambda>(n, vis, x). returned_until g (flights s ! n)) (redis_grants s k es)) \<le> length granted_runs \<and>
    int (length granted_runs) \<le> rate (plan k) \<and>
    (sorted (map (\<lambda>(nc, sw, t). t) (script_calls s k es)) \<longrightarrow> int (length granted_runs)
      = min (rate (plan k)) (int (length (filter
          (\<lambda>(nc, sw, t). t - t mod script_window (plan k) + script_window (plan k) = g) (script_calls s k es)))))"
proof (intro conjI impI)
  let ?c = "(rate (plan k), script_window (plan k))" and ?cs = "script_calls s k es"
  have r: "reached mk oor plan cs es s" using assms(1,2) by (simp add: reached_def)
  note w = script_args(1) [OF assms(3,4)]
  have e: "fixed_entry_ok (fst ?c) (snd ?c) None" by (rule fs.inv_fresh [OF w])
  have ok: "no_relapse (snd ?c) ?cs" using assms(6) by simp
  have len: "int (length granted_runs) = grants_in g (fst (script_run (fixed_at ?c) ?cs None))"
    unfolding assms(7) by (rule fixed_runs [OF r assms(3)])
  show "int (length granted_runs) \<le> rate (plan k)" using fixed_grants [OF w ok] by (simp add: len)
  show "int (length granted_runs) = min (rate (plan k)) (int (length (filter
      (\<lambda>(nc, sw, t). t - t mod script_window (plan k) + script_window (plan k) = g) ?cs)))"
    if "sorted (map (\<lambda>(nc, sw, t). t) ?cs)"
    using fixed_exact_from [OF w e ok, of g] that unfolding len
    by (simp add: not_after_def room_def calls_in_def case_prod_unfold)
  show "length (filter (\<lambda>(n, vis, x). returned_until g (flights s ! n)) (redis_grants s k es)) \<le> length granted_runs"
    unfolding assms(7) by (rule granted_returned [OF r])
qed

text \<open>The entry of a window that starts at \<open>w\<close> after \<open>k\<close> grants.\<close>

definition filled :: "int \<Rightarrow> int \<Rightarrow> int \<Rightarrow> window_hash entry" where
  "filled win w k = (if k = 0 then None else Some (\<lparr>ws_field = w, count_field = k\<rparr>, ceil_ms (w + win)))"

lemma fixed_fill:
  fixes c :: "int \<times> int" and t :: int and ns :: "'n list"
  defines "w \<equiv> t - t mod snd c"
  assumes "window_ok c" and "0 \<le> k" and "k + int (length ns) \<le> fst c"
  shows "grants_in (w + snd c) (fst (script_run (fixed_at c) (map (\<lambda>n. (n, None, t)) ns) (filled (snd c) w k))) = int (length ns) \<and>
    snd (script_run (fixed_at c) (map (\<lambda>n. (n, None, t)) ns) (filled (snd c) w k)) = filled (snd c) w (k + int (length ns))"
  using assms(3,4)
proof (induction ns arbitrary: k)
  case (Cons n ns)
  have c: "0 < fst c" "0 < snd c" using assms(2) by (simp_all add: window_ok_def)
  have k: "k < fst c" using Cons.prems by simp
  let ?e = "filled (snd c) w k"
  have "w mod snd c = 0" by (simp add: w_def minus_mod_eq_mult_div)
  then have i: "fixed_entry_ok (fst c) (snd c) ?e"
    using Cons.prems(1) k by (simp add: filled_def fixed_entry_ok_def)
  have "t < w + snd c" using grid_bounds [OF c(2), of t] by (simp add: w_def)
  then have "t div 1000 < ceil_ms (w + snd c)" by (rule ceil_ms_after)
  then have s: "seen (snd c) t ?e = (w, k)"
    by (simp add: seen_def filled_def live_def w_def)
  have run: "fixed_at c n (None, t) ?e = ([1, fst c - (k + 1), w + snd c, 0], filled (snd c) w (k + 1))"
    using fixed_script_eq [OF c i s] k Cons.prems(1) unfolding fixed_at_eq by (simp add: filled_def)
  show ?case using Cons.IH [of "k + 1"] Cons.prems by (simp add: run add.assoc)
qed simp

text \<open>
  C38. Without that condition the quota is not kept, for any rate and window: when the server's clock
  has been past the end of a window, the active expiry has looked at the key then, and the clock steps
  back into the window, the script grants the rate a second time with the same \<open>Reset\<close>. Keeping the
  stored window only helps as long as its key is there.
\<close>

theorem relapse_renews_quota:
  assumes "serves_fixed l" and "whole_micros l"
    and "g = t - t mod script_window l + script_window l" and "g + 2000 \<le> t'"
    and "int (length ns) = rate l" and "int (length (m # ms)) = rate l"
  shows "grants_in g (fst (script_run (fixed_at (rate l, script_window l))
      (map (\<lambda>n. (n, None, t)) ns @ (m, Some (t', y), t) # map (\<lambda>n. (n, None, t)) ms) None)) = 2 * rate l"
proof -
  let ?c = "(rate l, script_window l)" and ?w = "t - t mod script_window l"
  let ?run = "\<lambda>xs e. script_run (fixed_at ?c) (map (\<lambda>n. (n, None, t)) xs) e"
  have f: "grants_in g (fst (?run xs None)) = rate l \<and> snd (?run xs None) = filled (script_window l) ?w (rate l)"
    if "int (length xs) = rate l" for xs
    using fixed_fill [OF script_args(1) [OF assms(1,2)], of 0 xs t] that by (simp add: assms(3) filled_def)
  have "0 < rate l" using assms(6) by simp
  moreover have "g div 1000 + 2 \<le> t' div 1000" using zdiv_mono1 [OF assms(4), of 1000] by simp
  then have "ceil_ms g < t' div 1000" unfolding ceil_ms_def by linarith
  ultimately have "swept (Some (t', y)) (filled (script_window l) ?w (rate l)) = None"
    by (simp add: filled_def swept_def live_def assms(3))
  then have "fixed_at ?c m (Some (t', y), t) (filled (script_window l) ?w (rate l)) = fixed_at ?c m (None, t) None"
    by (simp add: fixed_at_def visit_key_def)
  then have "fst (script_run (fixed_at ?c) (map (\<lambda>n. (n, None, t)) ns @ (m, Some (t', y), t) # map (\<lambda>n. (n, None, t)) ms) None)
      = fst (?run ns None) @ ((Some (t', y), t), fst (fixed_at ?c m (None, t) None)) # tl (fst (?run (m # ms) None))"
    using f [OF assms(5)] by (simp add: script_run_append)
  moreover have "grants_in g (xs @ ys) = grants_in g xs + grants_in g ys" for xs ys by (simp add: grants_in_def)
  ultimately show ?thesis using f [OF assms(5)] f [OF assms(6)] by simp
qed

section \<open>Token bucket\<close>

lemma token_bucket_grants:
  assumes r: "reached mk oor plan cs es s" and "serves_token (plan k)" and "whole_micros (plan k)"
    and "lua_exact (plan k) (map clock_at (timed_calls s k es))"
    and "sorted_wrt only_loses (timed_calls s k es)" and "y \<le> z"
  shows "of_nat (length (filter (\<lambda>(n, vis, x). y < x \<and> x \<le> z) (redis_grants s k es))) * (1 - 2 / 10 ^ 9)
    \<le> of_int (burst (plan k))
      + of_int (rate (plan k)) * of_int (z - y) / of_int (script_window (plan k)) * (1 + 1 / 2 ^ 49)
      + of_nat (length (filter (\<lambda>q. y < snd q \<and> snd q \<le> z) (timed_calls s k es)))
          * (of_int (burst (plan k)) / (2 ^ 51 :: rat))"
proof -
  let ?c = "(burst (plan k), rate (plan k), script_window (plan k))" and ?qs = "timed_calls s k es"
  have a: "exact_args ?c" using script_args(3) [OF assms(2,3)] assms(4) by (simp add: exact_args_def lua_exact_def)
  have "readings_ok ?qs" using assms(4) by (auto simp: readings_ok_def lua_exact_def)
  note bound = bucket_interval [OF a this assms(5,6)]
  have "fst (bucket_run ?c ?qs None) = map (reply_of s) (on_key s k (executions es))"
    using tk.server_history [OF r assms(2)] by (simp add: bucket_run_def script_calls_timed)
  note bound = bound [unfolded this zipped_runs [where P = "\<lambda>x. y < x \<and> x \<le> z"]]
  have "of_nat (length (filter (\<lambda>(n, vis, x). y < x \<and> x \<le> z) (redis_grants s k es))) * admit_cost
      \<le> of_nat (length (filter (\<lambda>q. hd (snd (reply_of s q)) = 1 \<and> (case q of (n, vis, x) \<Rightarrow> y < x \<and> x \<le> z))
          (on_key s k (executions es)))) * admit_cost"
    using grants_ran [OF r, of "\<lambda>(n, vis, x). y < x \<and> x \<le> z" k]
    by (intro mult_right_mono) (simp_all add: admit_cost_def)
  from order_trans [OF this bound] show ?thesis
    by (simp only: admit_cost_def script_credit_def credit_slack_def call_slack_def fst_conv snd_conv)
qed

text \<open>
  C14. All instances share one token bucket: over any true interval the grants of redis that reach the
  clients of all instances for a key are at most the burst and the exact refill of the interval, up
  to the epsilon of the test, a factor of \<open>1 + 2 ^ -49\<close> on the refill and
  \<open>burst / 2 ^ 51\<close> per call for the rounding. What a fallback grants, marked as degraded, comes on
  top. Calls may interleave, fail and lose their replies, the key may expire and be deleted in between,
  and the server's clock may step back, as long as it only loses time. The window is at least a
  microsecond, and the script's whole numbers and the time to fill are within Lua's exact range.
\<close>

theorem instances_share_token_bucket:
  assumes "cluster_run mk oor (boot cs) es = Some s" and "\<forall>e \<in> set es. planned_arrival plan e"
    and "serves_token (plan k)" and "whole_micros (plan k)" and "token_sized (plan k)"
    and "lua_exact (plan k) (map clock_at (timed_calls s k es))"
    and "sorted_wrt only_loses (timed_calls s k es)" and "y \<le> z"
  shows "of_nat (length (filter (\<lambda>(n, vis, x). y < x \<and> x \<le> z) (redis_grants s k es))) * (1 - 2 / 10 ^ 9)
    \<le> of_int (burst (plan k))
      + of_int (rate (plan k)) * of_int (z - y) / of_int (script_window (plan k)) * (1 + 1 / 2 ^ 49)
      + of_nat (length (filter (\<lambda>q. y < snd q \<and> snd q \<le> z) (timed_calls s k es)))
          * (of_int (burst (plan k)) / (2 ^ 51 :: rat))"
proof -
  have "reached mk oor plan cs es s" using assms(1,2) by (simp add: reached_def)
  from token_bucket_grants [OF this assms(3,4,6-8)] show ?thesis .
qed

section \<open>Witnesses\<close>

text \<open>
  Two instances, one call each: the reply to the second one is lost, and in the second run it has
  not even reached the server.
\<close>

definition one_each :: "string \<Rightarrow> limit \<Rightarrow> reply \<Rightarrow> happening list \<Rightarrow> happening list" where
  "one_each k l vals also_run =
     [Arrive 0 k l ''a'', Arrive 1 k l ''b'', Move 0 (Ask (process_time 100)), Move 1 (Ask (process_time 100)),
      Execute 0 (None, 1700000000000001) 1] @ also_run @
     [Move 0 (Hear (Inr vals)), Move 1 (Hear (Inl (CallFailed ''i/o timeout''))),
      Move 0 (Note (process_time 200)), Move 1 (Note (process_time 200)), Move 0 Leave]"

lemma one_each_planned:
  "serves l \<Longrightarrow> whole_micros l \<Longrightarrow> \<forall>e \<in> set also_run. planned_arrival (\<lambda>k. l) e \<Longrightarrow>
   \<forall>e \<in> set (one_each k l vals also_run). planned_arrival (\<lambda>k. l) e"
  by (auto simp: one_each_def planned_arrival_def)

definition auth_bucket :: string where "auth_bucket = ''/auth:ip:::1''"
definition api_bucket :: string where "api_bucket = ''/api:ip:::1''"

definition auth_events :: "happening list" where
  "auth_events = one_each auth_bucket auth_limit [1, 2, 1700000010000000, 0] [Execute 1 (Some (1700000000000001, 2), 1700000000000002) 2]"

definition api_events :: "happening list" where
  "api_events = one_each api_bucket api_limit [1, 19, 1700000000100001, 0] []"

definition after_auth :: cluster where "after_auth = the (cluster_run 2 no_range (boot two_gateways) auth_events)"
definition after_api :: cluster where "after_api = the (cluster_run 2 no_range (boot two_gateways) api_events)"

lemma auth_views:
  "cluster_run 2 no_range (boot two_gateways) auth_events \<noteq> None \<and>
   script_calls after_auth auth_bucket auth_events = [(''a'', None, 1700000000000001), (''b'', Some (1700000000000001, 2), 1700000000000002)] \<and>
   redis_grants after_auth auth_bucket auth_events = [(0, (None, 1700000000000001), 1)] \<and>
   returned_until 1700000010000000 (flights after_auth ! 0)"
  by code_simp

lemma api_views:
  "case cluster_run 2 no_range (boot two_gateways) api_events of None \<Rightarrow> False
   | Some s \<Rightarrow> timed_calls s api_bucket api_events = [((''a'', None, 1700000000000001), 1)] \<and>
       redis_grants s api_bucket api_events = [(0, (None, 1700000000000001), 1)]"
  by code_simp

lemma one_each_run:
  "cluster_run 2 no_range (boot two_gateways) auth_events = Some after_auth"
  "cluster_run 2 no_range (boot two_gateways) api_events = Some after_api"
  using auth_views api_views by (auto simp: after_auth_def after_api_def split: option.splits)

lemmas one_each_views = auth_views api_views [unfolded one_each_run(2) option.case]

theorem instances_share_fixed_window_witness:
  "length (redis_grants after_auth auth_bucket auth_events) = 1 \<and>
   length (filter (\<lambda>q. granted_until 1700000010000000 (script_answer after_auth q))
     (on_key after_auth auth_bucket (executions auth_events))) = 2"
proof -
  have w: "script_window auth_limit = 10000000" by (simp add: script_window_def microsecond_def sdiv_pos)
  have l: "lua_exact auth_limit (map (\<lambda>(nc, sw, t). t) (script_calls after_auth auth_bucket auth_events))"
    and n: "no_relapse (script_window auth_limit) (script_calls after_auth auth_bucket auth_events)"
    using auth_limit_fields(1) by (simp_all add: one_each_views lua_exact_def w auth_burst)
  have "\<forall>e \<in> set auth_events. planned_arrival (\<lambda>k. auth_limit) e"
    unfolding auth_events_def by (rule one_each_planned [OF auth_serves]) (simp add: planned_arrival_def)
  from instances_share_fixed_window [OF one_each_run(1) this auth_limit_serves auth_serves(2) l n refl, of 1700000010000000]
  show ?thesis by (simp add: one_each_views w)
qed

theorem relapse_renews_quota_witness:
  "grants_in 1700000010000000 (fst (script_run (fixed_at (3, 10000000))
     [(''a'', None, 1700000005000000), (''b'', None, 1700000005000000), (''c'', None, 1700000005000000),
      (''d'', Some (1700000010002000, 1), 1700000005000000), (''e'', None, 1700000005000000),
      (''f'', None, 1700000005000000)] None)) = 6"
proof -
  have w: "script_window auth_limit = 10000000" by (simp add: script_window_def microsecond_def sdiv_pos)
  from relapse_renews_quota [OF auth_limit_serves auth_serves(2), of 1700000010000000 1700000005000000
      1700000010002000 "[''a'', ''b'', ''c'']" "''d''" "[''e'', ''f'']" 1]
  show ?thesis by (simp add: w)
qed

theorem instances_share_token_bucket_witness:
  "of_nat (length (redis_grants after_api api_bucket api_events)) * (1 - 2 / 10 ^ 9)
     \<le> of_int 20 + 10 * 5 / 1000000 * (1 + 1 / 2 ^ 49) + 20 / (2 ^ 51 :: rat)"
proof -
  have w: "script_window api_limit = 1000000" by (simp add: script_window_def microsecond_def sdiv_pos)
  have z: "token_sized api_limit" by (simp add: token_sized_def w)
  have m: "whole_micros api_limit" by (simp add: whole_micros_def microsecond_def)
  have l: "lua_exact api_limit (map clock_at (timed_calls after_api api_bucket api_events))"
    "sorted_wrt only_loses (timed_calls after_api api_bucket api_events)"
    by (simp_all add: one_each_views lua_exact_def w only_loses_def clock_at_def)
  have "serves api_limit" using api_limit_serves by (simp add: serves_def)
  then have "\<forall>e \<in> set api_events. planned_arrival (\<lambda>k. api_limit) e"
    unfolding api_events_def by (rule one_each_planned [OF _ m]) simp
  from instances_share_token_bucket [OF one_each_run(2) this api_limit_serves m z l, of 0 5]
  show ?thesis by (simp add: one_each_views w)
qed

end
