(* ===== verification/Identity.thy ===== *)
theory Identity
  imports Config
begin

text \<open>
  Requests and the identity they are limited by: \<open>internal/proxy/identity.go\<close>, with the parts of
  \<open>net/http\<close> and \<open>net\<close> it uses. A request is what \<open>net/http\<close> hands to the handler:
  the header has canonical keys, \<open>url_path\<close> is the decoded path and \<open>escaped_path\<close> the encoded
  one. SHA-256 is a parameter.
\<close>

section \<open>Requests\<close>

type_synonym header = "(string \<times> string list) list"

record request =
  verb :: string
  url_path :: string
  escaped_path :: string
  headers :: header
  remote_addr :: string

definition upper :: "char \<Rightarrow> char" where
  "upper c = (if 97 \<le> (of_char c :: nat) \<and> of_char c \<le> (122 :: nat) then char_of (of_char c - (32 :: nat)) else c)"

definition lower :: "char \<Rightarrow> char" where
  "lower c = (if 65 \<le> (of_char c :: nat) \<and> of_char c \<le> (90 :: nat) then char_of (of_char c + (32 :: nat)) else c)"

definition alpha :: "char \<Rightarrow> bool" where
  "alpha c \<longleftrightarrow> (97 \<le> (of_char c :: nat) \<and> of_char c \<le> (122 :: nat)) \<or> (65 \<le> (of_char c :: nat) \<and> of_char c \<le> (90 :: nat))"

definition digit :: "char \<Rightarrow> bool" where
  "digit c \<longleftrightarrow> 48 \<le> (of_char c :: nat) \<and> of_char c \<le> (57 :: nat)"

text \<open>\<open>textproto.CanonicalMIMEHeaderKey\<close>: keys with a byte that no header has are left alone.\<close>

definition token_char :: "char \<Rightarrow> bool" where
  "token_char c \<longleftrightarrow> alpha c \<or> digit c \<or> c \<in> set ''!#$%&*+-.^_|~'' \<or> c = CHR 0x27 \<or> c = CHR 0x60"

fun capitalize :: "bool \<Rightarrow> string \<Rightarrow> string" where
  "capitalize up [] = []"
| "capitalize up (c # cs) = (if up then upper c else lower c) # capitalize (c = CHR ''-'') cs"

definition canonical_key :: "string \<Rightarrow> string" where
  "canonical_key k = (if list_all token_char k then capitalize True k else k)"

definition header_get :: "header \<Rightarrow> string \<Rightarrow> string" where
  "header_get h k =
     (case map_of h (canonical_key k) of Some (v # vs) \<Rightarrow> v | _ \<Rightarrow> [])"

definition header_set :: "string \<Rightarrow> string \<Rightarrow> header \<Rightarrow> header" where
  "header_set k v h = AList.update (canonical_key k) [v] h"

text \<open>\<open>net.SplitHostPort\<close>.\<close>

definition index_byte :: "char \<Rightarrow> string \<Rightarrow> nat option" where
  "index_byte c s = (if c \<in> set s then Some (length (takeWhile (\<lambda>x. x \<noteq> c) s)) else None)"

definition last_index_byte :: "char \<Rightarrow> string \<Rightarrow> nat option" where
  "last_index_byte c s = map_option (\<lambda>k. length s - Suc k) (index_byte c (rev s))"

definition split_host_port :: "string \<Rightarrow> (string \<times> string) option" where
  "split_host_port s =
     (case last_index_byte (CHR '':'') s of
        None \<Rightarrow> None
      | Some i \<Rightarrow>
          if hd s = CHR ''['' then
            (case index_byte (CHR '']'') s of
               None \<Rightarrow> None
             | Some e \<Rightarrow>
                 if Suc e = length s \<or> Suc e \<noteq> i then None
                 else if CHR ''['' \<in> set (drop 1 s) \<or> CHR '']'' \<in> set (drop (Suc e) s) then None
                 else Some (drop 1 (take e s), drop (Suc i) s))
          else if CHR '':'' \<in> set (take i s) then None
          else if CHR ''['' \<in> set s \<or> CHR '']'' \<in> set s then None
          else Some (take i s, drop (Suc i) s))"

section \<open>Identities\<close>

definition header_api_key :: string where "header_api_key = ''X-API-Key''"

definition kind_key :: string where "kind_key = ''key''"
definition kind_ip :: string where "kind_ip = ''ip''"

record identity =
  kind :: string
  ident :: string

definition identity_for :: "request \<Rightarrow> identity" where
  "identity_for r =
     (let key = header_get (headers r) header_api_key
      in if key \<noteq> [] then \<lparr>kind = kind_key, ident = key\<rparr>
         else (case split_host_port (remote_addr r) of
                 Some (h, p) \<Rightarrow> \<lparr>kind = kind_ip, ident = h\<rparr>
               | None \<Rightarrow> \<lparr>kind = kind_ip, ident = remote_addr r\<rparr>))"

definition hex_digit :: "nat \<Rightarrow> char" where
  "hex_digit n = ''0123456789abcdef'' ! n"

definition hex_encode :: "nat list \<Rightarrow> string" where
  "hex_encode bs = concat (map (\<lambda>b. [hex_digit (b div 16 mod 16), hex_digit (b mod 16)]) bs)"

definition identity_string :: "(string \<Rightarrow> nat list) \<Rightarrow> identity \<Rightarrow> string" where
  "identity_string sha i =
     (if kind i = kind_key then kind i @ '':'' @ hex_encode (take 8 (sha (ident i)))
      else kind i @ '':'' @ ident i)"

section \<open>Addresses\<close>

lemma index_byte_append:
  "c \<notin> set xs \<Longrightarrow> index_byte c (xs @ c # ys) = Some (length xs)"
  by (induction xs) (auto simp: index_byte_def)

lemma last_index_byte_append:
  "c \<notin> set ys \<Longrightarrow> last_index_byte c (xs @ c # ys) = Some (length xs)"
  using index_byte_append [of c "rev ys" "rev xs"] by (simp add: last_index_byte_def)

definition plain :: "string \<Rightarrow> bool" where
  "plain s \<longleftrightarrow> CHR '':'' \<notin> set s \<and> CHR ''['' \<notin> set s \<and> CHR '']'' \<notin> set s"

lemma split_v4: "plain h \<Longrightarrow> plain p \<Longrightarrow> split_host_port (h @ '':'' @ p) = Some (h, p)"
proof -
  assume h: "plain h" and p: "plain p"
  have i: "last_index_byte (CHR '':'') (h @ CHR '':'' # p) = Some (length h)"
    using p by (intro last_index_byte_append) (simp add: plain_def)
  have "hd (h @ CHR '':'' # p) \<noteq> CHR ''[''" using h by (cases h) (auto simp: plain_def)
  then show ?thesis using h p by (auto simp: split_host_port_def i plain_def)
qed

lemma split_v6:
  assumes "CHR ''['' \<notin> set h" and "CHR '']'' \<notin> set h" and "plain p"
  shows "split_host_port (''['' @ h @ '']:'' @ p) = Some (h, p)"
proof -
  let ?s = "CHR ''['' # h @ CHR '']'' # CHR '':'' # p"
  have "last_index_byte (CHR '':'') ((CHR ''['' # h @ [CHR '']'']) @ CHR '':'' # p) = Some (length h + 2)"
    using assms(3) by (subst last_index_byte_append) (auto simp: plain_def)
  then have i: "last_index_byte (CHR '':'') ?s = Some (length h + 2)" by simp
  have "index_byte (CHR '']'') ((CHR ''['' # h) @ CHR '']'' # CHR '':'' # p) = Some (length h + 1)"
    using assms(2) by (subst index_byte_append) auto
  then have e: "index_byte (CHR '']'') ?s = Some (length h + 1)" by simp
  show ?thesis
    using assms by (simp add: split_host_port_def i e plain_def)
qed

text \<open>The remote address \<open>net/http\<close> gives a connection from \<open>h\<close> on port \<open>p\<close>.\<close>

definition join_host_port :: "string \<Rightarrow> string \<Rightarrow> string" where
  "join_host_port h p = (if CHR '':'' \<in> set h then ''['' @ h @ '']:'' @ p else h @ '':'' @ p)"

definition host_ok :: "string \<Rightarrow> bool" where
  "host_ok h \<longleftrightarrow> CHR ''['' \<notin> set h \<and> CHR '']'' \<notin> set h"

lemma split_join: "host_ok h \<Longrightarrow> plain p \<Longrightarrow> split_host_port (join_host_port h p) = Some (h, p)"
proof (cases "CHR '':'' \<in> set h")
  case True
  then show "host_ok h \<Longrightarrow> plain p \<Longrightarrow> ?thesis"
    using split_v6 [of h p] by (simp add: join_host_port_def host_ok_def)
next
  case False
  then show "host_ok h \<Longrightarrow> plain p \<Longrightarrow> ?thesis"
    using split_v4 [of h p] by (simp add: join_host_port_def host_ok_def plain_def)
qed

section \<open>Bucket keys\<close>

text \<open>The key the gateway asks the limiter about: \<open>entry.Prefix + ":" + id.String()\<close>.\<close>

definition bucket_key :: "(string \<Rightarrow> nat list) \<Rightarrow> string \<Rightarrow> identity \<Rightarrow> string" where
  "bucket_key sha prefix i = prefix @ '':'' @ identity_string sha i"

text \<open>IP addresses have neither a \<open>p\<close> nor a \<open>y\<close>.\<close>

definition ip_text :: "string \<Rightarrow> bool" where
  "ip_text h \<longleftrightarrow> CHR ''p'' \<notin> set h \<and> CHR ''y'' \<notin> set h"

definition well_formed :: "identity \<Rightarrow> bool" where
  "well_formed i \<longleftrightarrow> kind i = kind_key \<or> kind i = kind_ip \<and> ip_text (ident i)"

lemma hex_digit_plain: "n < 16 \<Longrightarrow> hex_digit n \<noteq> CHR ''p'' \<and> hex_digit n \<noteq> CHR ''y''"
proof -
  have "\<forall>n \<in> {..<16}. hex_digit n \<noteq> CHR ''p'' \<and> hex_digit n \<noteq> CHR ''y''" by code_simp
  then show "n < 16 \<Longrightarrow> ?thesis" by blast
qed

lemma hex_ip_text: "ip_text (hex_encode bs)"
proof -
  have "hex_digit (b div 16 mod 16) \<noteq> CHR ''p''" "hex_digit (b div 16 mod 16) \<noteq> CHR ''y''"
    "hex_digit (b mod 16) \<noteq> CHR ''p''" "hex_digit (b mod 16) \<noteq> CHR ''y''" for b
    using hex_digit_plain [of "b div 16 mod 16"] hex_digit_plain [of "b mod 16"] by auto
  then show ?thesis unfolding ip_text_def hex_encode_def
    by (auto simp: eq_commute [of "CHR ''p''"] eq_commute [of "CHR ''y''"])
qed

lemma last_marker:
  assumes "a @ x # s = b @ y # t" and "P (x :: 'c)" and "P y" and "\<forall>c \<in> set s. \<not> P c" and "\<forall>c \<in> set t. \<not> P c"
  shows "a = b \<and> x = y \<and> s = t"
proof -
  have "takeWhile (\<lambda>c. \<not> P c) (rev (a @ x # s)) = rev s" using assms(2,4) by (simp add: takeWhile_append)
  moreover have "takeWhile (\<lambda>c. \<not> P c) (rev (b @ y # t)) = rev t" using assms(3,5) by (simp add: takeWhile_append)
  ultimately have "s = t" using assms(1) by simp
  with assms(1) show ?thesis by simp
qed

text \<open>The tail of a key that follows its last \<open>p\<close> or \<open>y\<close>.\<close>

lemma identity_split:
  assumes "well_formed i"
  obtains (key) t where "kind i = kind_key" "ip_text t" "identity_string sha i = ''ke'' @ CHR ''y'' # CHR '':'' # t"
      "t = hex_encode (take 8 (sha (ident i)))"
  | (ip) "kind i = kind_ip" "ip_text (ident i)" "identity_string sha i = ''i'' @ CHR ''p'' # CHR '':'' # ident i"
  using assms hex_ip_text by (auto simp: well_formed_def identity_string_def kind_key_def kind_ip_def)

lemma bucket_key_inj:
  assumes "well_formed i" and "well_formed j" and "bucket_key sha p i = bucket_key sha q j"
  shows "p = q \<and> kind i = kind j \<and> identity_string sha i = identity_string sha j \<and> (kind i = kind_ip \<longrightarrow> ident i = ident j)"
proof -
  let ?P = "\<lambda>c. c = CHR ''p'' \<or> c = CHR ''y''"
  have tail: "\<forall>c \<in> set (CHR '':'' # s). \<not> ?P c" if "ip_text s" for s using that by (auto simp: ip_text_def)
  show ?thesis
    using assms(1)
  proof (rule identity_split [where sha = sha], goal_cases key ip)
    case (key s)
    show ?case using assms(2)
    proof (rule identity_split [where sha = sha], goal_cases key' ip')
      case (key' t)
      then show ?case
        using assms(3) key last_marker [OF _ _ _ tail tail, of "p @ '':ke''" "CHR ''y''" s "q @ '':ke''" "CHR ''y''" t]
        by (simp add: bucket_key_def kind_key_def kind_ip_def)
    next
      case ip'
      then show ?case
        using assms(3) key last_marker [OF _ _ _ tail tail, of "p @ '':ke''" "CHR ''y''" s "q @ '':i''" "CHR ''p''" "ident j"]
        by (simp add: bucket_key_def)
    qed
  next
    case ip
    show ?case using assms(2)
    proof (rule identity_split [where sha = sha], goal_cases key' ip')
      case (key' t)
      then show ?case
        using assms(3) ip last_marker [OF _ _ _ tail tail, of "p @ '':i''" "CHR ''p''" "ident i" "q @ '':ke''" "CHR ''y''" t]
        by (simp add: bucket_key_def)
    next
      case ip'
      then show ?case
        using assms(3) ip last_marker [OF _ _ _ tail tail, of "p @ '':i''" "CHR ''p''" "ident i" "q @ '':i''" "CHR ''p''" "ident j"]
        by (simp add: bucket_key_def)
    qed
  qed
qed

section \<open>Properties\<close>

text \<open>
  Without an API key the identity is the address the connection comes from, and nothing else
  of the request: its port, its other headers (\<open>X-Forwarded-For\<close> in particular), method and path
  do not change it; with an API key it is that key, whatever the address.
\<close>

theorem identity_is_key_or_address:
  assumes "host_ok h" and "plain p"
  shows "identity_for \<lparr>verb = v, url_path = u, escaped_path = e, headers = hs, remote_addr = join_host_port h p\<rparr> =
    (case map_of hs ''X-Api-Key'' of
       Some (k # ks) \<Rightarrow> if k \<noteq> [] then \<lparr>kind = kind_key, ident = k\<rparr> else \<lparr>kind = kind_ip, ident = h\<rparr>
     | _ \<Rightarrow> \<lparr>kind = kind_ip, ident = h\<rparr>)"
proof -
  have k: "canonical_key header_api_key = ''X-Api-Key''" by code_simp
  show ?thesis
    using split_join [OF assms] by (simp add: identity_for_def Let_def header_get_def k split: option.split list.split)
qed

text \<open>
  Two clients share a bucket only when they are the same: equal bucket keys come from the same
  route prefix and the same kind of identity, for addresses from the same address, for API keys
  from keys of the same fingerprint.
\<close>

theorem bucket_keys_injective:
  assumes "well_formed i" and "well_formed j" and "bucket_key sha p i = bucket_key sha q j"
  shows "p = q \<and> kind i = kind j \<and> (kind i = kind_ip \<longrightarrow> ident i = ident j) \<and>
    (kind i = kind_key \<longrightarrow> hex_encode (take 8 (sha (ident i))) = hex_encode (take 8 (sha (ident j))))"
  using bucket_key_inj [OF assms] by (auto simp: identity_string_def)

section \<open>Witnesses\<close>

theorem identity_is_key_or_address_witness:
  "identity_for \<lparr>verb = ''GET'', url_path = ''/'', escaped_path = ''/'',
     headers = [(''X-Forwarded-For'', [''203.0.113.9''])], remote_addr = ''[2001:db8::1]:40312''\<rparr>
   = \<lparr>kind = kind_ip, ident = ''2001:db8::1''\<rparr>"
  using identity_is_key_or_address [of "''2001:db8::1''" "''40312''" "''GET''" "''/''" "''/''"
      "[(''X-Forwarded-For'', [''203.0.113.9''])]"]
  by (simp add: host_ok_def plain_def join_host_port_def)

definition toy_digest :: "string \<Rightarrow> nat list" where
  "toy_digest s = map of_char s @ replicate 32 0"

theorem bucket_keys_injective_witness:
  "bucket_key toy_digest ''/api'' \<lparr>kind = kind_ip, ident = ''10.0.0.1''\<rparr>
     \<noteq> bucket_key toy_digest ''/api'' \<lparr>kind = kind_key, ident = ''10.0.0.1''\<rparr>"
proof
  assume a: "bucket_key toy_digest ''/api'' \<lparr>kind = kind_ip, ident = ''10.0.0.1''\<rparr>
     = bucket_key toy_digest ''/api'' \<lparr>kind = kind_key, ident = ''10.0.0.1''\<rparr>"
  have "kind \<lparr>kind = kind_ip, ident = ''10.0.0.1''\<rparr> = kind \<lparr>kind = kind_key, ident = ''10.0.0.1''\<rparr>"
    using bucket_keys_injective [OF _ _ a] by (simp add: well_formed_def ip_text_def)
  then show False by (simp add: kind_ip_def kind_key_def)
qed

end
