(* ===== verification/Table.thy ===== *)
theory Table
  imports Config "HOL-Library.Multiset"
begin

text \<open>
  The route table, \<open>internal/proxy/table.go\<close>, with Go's \<open>path.Clean\<close>: segment-boundary
  longest-prefix matching of the cleaned path against the normalized prefixes.
\<close>

section \<open>The code\<close>

fun split_on :: "char \<Rightarrow> string \<Rightarrow> string list" where
  "split_on c [] = [[]]"
| "split_on c (x # xs) =
     (if x = c then [] # split_on c xs
      else (case split_on c xs of [] \<Rightarrow> [[x]] | s # ss \<Rightarrow> (x # s) # ss))"

fun join_slash :: "string list \<Rightarrow> string" where
  "join_slash [] = []"
| "join_slash [s] = s"
| "join_slash (s # ss) = s @ ''/'' @ join_slash ss"

text \<open>
  \<open>path.Clean\<close>, one path element at a time: \<open>out\<close> is the output so far. An empty or dot element
  is dropped; two dots drop the element before, or stay when there is none and the path is relative.
\<close>

definition clean_step :: "bool \<Rightarrow> string list \<Rightarrow> string \<Rightarrow> string list" where
  "clean_step rooted out s =
     (if s = [] \<or> s = ''.'' then out
      else if s = ''..'' then
        (if out \<noteq> [] \<and> last out \<noteq> ''..'' then butlast out
         else if rooted then out else out @ [s])
      else out @ [s])"

definition path_clean :: "string \<Rightarrow> string" where
  "path_clean p =
     (if p = [] then ''.''
      else (let rooted = hd p = CHR ''/'';
                out = foldl (clean_step rooted) [] (split_on (CHR ''/'') p)
            in if rooted then ''/'' @ join_slash out
               else if out = [] then ''.'' else join_slash out))"

record entry =
  entry_prefix :: string
  entry_route :: route

text \<open>\<open>sort.SliceStable\<close> by descending length of the prefix.\<close>

definition new_table :: "route list \<Rightarrow> entry list" where
  "new_table rs =
     sort_key (\<lambda>e. - int (length (entry_prefix e)))
       (map (\<lambda>r. \<lparr>entry_prefix = trim_right_slash (prefix_of r), entry_route = r\<rparr>) rs)"

definition entry_matches :: "string \<Rightarrow> entry \<Rightarrow> bool" where
  "entry_matches p e \<longleftrightarrow> p = entry_prefix e \<or> has_prefix p (entry_prefix e @ ''/'')"

definition match :: "entry list \<Rightarrow> string \<Rightarrow> entry option" where
  "match t escaped = find (entry_matches (path_clean escaped)) t"

section \<open>Longest match\<close>

lemma new_table_set:
  "set (new_table rs) = (\<lambda>r. \<lparr>entry_prefix = trim_right_slash (prefix_of r), entry_route = r\<rparr>) ` set rs"
  by (simp add: new_table_def)

lemma new_table_sorted: "sorted_wrt (\<lambda>d e. length (entry_prefix e) \<le> length (entry_prefix d)) (new_table rs)"
proof -
  have "sorted (map (\<lambda>e. - int (length (entry_prefix e))) (new_table rs))"
    unfolding new_table_def by (rule sorted_sort_key)
  then show ?thesis by (simp add: sorted_map)
qed

lemma find_longest:
  assumes "find P es = Some e" and "sorted_wrt (\<lambda>d e. length (entry_prefix e) \<le> length (entry_prefix d)) es"
  shows "e \<in> set es \<and> P e \<and> (\<forall>d \<in> set es. P d \<longrightarrow> length (entry_prefix d) \<le> length (entry_prefix e))"
  using assms by (induction es) (auto split: if_splits)

lemma find_none: "find P es = None \<longleftrightarrow> (\<forall>e \<in> set es. \<not> P e)"
  by (induction es) auto

text \<open>Two prefixes of one length that match one path are the same prefix.\<close>

lemma entry_matches_take: "entry_matches p e \<Longrightarrow> take (length (entry_prefix e)) p = entry_prefix e"
proof -
  assume m: "entry_matches p e"
  show ?thesis
  proof (cases "p = entry_prefix e")
    case False
    then have "take (Suc (length (entry_prefix e))) p = entry_prefix e @ ''/''"
      using m by (simp add: entry_matches_def has_prefix_def)
    then have "take (length (entry_prefix e)) (take (Suc (length (entry_prefix e))) p) = entry_prefix e" by simp
    then show ?thesis by (simp add: min_def)
  qed simp
qed

lemma same_length_same_prefix:
  "entry_matches p d \<Longrightarrow> entry_matches p e \<Longrightarrow> length (entry_prefix d) = length (entry_prefix e) \<Longrightarrow>
     entry_prefix d = entry_prefix e"
  using entry_matches_take by metis

definition distinct_prefixes :: "route list \<Rightarrow> bool" where
  "distinct_prefixes rs \<longleftrightarrow> distinct (map (\<lambda>r. trim_right_slash (prefix_of r)) rs)"

lemma entry_of_prefix:
  assumes "distinct_prefixes rs" and "d \<in> set (new_table rs)" and "e \<in> set (new_table rs)"
    and "entry_prefix d = entry_prefix e"
  shows "d = e"
proof -
  obtain r q where r: "r \<in> set rs" "d = \<lparr>entry_prefix = trim_right_slash (prefix_of r), entry_route = r\<rparr>"
    and q: "q \<in> set rs" "e = \<lparr>entry_prefix = trim_right_slash (prefix_of q), entry_route = q\<rparr>"
    using assms(2,3) unfolding new_table_set by blast
  have "inj_on (\<lambda>r. trim_right_slash (prefix_of r)) (set rs)"
    using assms(1) unfolding distinct_prefixes_def distinct_map by blast
  from inj_onD [OF this _ r(1) q(1)] assms(4) show ?thesis unfolding r(2) q(2) by simp
qed

lemma match_unique:
  assumes "distinct_prefixes rs" and "e \<in> set (new_table rs)" and "entry_matches (path_clean p) e"
    and "\<forall>d \<in> set (new_table rs). entry_matches (path_clean p) d \<longrightarrow> length (entry_prefix d) \<le> length (entry_prefix e)"
  shows "match (new_table rs) p = Some e"
proof (cases "match (new_table rs) p")
  case None
  then show ?thesis using assms(2,3) by (simp add: match_def find_none)
next
  case (Some d)
  note l = find_longest [OF Some [unfolded match_def] new_table_sorted]
  then have "length (entry_prefix d) = length (entry_prefix e)" using assms(2-4) by (meson order_antisym)
  then have "d = e"
    using same_length_same_prefix l assms(3) by (intro entry_of_prefix [OF assms(1) _ assms(2)]) blast+
  then show ?thesis using Some by simp
qed

section \<open>Segments\<close>

definition slash_free :: "string \<Rightarrow> bool" where
  "slash_free s \<longleftrightarrow> CHR ''/'' \<notin> set s"

lemma split_on_nonempty [simp]: "split_on c s \<noteq> []"
  by (induction s) (auto split: list.split)

lemma split_on_free: "s \<in> set (split_on c xs) \<Longrightarrow> c \<notin> set s"
  by (induction xs arbitrary: s) (auto split: list.splits if_splits)

lemma split_on_none: "c \<notin> set xs \<Longrightarrow> split_on c xs = [xs]"
  by (induction xs) auto

lemma split_on_append: "split_on c (xs @ c # ys) = split_on c xs @ split_on c ys"
  by (induction xs) (auto split: list.split)

text \<open>A prefix as the code writes it: a slash before every segment.\<close>

definition slashed :: "string list \<Rightarrow> string" where
  "slashed qs = concat (map (\<lambda>s. ''/'' @ s) qs)"

lemma slashed_simps [simp]: "slashed [] = []" "slashed (q # qs) = CHR ''/'' # q @ slashed qs"
  "slashed (qs @ rs) = slashed qs @ slashed rs"
  by (simp_all add: slashed_def)

definition prefix_segments :: "string \<Rightarrow> string list" where
  "prefix_segments q = (if q = [] then [] else split_on (CHR ''/'') (tl q))"

lemma slashed_split: "CHR ''/'' # xs = slashed (split_on (CHR ''/'') xs)"
  by (induction xs) (auto split: list.split)

lemma slashed_prefix_segments: "q = [] \<or> hd q = CHR ''/'' \<Longrightarrow> slashed (prefix_segments q) = q"
  by (cases q) (auto simp: prefix_segments_def slashed_split [symmetric])

lemma prefix_segments_free: "s \<in> set (prefix_segments q) \<Longrightarrow> slash_free s"
  by (auto simp: prefix_segments_def slash_free_def split_on_free split: if_splits)

lemma join_slash_slashed: "qs \<noteq> [] \<Longrightarrow> CHR ''/'' # join_slash qs = slashed qs"
  by (induction qs rule: join_slash.induct) auto

lemma head_segment:
  assumes "slash_free s" and "slash_free t" and "s @ x = t @ y"
    and "x = [] \<or> hd x = CHR ''/''" and "y = [] \<or> hd y = CHR ''/''"
  shows "s = t \<and> x = y"
proof -
  have s: "takeWhile (\<lambda>c. c \<noteq> CHR ''/'') (s @ x) = s"
    using assms(1,4) by (cases x) (auto simp: slash_free_def takeWhile_append)
  have t: "takeWhile (\<lambda>c. c \<noteq> CHR ''/'') (t @ y) = t"
    using assms(2,5) by (cases y) (auto simp: slash_free_def takeWhile_append)
  have "s = t" using s t assms(3) by simp
  then show ?thesis using assms(3) by simp
qed

lemma slashed_head: "slashed qs = [] \<or> hd (slashed qs) = CHR ''/''"
  by (cases qs) auto

lemma slashed_prefix:
  assumes "\<forall>s \<in> set qs. slash_free s" and "\<forall>s \<in> set ps. slash_free s"
  shows "(\<exists>y. slashed ps = slashed qs @ y \<and> (y = [] \<or> hd y = CHR ''/'')) \<longleftrightarrow> take (length qs) ps = qs"
  using assms
proof (induction qs arbitrary: ps)
  case Nil
  then show ?case using slashed_head by auto
next
  case (Cons q qs)
  show ?case
  proof (cases ps)
    case (Cons p rs)
    have "(\<exists>y. slashed ps = slashed (q # qs) @ y \<and> (y = [] \<or> hd y = CHR ''/'')) \<longleftrightarrow>
      p = q \<and> (\<exists>y. slashed rs = slashed qs @ y \<and> (y = [] \<or> hd y = CHR ''/''))"
    proof
      assume "\<exists>y. slashed ps = slashed (q # qs) @ y \<and> (y = [] \<or> hd y = CHR ''/'')"
      then obtain y where y: "p @ slashed rs = q @ slashed qs @ y" "y = [] \<or> hd y = CHR ''/''"
        by (auto simp: Cons)
      have "slashed qs @ y = [] \<or> hd (slashed qs @ y) = CHR ''/''"
        using slashed_head [of qs] y(2) by (cases qs) auto
      then have "p = q \<and> slashed rs = slashed qs @ y"
        using Cons.prems y(1) slashed_head by (intro head_segment) (auto simp: Cons)
      then show "p = q \<and> (\<exists>y. slashed rs = slashed qs @ y \<and> (y = [] \<or> hd y = CHR ''/''))" using y(2) by blast
    qed (auto simp: Cons)
    then show ?thesis using Cons.IH [of rs] Cons.prems by (auto simp: Cons)
  qed simp
qed

text \<open>The elements of a cleaned rooted path.\<close>

definition clean_segments :: "string \<Rightarrow> string list" where
  "clean_segments p = foldl (clean_step True) [] (split_on (CHR ''/'') p)"

definition real_segment :: "string \<Rightarrow> bool" where
  "real_segment s \<longleftrightarrow> slash_free s \<and> s \<noteq> [] \<and> s \<noteq> ''.'' \<and> s \<noteq> ''..''"

lemma clean_step_real: "\<forall>s \<in> set out. real_segment s \<Longrightarrow> slash_free s \<Longrightarrow> \<forall>s \<in> set (clean_step True out s). real_segment s"
  by (auto simp: clean_step_def real_segment_def dest: in_set_butlastD)

lemma clean_segments_real: "s \<in> set (clean_segments p) \<Longrightarrow> real_segment s"
proof -
  have "\<forall>s \<in> set (foldl (clean_step True) out ss). real_segment s"
    if "\<forall>s \<in> set out. real_segment s" "\<forall>s \<in> set ss. slash_free s" for out ss
    using that
  proof (induction ss arbitrary: out)
    case (Cons s ss)
    then show ?case using clean_step_real [of out s] by (simp del: clean_step_def)
  qed simp
  from this [of "[]" "split_on (CHR ''/'') p"] show "s \<in> set (clean_segments p) \<Longrightarrow> ?thesis"
    using split_on_free by (auto simp: clean_segments_def slash_free_def)
qed

lemma path_clean_rooted:
  "p \<noteq> [] \<Longrightarrow> hd p = CHR ''/'' \<Longrightarrow>
     path_clean p = (if clean_segments p = [] then ''/'' else slashed (clean_segments p))"
  using join_slash_slashed [of "clean_segments p"] by (auto simp: path_clean_def Let_def clean_segments_def)

lemma has_prefix_iff: "has_prefix s p \<longleftrightarrow> (\<exists>y. s = p @ y)"
  by (auto simp: has_prefix_def) (metis append_take_drop_id)

lemma matches_segments:
  assumes "p \<noteq> []" and "hd p = CHR ''/''" and "entry_prefix e = slashed qs" and "\<forall>s \<in> set qs. slash_free s"
    and "qs \<noteq> [] \<Longrightarrow> last qs \<noteq> []"
  shows "entry_matches (path_clean p) e \<longleftrightarrow> take (length qs) (clean_segments p) = qs"
proof -
  let ?ps = "clean_segments p"
  have free: "\<forall>s \<in> set ?ps. slash_free s" using clean_segments_real by (auto simp: real_segment_def)
  have m: "entry_matches x e \<longleftrightarrow> (\<exists>y. x = slashed qs @ y \<and> (y = [] \<or> hd y = CHR ''/''))" for x
  proof -
    have "(\<exists>y. x = slashed qs @ y \<and> (y = [] \<or> hd y = CHR ''/''))
      \<longleftrightarrow> x = slashed qs \<or> (\<exists>z. x = (slashed qs @ ''/'') @ z)"
    proof
      assume "\<exists>y. x = slashed qs @ y \<and> (y = [] \<or> hd y = CHR ''/'')"
      then obtain y where "x = slashed qs @ y" "y = [] \<or> hd y = CHR ''/''" by blast
      then show "x = slashed qs \<or> (\<exists>z. x = (slashed qs @ ''/'') @ z)" by (cases y) auto
    qed auto
    then show ?thesis by (simp add: entry_matches_def has_prefix_iff assms(3))
  qed
  show ?thesis
  proof (cases "?ps = []")
    case True
    then have "path_clean p = ''/''" using path_clean_rooted [OF assms(1,2)] by simp
    moreover have "entry_matches ''/'' e \<longleftrightarrow> qs = []"
    proof
      assume "entry_matches ''/'' e"
      then obtain y where y: "''/'' = slashed qs @ y" using m by blast
      show "qs = []"
      proof (rule ccontr)
        assume "qs \<noteq> []"
        then obtain q rs where qs: "qs = q # rs" by (cases qs) auto
        then have "q @ slashed rs = []" using y by simp
        then show False using qs assms(5) by (cases rs) auto
      qed
    qed (auto simp: m)
    ultimately show ?thesis using True by (auto simp: take_Nil)
  next
    case False
    then show ?thesis using path_clean_rooted [OF assms(1,2)] slashed_prefix [OF assms(4) free] m by simp
  qed
qed

text \<open>Normalized prefixes are of that form.\<close>

lemma trim_right_slash_last: "trim_right_slash q \<noteq> [] \<Longrightarrow> last (trim_right_slash q) \<noteq> CHR ''/''"
  using hd_dropWhile [of "\<lambda>c. c = CHR ''/''" "rev q"] by (auto simp: trim_right_slash_def last_rev)

lemma trim_right_slash_head:
  assumes "has_prefix q ''/''"
  shows "trim_right_slash q = [] \<or> hd (trim_right_slash q) = CHR ''/''"
proof -
  obtain y where y: "rev q = y @ [CHR ''/'']" using assms by (auto simp: has_prefix_iff)
  show ?thesis
    by (cases "\<forall>c \<in> set y. c = CHR ''/''")
      (auto simp: trim_right_slash_def y dropWhile_append dropWhile_append3 hd_append dest: set_dropWhileD)
qed

definition route_segments :: "route \<Rightarrow> string list" where
  "route_segments r = prefix_segments (trim_right_slash (prefix_of r))"

lemma last_segment: "q \<noteq> [] \<Longrightarrow> hd q = CHR ''/'' \<Longrightarrow> last q \<noteq> CHR ''/'' \<Longrightarrow> last (prefix_segments q) \<noteq> []"
proof
  assume q: "q \<noteq> []" "hd q = CHR ''/''" "last q \<noteq> CHR ''/''" and l: "last (prefix_segments q) = []"
  have "prefix_segments q \<noteq> []" using q(1) by (simp add: prefix_segments_def)
  then have "slashed (prefix_segments q) = slashed (butlast (prefix_segments q)) @ ''/''"
    by (metis l append_butlast_last_id slashed_simps append_Nil append_Nil2)
  then show False using slashed_prefix_segments [of q] q by (metis last_snoc)
qed

lemma entry_matches_segments:
  assumes "p \<noteq> []" and "hd p = CHR ''/''" and "has_prefix (prefix_of r) ''/''"
    and "e = \<lparr>entry_prefix = trim_right_slash (prefix_of r), entry_route = r\<rparr>"
  shows "entry_matches (path_clean p) e \<longleftrightarrow> take (length (route_segments r)) (clean_segments p) = route_segments r"
proof (rule matches_segments [OF assms(1,2)])
  note h = trim_right_slash_head [OF assms(3)]
  show "entry_prefix e = slashed (route_segments r)"
    using slashed_prefix_segments [OF h] by (simp add: assms(4) route_segments_def)
  show "\<forall>s \<in> set (route_segments r). slash_free s" by (simp add: route_segments_def prefix_segments_free)
  assume "route_segments r \<noteq> []"
  then have "trim_right_slash (prefix_of r) \<noteq> []" by (auto simp: route_segments_def prefix_segments_def)
  then show "last (route_segments r) \<noteq> []"
    unfolding route_segments_def using h by (intro last_segment trim_right_slash_last) auto
qed

section \<open>Properties\<close>

text \<open>
  C16. The longest prefix wins, whatever the order of the routes in the file: with distinct
  normalized prefixes a path is matched to an entry exactly when that entry matches and no other
  matching entry has a longer prefix; permuting the routes changes nothing; and no match means
  that no entry matches.
\<close>

theorem match_longest_prefix:
  assumes "distinct_prefixes rs"
  shows "(match (new_table rs) p = Some e \<longleftrightarrow>
      e \<in> set (new_table rs) \<and> entry_matches (path_clean p) e \<and>
      (\<forall>d \<in> set (new_table rs). entry_matches (path_clean p) d \<longrightarrow> length (entry_prefix d) \<le> length (entry_prefix e))) \<and>
    (match (new_table rs) p = None \<longleftrightarrow> (\<forall>e \<in> set (new_table rs). \<not> entry_matches (path_clean p) e)) \<and>
    (mset rs' = mset rs \<longrightarrow> match (new_table rs') p = match (new_table rs) p)"
proof (intro conjI impI)
  have char: "match (new_table qs) p = Some e \<longleftrightarrow>
      e \<in> set (new_table qs) \<and> entry_matches (path_clean p) e \<and>
      (\<forall>d \<in> set (new_table qs). entry_matches (path_clean p) d \<longrightarrow> length (entry_prefix d) \<le> length (entry_prefix e))"
    if "distinct_prefixes qs" for qs e
    using find_longest [OF _ new_table_sorted, of "entry_matches (path_clean p)" qs e] match_unique [OF that, of e p]
    by (auto simp: match_def)
  show "match (new_table rs) p = Some e \<longleftrightarrow>
      e \<in> set (new_table rs) \<and> entry_matches (path_clean p) e \<and>
      (\<forall>d \<in> set (new_table rs). entry_matches (path_clean p) d \<longrightarrow> length (entry_prefix d) \<le> length (entry_prefix e))"
    by (rule char [OF assms])
  show "match (new_table rs') p = match (new_table rs) p" if m: "mset rs' = mset rs"
  proof -
    have "distinct_prefixes rs'"
      using assms mset_eq_imp_distinct_iff [of "map (\<lambda>r. trim_right_slash (prefix_of r)) rs'" "map (\<lambda>r. trim_right_slash (prefix_of r)) rs"] m
      by (simp add: distinct_prefixes_def)
    moreover have "set (new_table rs') = set (new_table rs)"
      by (simp add: new_table_set mset_eq_setD [OF m])
    ultimately have "match (new_table rs') p = Some d \<longleftrightarrow> match (new_table rs) p = Some d" for d
      unfolding char [OF assms] by (subst char) simp_all
    then show ?thesis by (cases "match (new_table rs) p"; cases "match (new_table rs') p") auto
  qed
  show "match (new_table rs) p = None \<longleftrightarrow> (\<forall>e \<in> set (new_table rs). \<not> entry_matches (path_clean p) e)"
    by (simp add: match_def find_none)
qed

text \<open>
  Matching is by whole segments of the cleaned path: a rooted path matches a route exactly
  when the segments of the route's prefix are the first segments of the path once empty and dot
  segments are resolved, so \<open>/apifoo\<close> is not under \<open>/api\<close> and no dot segment leads into or out of
  a prefix.
\<close>

theorem match_by_segments:
  assumes "p \<noteq> []" and "hd p = CHR ''/''" and "has_prefix (prefix_of r) ''/''"
  shows "(entry_matches (path_clean p) \<lparr>entry_prefix = trim_right_slash (prefix_of r), entry_route = r\<rparr>
      \<longleftrightarrow> take (length (route_segments r)) (clean_segments p) = route_segments r) \<and>
    (\<forall>s \<in> set (clean_segments p). s \<noteq> [] \<and> s \<noteq> ''.'' \<and> s \<noteq> ''..'' \<and> slash_free s)"
  using entry_matches_segments [OF assms refl] clean_segments_real by (auto simp: real_segment_def)

text \<open>
  C40. A prefix that is not clean is accepted by the validation and never matched: with an empty or
  dot segment in its prefix a route matches no rooted path, so its limit is never applied and its
  traffic falls to a shorter prefix or to no route.
\<close>

theorem unclean_prefix_is_dead:
  assumes "has_prefix (prefix_of r) ''/''" and "s \<in> set (route_segments r)" and "s \<in> {[], ''.'', ''..''}"
    and "p \<noteq> []" and "hd p = CHR ''/''"
  shows "\<not> entry_matches (path_clean p) \<lparr>entry_prefix = trim_right_slash (prefix_of r), entry_route = r\<rparr>"
proof
  assume "entry_matches (path_clean p) \<lparr>entry_prefix = trim_right_slash (prefix_of r), entry_route = r\<rparr>"
  then have "take (length (route_segments r)) (clean_segments p) = route_segments r"
    using entry_matches_segments [OF assms(4,5,1) refl] by blast
  then have "s \<in> set (clean_segments p)" using assms(2) by (metis in_set_takeD)
  from clean_segments_real [OF this] assms(3) show False by (auto simp: real_segment_def)
qed

text \<open>
  The root route does not match "every path": not every cleaned path starts with a slash, and
  for the request targets that have none, the empty path of CONNECT and the asterisk, a table of
  only the root route has no match.
\<close>

theorem root_route_is_not_total:
  assumes "prefix_of r = ''/''"
  shows "match (new_table [r]) [] = None \<and> match (new_table [r]) ''*'' = None \<and>
    (p \<noteq> [] \<and> hd p = CHR ''/'' \<longrightarrow> match (new_table [r]) p \<noteq> None)"
proof (intro conjI impI)
  have t: "trim_right_slash ''/'' = []" by code_simp
  have c: "path_clean [] = ''.''" "path_clean ''*'' = ''*''" by code_simp+
  show "match (new_table [r]) [] = None" "match (new_table [r]) ''*'' = None"
    by (simp_all add: match_def new_table_def assms t c entry_matches_def has_prefix_def)
  show "match (new_table [r]) p \<noteq> None" if "p \<noteq> [] \<and> hd p = CHR ''/''"
    using entry_matches_segments [of p r, OF _ _ _ refl] that assms t
    by (simp add: match_def new_table_def has_prefix_def route_segments_def prefix_segments_def)
qed

section \<open>Witnesses\<close>

lemma example_distinct: "distinct_prefixes example_routes"
  by code_simp

theorem match_longest_prefix_witness:
  "map_option (\<lambda>e. prefix_of (entry_route e)) (match (new_table (rev example_routes)) ''/api/users'') = Some ''/api/''"
proof -
  have "map_option (\<lambda>e. prefix_of (entry_route e)) (match (new_table example_routes) ''/api/users'') = Some ''/api/''"
    by code_simp
  then show ?thesis
    using match_longest_prefix [OF example_distinct, of "''/api/users''" _ "rev example_routes"] by simp
qed

theorem match_by_segments_witness:
  "\<not> entry_matches (path_clean ''/apiv2/x'') \<lparr>entry_prefix = trim_right_slash ''/api/'', entry_route = hd example_routes\<rparr>"
proof -
  have "take (length (route_segments (hd example_routes))) (clean_segments ''/apiv2/x'') \<noteq> route_segments (hd example_routes)"
    "has_prefix (prefix_of (hd example_routes)) ''/''"
    by code_simp+
  moreover have "prefix_of (hd example_routes) = ''/api/''" by (simp add: example_routes_def)
  ultimately show ?thesis
    using match_by_segments [of "''/apiv2/x''" "hd example_routes"] by simp
qed

definition dotted_route :: route where
  "dotted_route = (hd example_routes)\<lparr>prefix_of := ''/api/./v1''\<rparr>"

theorem unclean_prefix_is_dead_witness:
  "\<not> entry_matches (path_clean ''/api/v1'') \<lparr>entry_prefix = trim_right_slash ''/api/./v1'', entry_route = dotted_route\<rparr>"
proof -
  have "has_prefix (prefix_of dotted_route) ''/''" "''.'' \<in> set (route_segments dotted_route)" by code_simp+
  moreover have "prefix_of dotted_route = ''/api/./v1''" by (simp add: dotted_route_def)
  ultimately show ?thesis using unclean_prefix_is_dead [of dotted_route "''.''" "''/api/v1''"] by simp
qed

definition root_route :: route where
  "root_route = (hd example_routes)\<lparr>prefix_of := ''/''\<rparr>"

theorem root_route_is_not_total_witness:
  "match (new_table [root_route]) ''*'' = None \<and> match (new_table [root_route]) ''/any/path'' \<noteq> None"
  using root_route_is_not_total [of root_route "''/any/path''"] by (simp add: root_route_def)

end
