(* ===== verification/Http.thy ===== *)
theory Http
  imports Identity
begin

text \<open>
  The response side of \<open>net/http\<close> as the handlers use it, and \<open>strconv.Itoa\<close>. A writer holds the
  headers set so far, the interim replies sent, the status once the final one is written, the body
  sent and the bytes that \<open>Write\<close> has accepted. These are more than the body for a \<open>HEAD\<close> request,
  whose body the server accepts and drops; for a status that has no body \<open>Write\<close> accepts nothing.
\<close>

section \<open>Decimal numbers\<close>

fun digits :: "nat \<Rightarrow> string" where
  "digits n = (if n < 10 then [char_of (n + 48)] else digits (n div 10) @ [char_of (n mod 10 + 48)])"

declare digits.simps [simp del]

definition itoa :: "int \<Rightarrow> string" where
  "itoa i = (if i < 0 then CHR ''-'' # digits (nat (- i)) else digits (nat i))"

text \<open>Reading a number back, as a client does.\<close>

definition digit_value :: "char \<Rightarrow> nat" where
  "digit_value c = of_char c - 48"

definition read_digits :: "string \<Rightarrow> nat" where
  "read_digits s = foldl (\<lambda>n c. 10 * n + digit_value c) 0 s"

definition read_int :: "string \<Rightarrow> int" where
  "read_int s = (case s of c # cs \<Rightarrow> if c = CHR ''-'' then - int (read_digits cs) else int (read_digits s) | [] \<Rightarrow> 0)"

lemma digit_value_of: "n < 10 \<Longrightarrow> digit_value (char_of (n + 48)) = n"
  by (simp add: digit_value_def)

lemma digit_char: "(n :: nat) < 10 \<Longrightarrow> digit (char_of (n + 48))"
  by (simp add: digit_def)

lemma read_digits_digits [simp]: "read_digits (digits n) = n"
proof (induction n rule: digits.induct)
  case (1 n)
  show ?case
  proof (cases "n < 10")
    case True
    then show ?thesis by (simp add: digits.simps [of n] read_digits_def digit_value_of)
  next
    case False
    have "read_digits (digits n) = 10 * read_digits (digits (n div 10)) + digit_value (char_of (n mod 10 + 48))"
      using False by (simp add: digits.simps [of n] read_digits_def)
    then show ?thesis using "1.IH" [OF False] digit_value_of [of "n mod 10"] by simp
  qed
qed

lemma digits_digit: "c \<in> set (digits n) \<Longrightarrow> digit c"
proof (induction n rule: digits.induct)
  case (1 n)
  then show ?case
    using digit_char [of n] digit_char [of "n mod 10"]
    by (cases "n < 10") (auto simp: digits.simps [of n])
qed

lemma digits_nonempty [simp]: "digits n \<noteq> []"
  by (simp add: digits.simps)

lemma minus_not_digit: "\<not> digit (CHR ''-'')"
  by (simp add: digit_def)

lemma read_int_itoa: "read_int (itoa i) = i"
proof (cases "i < 0")
  case True
  then show ?thesis by (simp add: itoa_def read_int_def)
next
  case False
  obtain c cs where d: "digits (nat i) = c # cs" by (cases "digits (nat i)") auto
  then have "digit c" using digits_digit [of c "nat i"] by simp
  then have "c \<noteq> CHR ''-''" using minus_not_digit by auto
  then show ?thesis using False d read_digits_digits [of "nat i"] by (simp add: itoa_def read_int_def)
qed

lemma itoa_inj: "itoa i = itoa j \<longleftrightarrow> i = j"
  by (metis read_int_itoa)

section \<open>The response writer\<close>

record writer =
  out_headers :: header
  written :: "int option"
  body :: string
  accepted :: nat
  head_only :: bool
  interim :: "(int \<times> header) list"

definition set_header :: "string \<Rightarrow> string \<Rightarrow> writer \<Rightarrow> writer" where
  "set_header k v w = w\<lparr>out_headers := header_set k v (out_headers w)\<rparr>"

definition del_header :: "string \<Rightarrow> writer \<Rightarrow> writer" where
  "del_header k w = w\<lparr>out_headers := AList.delete (canonical_key k) (out_headers w)\<rparr>"

text \<open>An interim status is sent at once, with the headers as they are, and is not the answer.\<close>

definition interim_status :: "int \<Rightarrow> bool" where
  "interim_status code \<longleftrightarrow> 100 \<le> code \<and> code \<le> 199 \<and> code \<noteq> 101"

definition body_allowed :: "int \<Rightarrow> bool" where
  "body_allowed code \<longleftrightarrow> \<not> (100 \<le> code \<and> code \<le> 199) \<and> code \<noteq> 204 \<and> code \<noteq> 304"

definition write_header :: "int \<Rightarrow> writer \<Rightarrow> writer" where
  "write_header code w =
     (if written w \<noteq> None then w
      else if interim_status code then w\<lparr>interim := interim w @ [(code, out_headers w)]\<rparr>
      else w\<lparr>written := Some code\<rparr>)"

definition write_body :: "string \<Rightarrow> writer \<Rightarrow> writer" where
  "write_body s w =
     (let w1 = write_header 200 w
      in if body_allowed (the (written w1)) then
           w1\<lparr>accepted := accepted w1 + length s, body := (if head_only w1 then body w1 else body w1 @ s)\<rparr>
         else w1)"

definition newline :: string where "newline = [CHR 0x0A]"

declare interim_status_def [simp] body_allowed_def [simp]

text \<open>\<open>http.Error\<close>.\<close>

definition http_error :: "string \<Rightarrow> int \<Rightarrow> writer \<Rightarrow> writer" where
  "http_error msg code w =
     write_body (msg @ newline)
       (write_header code
         (set_header ''X-Content-Type-Options'' ''nosniff''
           (set_header ''Content-Type'' ''text/plain; charset=utf-8'' (del_header ''Content-Length'' w))))"

text \<open>What a client sees of a response.\<close>

definition response_status :: "writer \<Rightarrow> int" where
  "response_status w = (case written w of Some c \<Rightarrow> c | None \<Rightarrow> 200)"

definition response_header :: "string \<Rightarrow> writer \<Rightarrow> string option" where
  "response_header k w = (case map_of (out_headers w) (canonical_key k) of Some (v # vs) \<Rightarrow> Some v | _ \<Rightarrow> None)"

lemma map_of_delete: "map_of (AList.delete k xs) = (map_of xs)(k := None)"
  by (rule delete_conv')

lemma response_header_set [simp]:
  "response_header k (set_header k' v w) =
     (if canonical_key k = canonical_key k' then Some v else response_header k w)"
  by (simp add: response_header_def set_header_def header_set_def map_of_update)

lemma response_header_del [simp]:
  "response_header k (del_header k' w) = (if canonical_key k = canonical_key k' then None else response_header k w)"
  by (simp add: response_header_def del_header_def map_of_delete)

lemma written_200: "written (write_header 200 w) \<noteq> None"
  by (simp add: write_header_def interim_status_def)

lemma write_simps [simp]:
  "response_header k (write_header c w) = response_header k w"
  "response_header k (write_body s w) = response_header k w"
  "written (set_header k v w) = written w" "written (del_header k w) = written w"
  "body (set_header k v w) = body w" "body (del_header k w) = body w" "body (write_header c w) = body w"
  "accepted (set_header k v w) = accepted w" "accepted (del_header k w) = accepted w"
  "accepted (write_header c w) = accepted w"
  "head_only (set_header k v w) = head_only w" "head_only (del_header k w) = head_only w"
  "head_only (write_header c w) = head_only w" "head_only (write_body s w) = head_only w"
  "interim (set_header k v w) = interim w" "interim (del_header k w) = interim w"
  "interim (write_body s w) = interim w"
  "written (write_body s w) = written (write_header 200 w)"
  "written (write_header c w) = (if written w = None \<and> \<not> interim_status c then Some c else written w)"
  by (auto simp: response_header_def write_header_def write_body_def set_header_def del_header_def Let_def interim_status_def)

text \<open>An answer with a body, which is sent unless the request is a \<open>HEAD\<close>.\<close>

lemma answer_simps [simp]:
  assumes "written w = None" and "\<not> interim_status c"
  shows "body (write_body s (write_header c w)) = body w @ (if head_only w \<or> \<not> body_allowed c then [] else s)"
    and "accepted (write_body s (write_header c w)) = accepted w + (if body_allowed c then length s else 0)"
    and "interim (write_header c w) = interim w"
  using assms by (simp_all add: write_body_def write_header_def Let_def)

text \<open>The body is what was accepted, or nothing on a \<open>HEAD\<close>.\<close>

definition writer_ok :: "writer \<Rightarrow> bool" where
  "writer_ok w \<longleftrightarrow> (if head_only w then body w = [] else length (body w) = accepted w)"

lemma writer_ok_kept [simp]:
  "writer_ok (set_header k v w) = writer_ok w" "writer_ok (del_header k w) = writer_ok w"
  "writer_ok (write_header c w) = writer_ok w" "writer_ok w \<Longrightarrow> writer_ok (write_body s w)"
  by (auto simp: writer_ok_def write_body_def Let_def)

lemma accepted_mono: "accepted w \<le> accepted (write_body s w)"
  by (simp add: write_body_def Let_def)

lemma http_error_simps:
  "written w = None \<Longrightarrow> \<not> interim_status code \<Longrightarrow> response_status (http_error msg code w) = code"
  "response_header k (http_error msg code w) =
     (if canonical_key k = ''X-Content-Type-Options'' then Some ''nosniff''
      else if canonical_key k = ''Content-Type'' then Some ''text/plain; charset=utf-8''
      else if canonical_key k = ''Content-Length'' then None
      else response_header k w)"
proof -
  have c: "canonical_key ''X-Content-Type-Options'' = ''X-Content-Type-Options''"
    "canonical_key ''Content-Type'' = ''Content-Type''" "canonical_key ''Content-Length'' = ''Content-Length''"
    by code_simp+
  show "written w = None \<Longrightarrow> \<not> interim_status code \<Longrightarrow> response_status (http_error msg code w) = code"
    by (simp add: http_error_def response_status_def)
  show "response_header k (http_error msg code w) =
     (if canonical_key k = ''X-Content-Type-Options'' then Some ''nosniff''
      else if canonical_key k = ''Content-Type'' then Some ''text/plain; charset=utf-8''
      else if canonical_key k = ''Content-Length'' then None
      else response_header k w)"
    by (simp add: http_error_def c)
qed

end
