(* ===== verification/Duration.thy ===== *)
theory Duration
  imports Http
begin

text \<open>
  \<open>Duration.UnmarshalYAML\<close> of \<open>internal/config/config.go\<close>, and \<open>time.ParseDuration\<close> under it, which
  reads the durations of a configuration: a sign, then numbers with a unit each, summed with the
  overflow checks of the library on unsigned 64-bit integers; a fraction is scaled in doubles.
\<close>

section \<open>The code\<close>

definition max_nanos :: int where "max_nanos = 9223372036854775808"

text \<open>\<open>leadingInt\<close>: the number consumed so far is \<open>x\<close>; \<open>None\<close> is its overflow error.\<close>

fun leading_int :: "int \<Rightarrow> string \<Rightarrow> (int \<times> string) option" where
  "leading_int x [] = Some (x, [])"
| "leading_int x (c # cs) =
     (if \<not> digit c then Some (x, c # cs)
      else if x > max_nanos div 10 then None
      else (let y = x * 10 + int (digit_value c) in if y > max_nanos then None else leading_int y cs))"

text \<open>\<open>leadingFraction\<close>: digits past an overflow are consumed and ignored.\<close>

fun leading_fraction :: "int \<Rightarrow> float64 \<Rightarrow> bool \<Rightarrow> string \<Rightarrow> int \<times> float64 \<times> string" where
  "leading_fraction x scale overflow [] = (x, scale, [])"
| "leading_fraction x scale overflow (c # cs) =
     (if \<not> digit c then (x, scale, c # cs)
      else if overflow then leading_fraction x scale True cs
      else if x > (max_nanos - 1) div 10 then leading_fraction x scale True cs
      else (let y = x * 10 + int (digit_value c) in
        if y > max_nanos then leading_fraction x scale True cs
        else leading_fraction y (fmul scale 10) False cs))"

definition unit_map :: "string \<Rightarrow> int option" where
  "unit_map u = map_of
     [(''ns'', 1), (''us'', 1000), ([CHR 0xC2, CHR 0xB5, CHR ''s''], 1000), ([CHR 0xCE, CHR 0xBC, CHR ''s''], 1000),
      (''ms'', 1000000), (''s'', 1000000000), (''m'', 60000000000), (''h'', 3600000000000)] u"

definition unit_char :: "char \<Rightarrow> bool" where
  "unit_char c \<longleftrightarrow> c \<noteq> CHR ''.'' \<and> \<not> digit c"

text \<open>One number with its unit: its value in nanoseconds and what follows it.\<close>

definition parse_term :: "string \<Rightarrow> (int \<times> string) option" where
  "parse_term s =
     (case s of
        [] \<Rightarrow> None
      | c # cs \<Rightarrow>
          if \<not> (c = CHR ''.'' \<or> digit c) then None
          else case leading_int 0 s of
              None \<Rightarrow> None
            | Some (v, s1) \<Rightarrow>
                (let pre = length s \<noteq> length s1;
                     (f, scale, s2, post) =
                       (case s1 of
                          c' # cs' \<Rightarrow>
                            if c' = CHR ''.'' then
                              (case leading_fraction 0 1 False cs' of (f, scale, s2) \<Rightarrow> (f, scale, s2, length cs' \<noteq> length s2))
                            else (0, 1, s1, False)
                        | [] \<Rightarrow> (0, 1, [], False))
                 in if \<not> pre \<and> \<not> post then None
                    else case unit_map (takeWhile unit_char s2) of
                        None \<Rightarrow> None
                      | Some u \<Rightarrow>
                          if v > max_nanos div u then None
                          else
                            (let w = (if f > 0 then v * u + \<lfloor>fmul (i2f f) (fdiv (i2f u) scale)\<rfloor> else v * u)
                             in if w > max_nanos then None else Some (w, dropWhile unit_char s2))))"

lemma leading_int_shorter: "leading_int x s = Some (v, s') \<Longrightarrow> length s' \<le> length s"
  by (induction s arbitrary: x) (fastforce simp: Let_def split: if_splits)+

lemma leading_fraction_shorter: "leading_fraction x sc ov s = (f, sc', s') \<Longrightarrow> length s' \<le> length s"
  by (induction s arbitrary: x sc ov) (fastforce simp: Let_def split: if_splits)+

lemma parse_term_shorter:
  assumes "parse_term s = Some (w, s')"
  shows "length s' < length s"
proof -
  obtain c cs where s: "s = c # cs" using assms by (cases s) (auto simp: parse_term_def)
  obtain v s1 where l: "leading_int 0 s = Some (v, s1)"
    using assms by (auto simp: parse_term_def s split: option.splits if_splits)
  obtain f scale s2 post where m: "(case s1 of
          c' # cs' \<Rightarrow>
            if c' = CHR ''.'' then
              (case leading_fraction 0 1 False cs' of (f, scale, s2) \<Rightarrow> (f, scale, s2, length cs' \<noteq> length s2))
            else (0, 1, s1, False)
        | [] \<Rightarrow> (0, 1, [], False)) = (f, scale, s2, post)"
    by (rule prod_cases4)
  have "length s2 \<le> length s"
    using m leading_int_shorter [OF l]
    by (auto split: list.splits if_splits prod.splits dest: leading_fraction_shorter)
  moreover have "takeWhile unit_char s2 \<noteq> [] \<and> s' = dropWhile unit_char s2"
    using assms l m
    by (auto simp: parse_term_def s Let_def unit_map_def split: option.splits if_splits)
  moreover have "takeWhile unit_char s2 \<noteq> [] \<Longrightarrow> length (dropWhile unit_char s2) < length s2"
    by (cases s2) (auto simp: le_imp_less_Suc length_dropWhile_le split: if_splits)
  ultimately show ?thesis by auto
qed

text \<open>The loop of \<open>ParseDuration\<close>, with the sum so far.\<close>

function parse_terms :: "int \<Rightarrow> string \<Rightarrow> int option" where
  "parse_terms d s =
     (if s = [] then Some d
      else case parse_term s of
          None \<Rightarrow> None
        | Some (v, s') \<Rightarrow> if d + v > max_nanos then None else parse_terms (d + v) s')"
  by pat_completeness auto

termination
  by (relation "measure (\<lambda>(d, s). length s)") (auto dest: parse_term_shorter)

declare parse_terms.simps [simp del]

definition parse_duration :: "string \<Rightarrow> duration option" where
  "parse_duration s =
     (let neg = (case s of c # cs \<Rightarrow> c = CHR ''-'' | [] \<Rightarrow> False);
          s1 = (case s of c # cs \<Rightarrow> if c = CHR ''-'' \<or> c = CHR ''+'' then cs else s | [] \<Rightarrow> s)
      in if s1 = ''0'' then Some 0
         else if s1 = [] then None
         else case parse_terms 0 s1 of
             None \<Rightarrow> None
           | Some d \<Rightarrow> if neg then Some (- d) else if d > max_nanos - 1 then None else Some d)"

text \<open>\<open>UnmarshalYAML\<close>, on what the node decodes to as a string.\<close>

datatype duration_error = NotAString string | InvalidDuration string

definition unmarshal_duration :: "string + string \<Rightarrow> duration_error + duration" where
  "unmarshal_duration node =
     (case node of
        Inl err \<Rightarrow> Inl (NotAString err)
      | Inr raw \<Rightarrow>
          (case parse_duration raw of
             None \<Rightarrow> Inl (InvalidDuration raw)
           | Some d \<Rightarrow> Inr d))"

section \<open>Whole numbers of a unit\<close>

lemma leading_int_digits:
  assumes "\<forall>c \<in> set ds. digit c" and "rest = [] \<or> \<not> digit (hd rest)"
  shows "leading_int (int x) (ds @ rest) =
    (if int (foldl (\<lambda>n c. 10 * n + digit_value c) x ds) \<le> max_nanos \<or> ds = []
     then Some (int (foldl (\<lambda>n c. 10 * n + digit_value c) x ds), rest) else None)"
  using assms(1)
proof (induction ds arbitrary: x)
  case Nil
  then show ?case using assms(2) by (cases rest) auto
next
  case (Cons c ds)
  have grow: "y \<le> foldl (\<lambda>n c. 10 * n + digit_value c) y ds" for y
  proof (induction ds arbitrary: y)
    case (Cons d ds)
    have "y \<le> 10 * y + digit_value d" by simp
    then show ?case using Cons.IH [of "10 * y + digit_value d"] by simp
  qed simp
  have "digit c" using Cons.prems by simp
  let ?y = "10 * x + digit_value c"
  have y: "int x * 10 + int (digit_value c) = int ?y" by simp
  show ?case
  proof (cases "int ?y > max_nanos")
    case True
    then have "int (foldl (\<lambda>n c. 10 * n + digit_value c) ?y ds) > max_nanos" using grow [of ?y] by linarith
    then show ?thesis using True \<open>digit c\<close> by (simp add: Let_def y del: of_nat_add of_nat_mult)
  next
    case False
    then have "\<not> int x > max_nanos div 10" by (simp add: max_nanos_def)
    then show ?thesis using False Cons.IH [of ?y] Cons.prems \<open>digit c\<close>
      by (auto simp add: Let_def y simp del: of_nat_add of_nat_mult)
  qed
qed

lemma leading_int_number:
  assumes "rest = [] \<or> \<not> digit (hd rest)"
  shows "leading_int 0 (digits n @ rest) = (if int n \<le> max_nanos then Some (int n, rest) else None)"
  using leading_int_digits [of "digits n" rest 0] assms digits_digit read_digits_digits [of n]
  by (simp add: read_digits_def)

lemma unit_chars: "unit_map u = Some k \<Longrightarrow> u \<noteq> [] \<and> (\<forall>c \<in> set u. unit_char c) \<and> 0 < k"
proof -
  have "\<forall>c \<in> set ''nsumh'' \<union> {CHR 0xC2, CHR 0xB5, CHR 0xCE, CHR 0xBC}. unit_char c" by code_simp
  then show "unit_map u = Some k \<Longrightarrow> ?thesis" by (auto simp: unit_map_def split: if_splits)
qed

lemma parse_term_number:
  assumes "unit_map u = Some k"
  shows "parse_term (digits n @ u) = (if int n * k \<le> max_nanos then Some (int n * k, []) else None)"
proof -
  note u = unit_chars [OF assms]
  have "unit_char (hd u)" using u by simp
  then have h: "\<not> digit (hd u)" "hd u \<noteq> CHR ''.''" by (auto simp: unit_char_def)
  obtain c cs where d: "digits n = c # cs" by (cases "digits n") auto
  then have c: "digit c" using digits_digit [of c n] by simp
  have l: "leading_int 0 (digits n @ u) = (if int n \<le> max_nanos then Some (int n, u) else None)"
    using leading_int_number [of u n] h by simp
  have pre: "length (digits n @ u) \<noteq> length u" by simp
  have t: "takeWhile unit_char u = u" "dropWhile unit_char u = []" using u by auto
  obtain a as where uc: "u = a # as" using u by (cases u) auto
  have le: "int n \<le> max_nanos div k \<longleftrightarrow> int n * k \<le> max_nanos"
  proof
    assume "int n \<le> max_nanos div k"
    then have "int n * k \<le> max_nanos div k * k" using u by (simp add: mult_right_mono)
    moreover have "max_nanos div k * k \<le> max_nanos"
      using div_mult_mod_eq [of max_nanos k] pos_mod_sign [of k max_nanos] u by linarith
    ultimately show "int n * k \<le> max_nanos" by linarith
  next
    assume "int n * k \<le> max_nanos"
    then have "int n * k div k \<le> max_nanos div k" using u by (intro zdiv_mono1) auto
    then show "int n \<le> max_nanos div k" using u by simp
  qed
  have "int n * k \<le> max_nanos \<Longrightarrow> int n \<le> max_nanos"
    using u mult_left_mono [of 1 k "int n"] by simp
  then show ?thesis
    using l c h pre t le assms
    by (auto simp: parse_term_def d Let_def uc not_less [symmetric])
qed

lemma parse_terms_number:
  assumes "unit_map u = Some k"
  shows "parse_terms 0 (digits n @ u) = (if int n * k \<le> max_nanos then Some (int n * k) else None)"
  using parse_term_number [OF assms, of n] by (simp add: parse_terms.simps [of 0] parse_terms.simps [of _ "[]"])

lemma digits_no_sign: "digits n = c # cs \<Longrightarrow> c \<noteq> CHR ''-'' \<and> c \<noteq> CHR ''+''"
  using digits_digit [of c n] by (auto simp: digit_def)

lemma not_just_zero: "unit_map u = Some k \<Longrightarrow> digits n @ u \<noteq> ''0''"
  using unit_chars [of u k] by (cases "digits n") auto

section \<open>Properties\<close>

text \<open>
  C27. A duration written as a whole number of a unit is read back as it was meant: every integer,
  printed in front of any of the units, is read as that many units of nanoseconds when this fits in
  64 bits, the most negative one included, and rejected, never wrapped around, when it does not.
\<close>

theorem whole_units_round_trip:
  assumes "unit_map u = Some k"
  shows "unmarshal_duration (Inr (itoa n @ u)) =
    (if in_int64 (n * k) then Inr (n * k) else Inl (InvalidDuration (itoa n @ u)))"
proof (cases "n < 0")
  case True
  define m where "m = nat (- n)"
  have n: "n = - int m" "0 < m" using True by (simp_all add: m_def)
  have i: "itoa n = CHR ''-'' # digits m" using n by (simp add: itoa_def)
  have "0 \<le> int m * k" using unit_chars [OF assms] by simp
  then have "in_int64 (n * k) \<longleftrightarrow> int m * k \<le> max_nanos"
    unfolding n by (auto simp: in_int64_def int64_min_def int64_max_def max_nanos_def)
  then show ?thesis
    using not_just_zero [OF assms, of m] parse_terms_number [OF assms, of m]
    by (simp add: unmarshal_duration_def parse_duration_def i Let_def) (simp add: n)
next
  case False
  define m where "m = nat n"
  have n: "n = int m" using False by (simp add: m_def)
  have i: "itoa n = digits m" by (simp add: itoa_def n)
  obtain c cs where d: "digits m = c # cs" by (cases "digits m") auto
  note c = digits_no_sign [OF d]
  have "0 \<le> int m * k" using unit_chars [OF assms] by simp
  then have "in_int64 (n * k) \<longleftrightarrow> int m * k \<le> max_nanos \<and> \<not> int m * k > max_nanos - 1"
    unfolding n by (auto simp: in_int64_def int64_min_def int64_max_def max_nanos_def)
  then show ?thesis
    using not_just_zero [OF assms, of m] parse_terms_number [OF assms, of m] c unit_chars [OF assms]
    by (simp add: unmarshal_duration_def parse_duration_def i d Let_def) (simp add: n)
qed

section \<open>Witnesses\<close>

lemma second_unit: "unit_map ''s'' = Some 1000000000"
  by code_simp

theorem whole_units_round_trip_witness:
  "unmarshal_duration (Inr ''10s'') = Inr (10 * second) \<and>
   unmarshal_duration (Inr (itoa 9223372037 @ ''s'')) = Inl (InvalidDuration (itoa 9223372037 @ ''s''))"
proof -
  have "itoa 10 = ''10''" by code_simp
  then show ?thesis
    using whole_units_round_trip [OF second_unit, of 10] whole_units_round_trip [OF second_unit, of 9223372037]
    by (simp add: in_int64_def int64_min_def int64_max_def second_def)
qed

text \<open>Compound, fractional and malformed durations.\<close>

lemma duration_examples:
  "map parse_duration [''1h30m'', ''1.5s'', ''-2ms'', ''0'', [], ''10'', ''.s'', ''5x''] =
     [Some 5400000000000, Some 1500000000, Some (- 2000000), Some 0, None, None, None, None]"
  by code_simp

end
