(* ===== verification/Gateway.thy ===== *)
theory Gateway
  imports Redis Table Http
begin

text \<open>
  The gateway handler, \<open>internal/proxy/gateway.go\<close>: route, limit, count, then answer or hand over
  to the route's reverse proxy. The limiter is any implementation of the interface; the reverse
  proxy itself is \<open>net/http/httputil\<close>'s, so a request that passes ends in \<open>Forward\<close>, with the
  headers set so far.
\<close>

section \<open>The code\<close>

text \<open>The settings of the one transport that all proxies share.\<close>

record transport =
  dial_within :: duration
  tls_handshake_within :: duration
  reply_header_within :: duration
  idle_conn_within :: duration
  max_idle_per_host :: nat
  force_http2 :: bool

definition new_transport :: "upstream_cfg \<Rightarrow> transport" where
  "new_transport up =
     \<lparr>dial_within = dial_timeout up, tls_handshake_within = 5 * second,
      reply_header_within = response_header_timeout up, idle_conn_within = 90 * second,
      max_idle_per_host = 32, force_http2 = True\<rparr>"

record gateway =
  table :: "entry list"
  transport_of :: transport
  proxies :: "(string \<times> string) list"
  policy :: string

text \<open>\<open>NewGateway\<close>, with the metrics in which it creates the series of every route. A proxy is
  kept as its upstream.\<close>

fun build_proxies :: "url_parser \<Rightarrow> entry list \<Rightarrow> (string \<times> string) list \<Rightarrow> metrics \<Rightarrow>
    string + (string \<times> string) list \<times> metrics" where
  "build_proxies url_parse [] ps m = Inr (ps, m)"
| "build_proxies url_parse (e # es) ps m =
     (let m1 = init_route (prefix_of (entry_route e)) m in
      case url_parse (upstream (entry_route e)) of
        None \<Rightarrow> Inl (prefix_of (entry_route e))
      | Some target \<Rightarrow>
          build_proxies url_parse es (AList.update (entry_prefix e) (upstream (entry_route e)) ps) m1)"

definition new_gateway :: "url_parser \<Rightarrow> route list \<Rightarrow> upstream_cfg \<Rightarrow> string \<Rightarrow> metrics \<Rightarrow> string + gateway \<times> metrics" where
  "new_gateway url_parse rs up on_err m =
     (case build_proxies url_parse (new_table rs) [] m of
        Inl e \<Rightarrow> Inl e
      | Inr (ps, m') \<Rightarrow> Inr (\<lparr>table = new_table rs, transport_of = new_transport up, proxies = ps, policy = on_err\<rparr>, m'))"

definition has_dot_segments :: "string \<Rightarrow> bool" where
  "has_dot_segments p \<longleftrightarrow> list_ex (\<lambda>s. s = ''.'' \<or> s = ''..'') (split_on (CHR ''/'') p)"

definition decision_label :: "answer \<Rightarrow> string" where
  "decision_label a =
     (case a of
        Inl e \<Rightarrow> decision_degrade
      | Inr d \<Rightarrow>
          if degraded d \<and> allowed d then decision_degrade_allow
          else if degraded d then decision_degrade_deny
          else if allowed d then decision_allow
          else decision_deny)"

definition write_rate_limit_headers :: "decision \<Rightarrow> writer \<Rightarrow> writer" where
  "write_rate_limit_headers d w =
     set_header ''X-RateLimit-Reset'' (itoa (time_unix (reset d)))
       (set_header ''X-RateLimit-Remaining'' (itoa (remaining d))
         (set_header ''X-RateLimit-Limit'' (itoa (quota d)) w))"

text \<open>\<open>int64(math.Ceil(d.Seconds()))\<close>, at least 1.\<close>

definition ceil_seconds :: "(float64 \<Rightarrow> int) \<Rightarrow> duration \<Rightarrow> int" where
  "ceil_seconds oor d =
     (let secs = f2i oor (of_int \<lceil>duration_seconds d\<rceil>) in if secs < 1 then 1 else secs)"

definition write_limiter_unavailable :: "(float64 \<Rightarrow> int) \<Rightarrow> writer \<Rightarrow> writer" where
  "write_limiter_unavailable oor w =
     http_error ''rate limiter unavailable'' 503
       (set_header ''Retry-After'' (itoa (ceil_seconds oor breaker_cooldown)) w)"

definition write_too_many_requests :: "(float64 \<Rightarrow> int) \<Rightarrow> decision \<Rightarrow> writer \<Rightarrow> writer" where
  "write_too_many_requests oor d w =
     http_error ''rate limit exceeded'' 429
       (set_header ''Retry-After'' (itoa (ceil_seconds oor (retry_after d))) w)"

text \<open>
  What the handler did: the route prefix it left for the middleware (empty when no route matched),
  and either its own answer or the hand-over to an upstream's proxy.
\<close>

datatype action = Respond writer | Forward string writer

record handled =
  routed :: string
  action :: action

text \<open>A missing proxy would be a nil pointer: a panic, \<open>None\<close>.\<close>

definition forward :: "gateway \<Rightarrow> entry \<Rightarrow> writer \<Rightarrow> handled option" where
  "forward g e w =
     map_option (\<lambda>up. \<lparr>routed = prefix_of (entry_route e), action = Forward up w\<rparr>)
       (map_of (proxies g) (entry_prefix e))"

definition after_decision :: "(float64 \<Rightarrow> int) \<Rightarrow> gateway \<Rightarrow> entry \<Rightarrow> answer \<Rightarrow> writer \<Rightarrow> handled option" where
  "after_decision oor g e a w =
     (case a of
        Inl err \<Rightarrow>
          if policy g = on_error_fail_closed
          then Some \<lparr>routed = prefix_of (entry_route e), action = Respond (write_limiter_unavailable oor w)\<rparr>
          else forward g e w
      | Inr d \<Rightarrow>
          if \<not> allowed d
          then Some \<lparr>routed = prefix_of (entry_route e),
            action = Respond (write_too_many_requests oor d (write_rate_limit_headers d w))\<rparr>
          else forward g e (write_rate_limit_headers d w))"

definition gateway_serve :: "('s, 'e) allow \<Rightarrow> (string \<Rightarrow> nat list) \<Rightarrow> (float64 \<Rightarrow> int) \<Rightarrow> gateway \<Rightarrow>
    's \<Rightarrow> metrics \<Rightarrow> 'e \<Rightarrow> request \<Rightarrow> writer \<Rightarrow> ('s \<times> metrics \<times> handled) option" where
  "gateway_serve allow sha oor g s m env r w =
     (if has_dot_segments (url_path r) then
        Some (s, m, \<lparr>routed = [], action = Respond (http_error ''no route'' 404 w)\<rparr>)
      else case match (table g) (escaped_path r) of
          None \<Rightarrow> Some (s, m, \<lparr>routed = [], action = Respond (http_error ''no route'' 404 w)\<rparr>)
        | Some e \<Rightarrow>
            (let i = identity_for r;
                 eff = limit_for (entry_route e) (ident i);
                 key = bucket_key sha (entry_prefix e) i
             in case allow s env key eff of
                  None \<Rightarrow> None
                | Some (s', a) \<Rightarrow>
                    (let m' = count_request (prefix_of (entry_route e)) (decision_label a) m
                     in map_option (\<lambda>h. (s', m', h)) (after_decision oor g e a w))))"

section \<open>A gateway built from valid routes\<close>

definition routes_ok :: "url_parser \<Rightarrow> route list \<Rightarrow> bool" where
  "routes_ok url_parse rs \<longleftrightarrow> (\<forall>r \<in> set rs. route_ok url_parse r) \<and> distinct_prefixes rs"

definition gateway_ok :: "url_parser \<Rightarrow> route list \<Rightarrow> gateway \<Rightarrow> bool" where
  "gateway_ok url_parse rs g \<longleftrightarrow> routes_ok url_parse rs \<and> table g = new_table rs \<and>
     (\<forall>e \<in> set (table g). map_of (proxies g) (entry_prefix e) = Some (upstream (entry_route e)))"

lemma build_proxies_ok:
  assumes "\<forall>e \<in> set es. url_parse (upstream (entry_route e)) \<noteq> None"
  shows "\<exists>ps' m'. build_proxies url_parse es ps m = Inr (ps', m') \<and>
    (distinct (map entry_prefix es) \<longrightarrow>
       (\<forall>e \<in> set es. map_of ps' (entry_prefix e) = Some (upstream (entry_route e))) \<and>
       (\<forall>k. k \<notin> entry_prefix ` set es \<longrightarrow> map_of ps' k = map_of ps k))"
  using assms
proof (induction es arbitrary: ps m)
  case (Cons e es)
  obtain u where u: "url_parse (upstream (entry_route e)) = Some u" using Cons.prems by auto
  let ?ps = "AList.update (entry_prefix e) (upstream (entry_route e)) ps"
  obtain ps' m' where b: "build_proxies url_parse es ?ps (init_route (prefix_of (entry_route e)) m) = Inr (ps', m')"
    and p: "distinct (map entry_prefix es) \<longrightarrow>
       (\<forall>e \<in> set es. map_of ps' (entry_prefix e) = Some (upstream (entry_route e))) \<and>
       (\<forall>k. k \<notin> entry_prefix ` set es \<longrightarrow> map_of ps' k = map_of ?ps k)"
    using Cons.IH [of ?ps "init_route (prefix_of (entry_route e)) m"] Cons.prems by auto
  show ?case using p by (auto simp: u b Let_def map_of_update)
qed simp

lemma new_table_prefixes:
  "distinct_prefixes rs \<Longrightarrow> distinct (map entry_prefix (new_table rs))"
proof -
  assume d: "distinct_prefixes rs"
  let ?es = "map (\<lambda>r. \<lparr>entry_prefix = trim_right_slash (prefix_of r), entry_route = r\<rparr>) rs"
  have "mset (map entry_prefix (new_table rs)) = mset (map entry_prefix ?es)"
    unfolding mset_map [of entry_prefix] new_table_def mset_sort ..
  moreover have "distinct (map entry_prefix ?es)" using d by (simp add: distinct_prefixes_def comp_def)
  ultimately show ?thesis using mset_eq_imp_distinct_iff by blast
qed

lemma new_gateway_ok:
  assumes "routes_ok url_parse rs"
  shows "\<exists>g m'. new_gateway url_parse rs up on_err m = Inr (g, m') \<and> gateway_ok url_parse rs g \<and> policy g = on_err"
proof -
  have "\<forall>e \<in> set (new_table rs). url_parse (upstream (entry_route e)) \<noteq> None"
    using assms by (auto simp: new_table_set routes_ok_def route_ok_def)
  from build_proxies_ok [OF this, of "[]" m] new_table_prefixes assms
  show ?thesis by (auto simp: new_gateway_def gateway_ok_def routes_ok_def)
qed

lemma forward_ok:
  "gateway_ok url_parse rs g \<Longrightarrow> match (table g) p = Some e \<Longrightarrow>
     forward g e w = Some \<lparr>routed = prefix_of (entry_route e), action = Forward (upstream (entry_route e)) w\<rparr>"
  using find_longest [OF _ new_table_sorted, of "entry_matches (path_clean p)" rs e]
  by (auto simp: gateway_ok_def forward_def match_def)

lemma matched_route:
  assumes "gateway_ok url_parse rs g" and "match (table g) p = Some e"
  shows "route_ok url_parse (entry_route e)" and "entry_prefix e = trim_right_slash (prefix_of (entry_route e))"
    and "entry_route e \<in> set rs" and "prefix_of (entry_route e) \<noteq> []"
proof -
  have "e \<in> set (new_table rs)"
    using find_longest [OF _ new_table_sorted] assms by (auto simp: gateway_ok_def match_def)
  then show "route_ok url_parse (entry_route e)" "entry_prefix e = trim_right_slash (prefix_of (entry_route e))"
    "entry_route e \<in> set rs"
    using assms(1) by (auto simp: new_table_set gateway_ok_def routes_ok_def)
  then show "prefix_of (entry_route e) \<noteq> []" by (auto simp: route_ok_def has_prefix_def)
qed

section \<open>Answers\<close>

definition handled_writer :: "handled \<Rightarrow> writer" where
  "handled_writer h = (case action h of Respond w \<Rightarrow> w | Forward up w \<Rightarrow> w)"

definition forwarded :: "handled \<Rightarrow> bool" where
  "forwarded h = (case action h of Respond w \<Rightarrow> False | Forward up w \<Rightarrow> True)"

lemma header_names:
  "canonical_key ''Retry-After'' = ''Retry-After''" "canonical_key ''X-RateLimit-Limit'' = ''X-Ratelimit-Limit''"
  "canonical_key ''X-RateLimit-Remaining'' = ''X-Ratelimit-Remaining''"
  "canonical_key ''X-RateLimit-Reset'' = ''X-Ratelimit-Reset''"
  by code_simp+

lemma rate_limit_headers:
  "response_header ''X-RateLimit-Limit'' (write_rate_limit_headers d w) = Some (itoa (quota d))"
  "response_header ''X-RateLimit-Remaining'' (write_rate_limit_headers d w) = Some (itoa (remaining d))"
  "response_header ''X-RateLimit-Reset'' (write_rate_limit_headers d w) = Some (itoa (time_unix (reset d)))"
  "written (write_rate_limit_headers d w) = written w"
  by (simp_all add: write_rate_limit_headers_def header_names)

lemma too_many_requests:
  "written w = None \<Longrightarrow> response_status (write_too_many_requests oor d w) = 429"
  "response_header ''Retry-After'' (write_too_many_requests oor d w) = Some (itoa (ceil_seconds oor (retry_after d)))"
  "response_header ''X-RateLimit-Limit'' (write_too_many_requests oor d w) = response_header ''X-RateLimit-Limit'' w"
  "response_header ''X-RateLimit-Remaining'' (write_too_many_requests oor d w) = response_header ''X-RateLimit-Remaining'' w"
  "response_header ''X-RateLimit-Reset'' (write_too_many_requests oor d w) = response_header ''X-RateLimit-Reset'' w"
  by (simp_all add: write_too_many_requests_def http_error_simps header_names)

lemma limiter_unavailable:
  "written w = None \<Longrightarrow> response_status (write_limiter_unavailable oor w) = 503"
  "response_header ''Retry-After'' (write_limiter_unavailable oor w) = Some (itoa (ceil_seconds oor breaker_cooldown))"
  "response_header ''X-RateLimit-Limit'' (write_limiter_unavailable oor w) = response_header ''X-RateLimit-Limit'' w"
  by (simp_all add: write_limiter_unavailable_def http_error_simps header_names)

lemma ceil_seconds_cooldown: "ceil_seconds oor breaker_cooldown = 1"
proof -
  have "duration_seconds breaker_cooldown = 1"
    using duration_seconds_whole [of 1] by (simp add: breaker_cooldown_def second_def)
  moreover have "trunc 1 = 1" using trunc_of_int [of 1] by simp
  ultimately show ?thesis by (simp add: ceil_seconds_def f2i_def Let_def in_int64_def int64_min_def int64_max_def)
qed

text \<open>Up to \<open>2 ^ 23\<close> seconds the header is the wait rounded up to whole seconds, at least one.\<close>

lemma ceil_seconds_exact:
  assumes "0 \<le> d" and "d \<le> 8388608 * 1000000000"
  shows "ceil_seconds oor d = max 1 ((d + 999999999) div 1000000000)"
proof -
  define s where "s = d div 1000000000"
  have s: "0 \<le> s" "s \<le> 8388608" "d = s * 1000000000 + d mod 1000000000" using assms by (auto simp: s_def)
  have i: "in_int64 d" using assms by (auto simp: in_int64_def int64_min_def int64_max_def)
  define x where "x = duration_seconds d"
  have part: "x \<le> of_int (if d mod 1000000000 = 0 then s else s + 1)"
  proof -
    have "fl (of_int (d mod 1000000000) / 1000000000) \<le> of_int (if d mod 1000000000 = 0 then 0 else 1)"
      using fl_of_int [of 1] fl_of_int [of 0] less_imp_le [OF pos_mod_bound [of 1000000000 d]]
      by (intro fl_le_exact) (auto simp: divide_le_eq simp del: pos_mod_bound)
    then have "of_int (d div 1000000000) + fl (of_int (d mod 1000000000) / 1000000000)
      \<le> (of_int (if d mod 1000000000 = 0 then s else s + 1) :: rat)"
      by (simp add: s_def split: if_splits)
    then show ?thesis
      unfolding x_def duration_seconds_pos [OF assms(1) i]
      using fl_of_int [of "if d mod 1000000000 = 0 then s else s + 1"] s(1,2)
      by (intro fl_le_exact) simp_all
  qed
  have "0 \<le> x" unfolding x_def by (rule duration_seconds_nonneg [OF assms(1) i])
  have up: "\<lceil>x\<rceil> \<le> (if d mod 1000000000 = 0 then s else s + 1)"
    using part by (simp add: ceiling_le_iff)
  have "0 \<le> \<lceil>x\<rceil>" using \<open>0 \<le> x\<close> by linarith
  moreover have "\<lceil>x\<rceil> \<le> 8388609" using up s(2) by (split if_split_asm) linarith+
  ultimately have "f2i oor (of_int \<lceil>x\<rceil>) = \<lceil>x\<rceil>"
    by (simp add: f2i_def in_int64_def int64_min_def int64_max_def)
  then have e: "ceil_seconds oor d = max 1 \<lceil>x\<rceil>"
    by (simp add: ceil_seconds_def Let_def x_def)
  have low: "(if d mod 1000000000 = 0 then s else s + 1) \<le> \<lceil>x\<rceil>"
  proof (cases "d mod 1000000000 = 0")
    case True
    then have "d = s * 1000000000" using s(3) by simp
    moreover have "x = of_int s" unfolding x_def \<open>d = s * 1000000000\<close> using s by (intro duration_seconds_whole) auto
    ultimately show ?thesis using True by simp
  next
    case False
    have "d < 8388608 * 1000000000" using assms(2) False by (cases "d = 8388608 * 1000000000") auto
    then have "of_int s < x" using duration_seconds_fraction [OF assms(1) _ False] by (simp add: s_def x_def)
    then have "s < \<lceil>x\<rceil>" by (simp add: less_ceiling_iff)
    then show ?thesis using False by simp
  qed
  have "(d + 999999999) div 1000000000 = (if d mod 1000000000 = 0 then s else s + 1)"
  proof (cases "d mod 1000000000 = 0")
    case True
    then have "d = 1000000000 * s" using s(3) by simp
    then show ?thesis using True by simp
  next
    case False
    then have "0 < d mod 1000000000" using pos_mod_sign [of 1000000000 d] by linarith
    then have "d + 999999999 = (d mod 1000000000 - 1) + (s + 1) * 1000000000"
      "0 \<le> d mod 1000000000 - 1" "d mod 1000000000 - 1 < 1000000000"
      using s(3) pos_mod_bound [of 1000000000 d] by (auto simp: algebra_simps)
    then have "(d + 999999999) div 1000000000 = s + 1" by (simp add: div_pos_pos_trivial)
    then show ?thesis using False by simp
  qed
  then show ?thesis using e up low by simp
qed

section \<open>The gateway over any limiter\<close>

text \<open>What the handler asks the limiter for a request that matches \<open>e\<close>.\<close>

definition asked_key :: "(string \<Rightarrow> nat list) \<Rightarrow> entry \<Rightarrow> request \<Rightarrow> string" where
  "asked_key sha e r = bucket_key sha (entry_prefix e) (identity_for r)"

definition asked_limit :: "entry \<Rightarrow> request \<Rightarrow> limit" where
  "asked_limit e r = limit_for (entry_route e) (ident (identity_for r))"

lemma gateway_serve_matched:
  assumes "\<not> has_dot_segments (url_path r)" and "match (table g) (escaped_path r) = Some e"
  shows "gateway_serve allow sha oor g s m env r w =
    (case allow s env (asked_key sha e r) (asked_limit e r) of
       None \<Rightarrow> None
     | Some (s', a) \<Rightarrow> map_option (\<lambda>h. (s', count_request (prefix_of (entry_route e)) (decision_label a) m, h))
         (after_decision oor g e a w))"
  using assms by (simp add: gateway_serve_def Let_def asked_key_def asked_limit_def split: option.split)

lemma gateway_serve_unmatched:
  assumes "has_dot_segments (url_path r) \<or> match (table g) (escaped_path r) = None"
  shows "gateway_serve allow sha oor g s m env r w =
    Some (s, m, \<lparr>routed = [], action = Respond (http_error ''no route'' 404 w)\<rparr>)"
  using assms by (auto simp: gateway_serve_def)

lemma gateway_serve_cases:
  assumes "gateway_serve allow sha oor g s m env r w = Some (s', m', h)"
  obtains (unmatched) "has_dot_segments (url_path r) \<or> match (table g) (escaped_path r) = None" "s' = s" "m' = m"
      "h = \<lparr>routed = [], action = Respond (http_error ''no route'' 404 w)\<rparr>"
  | (matched) e a where "\<not> has_dot_segments (url_path r)" "match (table g) (escaped_path r) = Some e"
      "allow s env (asked_key sha e r) (asked_limit e r) = Some (s', a)"
      "m' = count_request (prefix_of (entry_route e)) (decision_label a) m"
      "after_decision oor g e a w = Some h"
proof (cases "has_dot_segments (url_path r) \<or> match (table g) (escaped_path r) = None")
  case True
  then show ?thesis using unmatched [OF True] assms gateway_serve_unmatched [OF True, of allow sha oor s m env w] by simp
next
  case False
  then obtain e where e: "match (table g) (escaped_path r) = Some e" by auto
  have dots: "\<not> has_dot_segments (url_path r)" using False by simp
  note serve = assms [unfolded gateway_serve_matched [OF dots e, of allow sha oor s m env w]]
  then obtain s1 a where a: "allow s env (asked_key sha e r) (asked_limit e r) = Some (s1, a)"
    by (auto split: option.splits)
  with serve obtain h1 where "after_decision oor g e a w = Some h1" by auto
  with serve a show ?thesis by (intro matched [OF dots e]) auto
qed

lemma after_decision_total:
  assumes "gateway_ok url_parse rs g" and "match (table g) p = Some e"
  shows "after_decision oor g e a w \<noteq> None"
  using forward_ok [OF assms] by (auto simp: after_decision_def split: sum.split)

lemma after_decision_routed: "after_decision oor g e a w = Some h \<Longrightarrow> routed h = prefix_of (entry_route e)"
  by (auto simp: after_decision_def forward_def split: sum.splits if_splits)

lemma after_decision_forwards:
  "after_decision oor g e a w = Some h \<Longrightarrow> forwarded h \<longleftrightarrow>
     (case a of Inl x \<Rightarrow> policy g \<noteq> on_error_fail_closed | Inr d \<Rightarrow> allowed d)"
  by (auto simp: after_decision_def forward_def forwarded_def split: sum.splits if_splits)

context limiter
begin

lemma serve_ok:
  assumes "inv s" and "gateway_ok url_parse rs g"
    and "\<And>e. match (table g) (escaped_path r) = Some e \<Longrightarrow> good env (asked_key sha e r) (asked_limit e r)"
  shows "\<exists>s' m' h. gateway_serve allow sha oor g s m env r w = Some (s', m', h) \<and> inv s'"
proof (cases "has_dot_segments (url_path r) \<or> match (table g) (escaped_path r) = None")
  case True
  show ?thesis unfolding gateway_serve_unmatched [OF True] using assms(1) by blast
next
  case False
  then obtain e where e: "match (table g) (escaped_path r) = Some e" by auto
  obtain s' a where a: "allow s env (asked_key sha e r) (asked_limit e r) = Some (s', a)"
    using allow_returns [OF assms(1) assms(3) [OF e]] by auto
  have "inv s'" by (rule allow_inv [OF assms(1) assms(3) [OF e] a])
  moreover obtain h where "after_decision oor g e a w = Some h"
    using after_decision_total [OF assms(2) e] by blast
  ultimately show ?thesis
    using gateway_serve_matched [OF _ e, of allow sha oor s m env w] False a by simp
qed

end

section \<open>A run of the gateway\<close>

text \<open>Requests one after the other, each with its environment and its response writer.\<close>

fun gateway_run :: "('s, 'e) allow \<Rightarrow> (string \<Rightarrow> nat list) \<Rightarrow> (float64 \<Rightarrow> int) \<Rightarrow> gateway \<Rightarrow>
    's \<Rightarrow> metrics \<Rightarrow> ('e \<times> request \<times> writer) list \<Rightarrow> ('s \<times> metrics \<times> handled list) option" where
  "gateway_run allow sha oor g s m [] = Some (s, m, [])"
| "gateway_run allow sha oor g s m ((env, r, w) # qs) =
     (case gateway_serve allow sha oor g s m env r w of
        None \<Rightarrow> None
      | Some (s', m', h) \<Rightarrow>
          map_option (\<lambda>(s'', m'', hs). (s'', m'', h # hs)) (gateway_run allow sha oor g s' m' qs))"

lemma gateway_run_Cons:
  "gateway_run allow sha oor g s m ((env, r, w) # qs) = Some (s'', m'', hs) \<longleftrightarrow>
     (\<exists>s' m' h hs'. gateway_serve allow sha oor g s m env r w = Some (s', m', h) \<and>
        gateway_run allow sha oor g s' m' qs = Some (s'', m'', hs') \<and> hs = h # hs')"
  by (auto split: option.splits)

definition routed_entry :: "gateway \<Rightarrow> request \<Rightarrow> entry option" where
  "routed_entry g r = (if has_dot_segments (url_path r) then None else match (table g) (escaped_path r))"

lemma routed_entry_Some:
  "routed_entry g r = Some e \<longleftrightarrow> \<not> has_dot_segments (url_path r) \<and> match (table g) (escaped_path r) = Some e"
  by (simp add: routed_entry_def)

lemma routed_entry_None:
  "routed_entry g r = None \<longleftrightarrow> has_dot_segments (url_path r) \<or> match (table g) (escaped_path r) = None"
  by (simp add: routed_entry_def)

text \<open>The limiter calls of a run, and their share of the outcomes.\<close>

fun limiter_calls :: "(string \<Rightarrow> nat list) \<Rightarrow> gateway \<Rightarrow> ('e \<times> request \<times> writer) list \<Rightarrow> ('e \<times> string \<times> limit) list" where
  "limiter_calls sha g [] = []"
| "limiter_calls sha g ((env, r, w) # qs) =
     (case routed_entry g r of
        None \<Rightarrow> limiter_calls sha g qs
      | Some e \<Rightarrow> (env, asked_key sha e r, asked_limit e r) # limiter_calls sha g qs)"

fun limited :: "gateway \<Rightarrow> ('e \<times> request \<times> writer) list \<Rightarrow> handled list \<Rightarrow> handled list" where
  "limited g ((env, r, w) # qs) (h # hs) = (if routed_entry g r = None then limited g qs hs else h # limited g qs hs)"
| "limited g qs hs = []"

lemma gateway_run_calls:
  assumes "gateway_run allow sha oor g s m qs = Some (s', m', hs)"
  shows "\<exists>as. allow_all allow s (limiter_calls sha g qs) = Some (s', as) \<and>
    counted_total m' = counted_total m + int (length as) \<and>
    list_all2 (\<lambda>h a. forwarded h \<longleftrightarrow> (case a of Inl x \<Rightarrow> policy g \<noteq> on_error_fail_closed | Inr d \<Rightarrow> allowed d))
      (limited g qs hs) as"
  using assms
proof (induction qs arbitrary: s m hs)
  case (Cons q qs)
  obtain env r w where q: "q = (env, r, w)" by (cases q) auto
  obtain s1 m1 h hs' where one: "gateway_serve allow sha oor g s m env r w = Some (s1, m1, h)"
    and rest: "gateway_run allow sha oor g s1 m1 qs = Some (s', m', hs')" and hs: "hs = h # hs'"
    using Cons.prems unfolding q gateway_run_Cons by blast
  note IH = Cons.IH [OF rest]
  from one show ?case
  proof (cases rule: gateway_serve_cases)
    case unmatched
    then have "routed_entry g r = None" by (simp add: routed_entry_None)
    then show ?thesis using IH unmatched by (simp add: q hs)
  next
    case (matched e a)
    then have "routed_entry g r = Some e" by (simp add: routed_entry_Some)
    then show ?thesis
      using IH matched after_decision_forwards [OF matched(5)] by (auto simp: q hs)
  qed
qed simp

context limiter
begin

lemma run_ok:
  assumes "inv s" and "gateway_ok url_parse rs g"
    and "\<And>env r w e. (env, r, w) \<in> set qs \<Longrightarrow> routed_entry g r = Some e \<Longrightarrow> good env (asked_key sha e r) (asked_limit e r)"
  shows "\<exists>s' m' hs. gateway_run allow sha oor g s m qs = Some (s', m', hs) \<and> inv s' \<and> length hs = length qs"
  using assms(1,3)
proof (induction qs arbitrary: s m)
  case (Cons q qs)
  obtain env r w where q: "q = (env, r, w)" by (cases q) auto
  have "\<exists>s1 m1 h. gateway_serve allow sha oor g s m env r w = Some (s1, m1, h) \<and> inv s1"
  proof (cases "routed_entry g r")
    case None
    then show ?thesis
      using gateway_serve_unmatched [of r g allow sha oor s m env w] Cons.prems(1) by (simp add: routed_entry_None)
  next
    case (Some e)
    have "good env (asked_key sha e' r) (asked_limit e' r)" if "match (table g) (escaped_path r) = Some e'" for e'
      using Cons.prems(2) [of env r w e] that Some by (simp add: q routed_entry_Some)
    from serve_ok [where m = m and w = w and oor = oor, OF Cons.prems(1) assms(2) this] show ?thesis by auto
  qed
  then obtain s1 m1 h where one: "gateway_serve allow sha oor g s m env r w = Some (s1, m1, h)" and i: "inv s1"
    by fastforce
  from Cons.IH [OF i] Cons.prems(2) show ?case
    by (simp add: q one) fastforce
qed simp

end

section \<open>The series of the request counter\<close>

lemma build_proxies_labels:
  "build_proxies url_parse es ps m = Inr (ps', m') \<Longrightarrow>
     labels m' = labels m \<union> ((\<lambda>e. prefix_of (entry_route e)) ` set es) \<times> set decisions"
  by (induction es arbitrary: ps m) (auto simp: Let_def labels_init split: option.splits)

lemma decision_label_known: "decision_label a \<in> set decisions"
  by (auto simp: decision_label_def decisions_def split: sum.split)

lemma gateway_serve_labels:
  assumes "table g = new_table rs" and "labels m = (prefix_of ` set rs) \<times> set decisions"
    and "gateway_serve allow sha oor g s m env r w = Some (s', m', h)"
  shows "labels m' = labels m"
  using assms(3)
proof (cases rule: gateway_serve_cases)
  case (matched e a)
  have "e \<in> set (new_table rs)"
    using matched(2) find_longest [OF _ new_table_sorted] by (auto simp: assms(1) match_def)
  then have "prefix_of (entry_route e) \<in> prefix_of ` set rs" by (auto simp: new_table_set)
  then show ?thesis using decision_label_known [of a] by (auto simp: matched(4) labels_count assms(2))
qed simp

lemma gateway_run_labels:
  assumes "table g = new_table rs" and "gateway_run allow sha oor g s m qs = Some (s', m', hs)"
    and "labels m = (prefix_of ` set rs) \<times> set decisions"
  shows "labels m' = (prefix_of ` set rs) \<times> set decisions"
  using assms(2,3)
proof (induction qs arbitrary: s m hs)
  case (Cons q qs)
  obtain env r w where q: "q = (env, r, w)" by (cases q) auto
  obtain s1 m1 h hs' where one: "gateway_serve allow sha oor g s m env r w = Some (s1, m1, h)"
    and rest: "gateway_run allow sha oor g s1 m1 qs = Some (s', m', hs')"
    using Cons.prems(1) unfolding q gateway_run_Cons by blast
  from Cons.IH [OF rest] gateway_serve_labels [OF assms(1) Cons.prems(2) one] Cons.prems(2) show ?case by simp
qed simp

section \<open>Decoded paths\<close>

definition hex_value :: "char \<Rightarrow> nat option" where
  "hex_value c =
     (let n = of_char c :: nat in
      if 48 \<le> n \<and> n \<le> 57 then Some (n - 48)
      else if 97 \<le> n \<and> n \<le> 102 then Some (n - 87)
      else if 65 \<le> n \<and> n \<le> 70 then Some (n - 55)
      else None)"

text \<open>\<open>url.PathUnescape\<close>; the decoded path of a request is that of its escaped path.\<close>

fun path_unescape :: "string \<Rightarrow> string option" where
  "path_unescape [] = Some []"
| "path_unescape (c # cs) =
     (if c = CHR ''%'' then
        (case cs of
           a # b # ds \<Rightarrow>
             (case (hex_value a, hex_value b) of
                (Some x, Some y) \<Rightarrow> map_option (Cons (char_of (16 * x + y))) (path_unescape ds)
              | _ \<Rightarrow> None)
         | _ \<Rightarrow> None)
      else map_option (Cons c) (path_unescape cs))"

lemma hex_not_slash: "hex_value (CHR ''/'') = None"
  by code_simp

lemma split_Cons_other: "c \<noteq> x \<Longrightarrow> split_on c (x # xs) = (x # hd (split_on c xs)) # tl (split_on c xs)"
  by (auto split: list.split)

lemma path_unescape_split:
  assumes "path_unescape xs = Some ys"
  shows "(\<forall>s \<in> set (split_on (CHR ''/'') xs). path_unescape s \<noteq> None) \<and>
    split_on (CHR ''/'') ys = concat (map (\<lambda>s. split_on (CHR ''/'') (the (path_unescape s))) (split_on (CHR ''/'') xs))"
  using assms
proof (induction xs arbitrary: ys rule: path_unescape.induct)
  case 1
  then show ?case by simp
next
  case (2 c cs)
  let ?sp = "split_on (CHR ''/'')"
  have extend: "(\<forall>s \<in> set ((p @ hd (?sp ds)) # tl (?sp ds)). path_unescape s \<noteq> None) \<and>
      ?sp (x # zs) = concat (map (\<lambda>s. ?sp (the (path_unescape s))) ((p @ hd (?sp ds)) # tl (?sp ds)))"
    if IH: "(\<forall>s \<in> set (?sp ds). path_unescape s \<noteq> None) \<and> ?sp zs = concat (map (\<lambda>s. ?sp (the (path_unescape s))) (?sp ds))"
      and p: "\<And>s. path_unescape (p @ s) = map_option (Cons x) (path_unescape s)" for p x zs ds
  proof -
    obtain s0 ss where d: "?sp ds = s0 # ss" by (cases "?sp ds") auto
    obtain t where t: "path_unescape s0 = Some t" using IH d by auto
    obtain t0 ts where st: "?sp t = t0 # ts" by (cases "?sp t") auto
    show ?thesis using IH by (cases "x = CHR ''/''") (auto simp: d t st p)
  qed
  show ?case
  proof (cases "c = CHR ''%''")
    case True
    then obtain a b ds x y where cs: "cs = a # b # ds" and h: "hex_value a = Some x" "hex_value b = Some y"
      using "2.prems" by (auto split: list.splits option.splits)
    obtain zs where z: "path_unescape ds = Some zs" and ys: "ys = char_of (16 * x + y) # zs"
      using "2.prems" True cs h by auto
    have ns: "a \<noteq> CHR ''/''" "b \<noteq> CHR ''/''" using h hex_not_slash by auto
    have sp: "?sp (c # cs) = ([c, a, b] @ hd (?sp ds)) # tl (?sp ds)"
      using True ns by (simp add: cs split_Cons_other del: split_on.simps)
    have "(\<forall>s \<in> set (?sp ds). path_unescape s \<noteq> None) \<and> ?sp zs = concat (map (\<lambda>s. ?sp (the (path_unescape s))) (?sp ds))"
      using "2.IH"(1) [OF True cs refl _ refl _ z] h by simp
    from extend [OF this, of "[c, a, b]" "char_of (16 * x + y)"] True h show ?thesis
      unfolding sp ys by simp
  next
    case False
    obtain zs where z: "path_unescape cs = Some zs" and ys: "ys = c # zs"
      using "2.prems" False by auto
    note IH = "2.IH"(2) [OF False z]
    show ?thesis
    proof (cases "c = CHR ''/''")
      case True
      then show ?thesis using IH by (simp add: ys)
    next
      case False
      have sp: "?sp (c # cs) = ([c] @ hd (?sp cs)) # tl (?sp cs)"
        using False by (simp add: split_Cons_other del: split_on.simps)
      from extend [OF IH, of "[c]" c] \<open>c \<noteq> CHR ''%''\<close> show ?thesis unfolding sp ys by simp
    qed
  qed
qed

lemma encoded_dot_survives:
  assumes "path_unescape e = Some p" and "s \<in> set (split_on (CHR ''/'') e)"
    and "path_unescape s \<in> {Some ''.'', Some ''..''}"
  shows "has_dot_segments p"
proof -
  obtain t where t: "path_unescape s = Some t" "t = ''.'' \<or> t = ''..''" using assms(3) by auto
  then have "split_on (CHR ''/'') t = [t]" by auto
  then have "t \<in> set (split_on (CHR ''/'') p)"
    using path_unescape_split [OF assms(1)] assms(2) t(1) by force
  then show ?thesis using t(2) by (auto simp: has_dot_segments_def list_ex_iff)
qed

lemma dot_survives:
  assumes "path_unescape e = Some p" and "s \<in> set (split_on (CHR ''/'') e)" and "s = ''.'' \<or> s = ''..''"
  shows "has_dot_segments p"
  by (rule encoded_dot_survives [OF assms(1,2)]) (use assms(3) in auto)

lemma clean_without_dots:
  assumes "\<forall>s \<in> set ss. s \<noteq> ''.'' \<and> s \<noteq> ''..''"
  shows "foldl (clean_step True) out ss = out @ filter (\<lambda>s. s \<noteq> []) ss"
  using assms by (induction ss arbitrary: out) (auto simp: clean_step_def)

text \<open>The segments of a path that are not empty, as an upstream reads them.\<close>

definition plain_segments :: "string \<Rightarrow> string list" where
  "plain_segments p = filter (\<lambda>s. s \<noteq> []) (split_on (CHR ''/'') p)"

lemma clean_segments_plain:
  assumes "path_unescape p = Some u" and "\<not> has_dot_segments u"
  shows "clean_segments p = plain_segments p"
  using clean_without_dots [of "split_on (CHR ''/'') p" "[]"] dot_survives [OF assms(1)] assms(2)
  by (auto simp: clean_segments_def plain_segments_def)

section \<open>Properties\<close>

text \<open>
  C6. What a routed request gets, by the limiter's answer: a decision always leaves its three
  \<open>X-RateLimit\<close> headers; an allowed request goes to the upstream of the matched route, a denied
  one is a 429 with a \<open>Retry-After\<close>; an error is a 503 with a \<open>Retry-After\<close> of the breaker's
  cooldown and no rate limit headers under fail_closed, and under every other policy the request
  goes to the upstream with the response untouched. In each case the request is counted once,
  under the label of its outcome.
\<close>

theorem gateway_outcome:
  assumes "gateway_ok url_parse rs g" and "written w = None" and "out_headers w = []"
    and "routed_entry g r = Some e"
    and "allow s env (asked_key sha e r) (asked_limit e r) = Some (s', a)"
  shows "\<exists>h. gateway_serve allow sha oor g s m env r w =
      Some (s', count_request (prefix_of (entry_route e)) (decision_label a) m, h) \<and>
    routed h = prefix_of (entry_route e) \<and>
    (case a of
       Inr d \<Rightarrow>
         response_header ''X-RateLimit-Limit'' (handled_writer h) = Some (itoa (quota d)) \<and>
         response_header ''X-RateLimit-Remaining'' (handled_writer h) = Some (itoa (remaining d)) \<and>
         response_header ''X-RateLimit-Reset'' (handled_writer h) = Some (itoa (time_unix (reset d))) \<and>
         (if allowed d then \<exists>w'. action h = Forward (upstream (entry_route e)) w'
          else \<exists>w'. action h = Respond w' \<and> response_status w' = 429 \<and>
            response_header ''Retry-After'' w' = Some (itoa (ceil_seconds oor (retry_after d))))
     | Inl x \<Rightarrow>
         if policy g = on_error_fail_closed
         then \<exists>w'. action h = Respond w' \<and> response_status w' = 503 \<and> response_header ''Retry-After'' w' = Some ''1'' \<and>
           response_header ''X-RateLimit-Limit'' w' = None
         else action h = Forward (upstream (entry_route e)) w)"
proof -
  have e: "\<not> has_dot_segments (url_path r)" "match (table g) (escaped_path r) = Some e"
    using assms(4) by (simp_all add: routed_entry_Some)
  note f = forward_ok [OF assms(1) e(2)]
  have one: "itoa (ceil_seconds oor breaker_cooldown) = ''1''" unfolding ceil_seconds_cooldown by code_simp
  have none: "response_header ''X-RateLimit-Limit'' w = None" using assms(3) by (simp add: response_header_def)
  show ?thesis
    unfolding gateway_serve_matched [OF e] assms(5)
    using assms(2)
    by (cases a) (auto simp: after_decision_def f handled_writer_def rate_limit_headers too_many_requests
        limiter_unavailable one none)
qed

text \<open>
  C17. The gateway never panics and answers every request: built from valid routes, on the memory
  backend or on redis, whatever the requests and however redis fails, every request of a run is
  answered or forwarded, no missing proxy is dereferenced and no bucket step divides by zero.
\<close>

theorem gateway_never_panics:
  assumes "routes_ok url_parse rs" and "new_limiter cfg x = Inr b"
    and "\<forall>g. gateway_ok url_parse rs g \<longrightarrow> (\<forall>(env, r, w) \<in> set qs. \<forall>e. routed_entry g r = Some e \<longrightarrow>
      redis_good plan env (asked_key sha e r) (asked_limit e r))"
  shows "\<exists>g m1 b' m2 hs. new_gateway url_parse rs up on_err m = Inr (g, m1) \<and>
      gateway_run (backend_allow mk oor) sha oor g b m1 qs = Some (b', m2, hs) \<and> length hs = length qs"
proof -
  obtain g m1 where g: "new_gateway url_parse rs up on_err m = Inr (g, m1)" "gateway_ok url_parse rs g"
    using new_gateway_ok [OF assms(1)] by blast
  have good: "redis_good plan env (asked_key sha e r) (asked_limit e r)"
    if "(env, r, w) \<in> set qs" "routed_entry g r = Some e" for env r w e
    using assms(3) g(2) that by blast
  have "\<exists>b' m2 hs. gateway_run (backend_allow mk oor) sha oor g b m1 qs = Some (b', m2, hs) \<and>
      backend_inv mk plan b' \<and> length hs = length qs"
    by (rule bl.run_ok [OF new_limiter_inv [OF assms(2)] g(2)]) (rule good)
  then show ?thesis using g(1) by blast
qed

text \<open>
  C28. No client can mint time series: from the first scrape on and after any requests, whatever the
  limiter answers, the request counter has exactly the series of the configured prefixes and the
  five decisions.
\<close>

theorem metrics_vocabulary_fixed:
  assumes "new_gateway url_parse rs up on_err new_metrics = Inr (g, m)"
    and "gateway_run allow sha oor g s m qs = Some (s', m', hs)"
  shows "fst ` set (requests_total m) = (prefix_of ` set rs) \<times> set decisions \<and>
    fst ` set (requests_total m') = (prefix_of ` set rs) \<times> set decisions"
proof -
  have g: "table g = new_table rs" using assms(1) by (auto simp: new_gateway_def split: sum.splits)
  have "labels m = (prefix_of ` set rs) \<times> set decisions"
    using assms(1) build_proxies_labels [of url_parse "new_table rs" "[]" new_metrics]
    by (auto simp: new_gateway_def new_table_set image_image split: sum.splits)
  then show ?thesis using gateway_run_labels [OF g assms(2)] by (simp add: labels_def)
qed

text \<open>
  C19. \<open>Retry-After\<close> on a 429 is the wait rounded up to whole seconds and at least one, through the
  double that \<open>Duration.Seconds\<close> returns: for every wait up to \<open>2 ^ 23\<close> seconds (97 days) the number
  a client reads back is exactly that, so it never retries too early.
\<close>

theorem retry_after_header_exact:
  assumes "0 \<le> retry_after d" and "retry_after d \<le> 8388608 * second"
  shows "\<exists>v. response_header ''Retry-After'' (write_too_many_requests oor d w) = Some v \<and>
    read_int v = max 1 ((retry_after d + 999999999) div second) \<and> retry_after d \<le> read_int v * second"
proof -
  have c: "ceil_seconds oor (retry_after d) = max 1 ((retry_after d + 999999999) div second)"
    using ceil_seconds_exact [of "retry_after d" oor] assms by (simp add: second_def)
  have "retry_after d \<le> (retry_after d + 999999999) div second * second"
    using div_mult_mod_eq [of "retry_after d + 999999999" second] pos_mod_bound [of second "retry_after d + 999999999"]
    by (simp add: second_def)
  also have "\<dots> \<le> max 1 ((retry_after d + 999999999) div second) * second"
    by (intro mult_right_mono) (simp_all add: second_def)
  finally show ?thesis by (simp add: too_many_requests read_int_itoa c)
qed

text \<open>
  Beyond that the double is too coarse: for a wait of \<open>2 ^ 24\<close> seconds and a nanosecond, which
  a year's fixed window produces, the header says \<open>2 ^ 24\<close> seconds, a nanosecond early, against the
  comment that a client that waits too long is fine and one that retries too early is not.
\<close>

theorem retry_after_header_early:
  assumes "retry_after d = 16777216 * second + 1"
  shows "\<exists>v. response_header ''Retry-After'' (write_too_many_requests oor d w) = Some v \<and>
    read_int v * second < retry_after d"
proof -
  have "duration_seconds (16777216 * second + 1) = 16777216" by code_simp
  then have "ceil_seconds oor (retry_after d) = 16777216"
    using trunc_of_int [of 16777216]
    by (simp add: ceil_seconds_def assms f2i_def Let_def in_int64_def int64_min_def int64_max_def)
  then show ?thesis by (simp add: too_many_requests read_int_itoa assms second_def)
qed

text \<open>
  C15. No path confusion between the table and an upstream: when a request is forwarded, the
  segments of the matched route's prefix are the first segments of the very path that is forwarded,
  and no segment of it, plain or percent-encoded, is a dot segment that an upstream could resolve
  out of the prefix. The hypothesis is what \<open>net/url\<close> guarantees of the two paths of a request.
\<close>

theorem forwarded_path_under_prefix:
  assumes "gateway_ok url_parse rs g" and "escaped_path r \<noteq> []" and "hd (escaped_path r) = CHR ''/''"
    and "path_unescape (escaped_path r) = Some (url_path r)"
    and "gateway_serve allow sha oor g s m env r w = Some (s', m', h)" and "forwarded h"
  shows "\<exists>e. match (table g) (escaped_path r) = Some e \<and> routed h = prefix_of (entry_route e) \<and>
    take (length (route_segments (entry_route e))) (plain_segments (escaped_path r)) = route_segments (entry_route e) \<and>
    (\<forall>p \<in> set (split_on (CHR ''/'') (escaped_path r)). path_unescape p \<notin> {Some ''.'', Some ''..''})"
  using assms(5)
proof (cases rule: gateway_serve_cases)
  case unmatched
  then show ?thesis using assms(6) by (simp add: forwarded_def)
next
  case (matched e a)
  note p = matched_route [OF assms(1) matched(2)]
  have e: "e = \<lparr>entry_prefix = trim_right_slash (prefix_of (entry_route e)), entry_route = entry_route e\<rparr>"
    using p(2) by simp
  have "entry_matches (path_clean (escaped_path r)) e"
    using find_longest [OF _ new_table_sorted] assms(1) matched(2) by (auto simp: gateway_ok_def match_def)
  then have "take (length (route_segments (entry_route e))) (clean_segments (escaped_path r)) = route_segments (entry_route e)"
    using entry_matches_segments [OF assms(2,3) _ e] p(1) by (auto simp: route_ok_def)
  then have t: "take (length (route_segments (entry_route e))) (plain_segments (escaped_path r)) = route_segments (entry_route e)"
    using clean_segments_plain [OF assms(4) matched(1)] by simp
  have "path_unescape q \<notin> {Some ''.'', Some ''..''}" if "q \<in> set (split_on (CHR ''/'') (escaped_path r))" for q
    using encoded_dot_survives [OF assms(4) that] matched(1) by blast
  then show ?thesis using matched(2) after_decision_routed [OF matched(5)] t by blast
qed

section \<open>Witnesses\<close>

definition demo_routes :: "route list" where
  "demo_routes = routes (apply_defaults example_config)"

definition demo_upstream :: upstream_cfg where
  "demo_upstream = upstream_of (apply_defaults example_config)"

definition demo_gateway :: "string \<Rightarrow> gateway" where
  "demo_gateway on_err = (case new_gateway example_url_parser demo_routes demo_upstream on_err new_metrics of Inr (g, m) \<Rightarrow> g | Inl e \<Rightarrow> undefined)"

lemma demo_routes_ok: "routes_ok example_url_parser demo_routes"
proof -
  have "config_ok example_url_parser (apply_defaults example_config)"
    using example_parses by (simp add: parse_Inr)
  then show ?thesis by (simp add: routes_ok_def config_ok_def demo_routes_def distinct_prefixes_def)
qed

lemma demo_gateway_ok [simp]:
  "gateway_ok example_url_parser demo_routes (demo_gateway on_err)" "policy (demo_gateway on_err) = on_err"
  using new_gateway_ok [OF demo_routes_ok, of demo_upstream on_err new_metrics] by (auto simp: demo_gateway_def)

definition demo_request :: "string \<Rightarrow> request" where
  "demo_request p = \<lparr>verb = ''GET'', url_path = p, escaped_path = p, headers = [], remote_addr = ''10.0.0.1:4711''\<rparr>"

definition empty_writer :: writer where
  "empty_writer = \<lparr>out_headers = [], written = None, body = [], accepted = 0, head_only = False, interim = []\<rparr>"

definition auth_entry :: entry where
  "auth_entry = \<lparr>entry_prefix = ''/auth'', entry_route = demo_routes ! 2\<rparr>"

lemma demo_routed: "routed_entry (demo_gateway on_err) (demo_request ''/auth/login'') = Some auth_entry"
proof -
  have "table (demo_gateway on_err) = new_table demo_routes"
    using demo_gateway_ok(1) [of on_err] by (simp add: gateway_ok_def)
  moreover have "match (new_table demo_routes) ''/auth/login'' = Some auth_entry"
    "\<not> has_dot_segments ''/auth/login''"
    by code_simp+
  ultimately show ?thesis by (simp add: routed_entry_Some demo_request_def)
qed

lemma auth_asked: "asked_limit auth_entry (demo_request ''/auth/login'') = auth_limit"
  "asked_key toy_digest auth_entry (demo_request ''/auth/login'') = ''/auth:ip:10.0.0.1''"
  by code_simp+

theorem gateway_outcome_witness:
  "\<exists>m' h. gateway_serve (memory_allow 0 no_range) toy_digest no_range (demo_gateway on_error_fail_closed) [] new_metrics
     (process_time 100) (demo_request ''/auth/login'') empty_writer = Some ([], m', h) \<and>
   response_status (handled_writer h) = 503"
proof -
  have "memory_allow 0 no_range [] (process_time 100) ''/auth:ip:10.0.0.1'' auth_limit = Some ([], Inl (AtCapacity 0))"
    by code_simp
  then have a: "memory_allow 0 no_range [] (process_time 100) (asked_key toy_digest auth_entry (demo_request ''/auth/login''))
      (asked_limit auth_entry (demo_request ''/auth/login'')) = Some ([], Inl (AtCapacity 0))"
    by (simp add: auth_asked)
  show ?thesis
    using gateway_outcome [where allow = "memory_allow 0 no_range" and w = empty_writer and oor = no_range
        and m = new_metrics, OF demo_gateway_ok(1) _ _ demo_routed a, of on_error_fail_closed]
    by (auto simp: empty_writer_def handled_writer_def)
qed

definition demo_arrivals :: "(redis_call \<times> request \<times> writer) list" where
  "demo_arrivals = [(refused_call 100, demo_request ''/auth/login'', empty_writer),
     (refused_call 200, demo_request ''/../x'', empty_writer)]"

lemma demo_arrivals_good:
  assumes "gateway_ok example_url_parser demo_routes g"
  shows "\<forall>(env, r, w) \<in> set demo_arrivals. \<forall>e. routed_entry g r = Some e \<longrightarrow>
    redis_good (\<lambda>k. auth_limit) env (asked_key toy_digest e r) (asked_limit e r)"
proof -
  have "table g = table (demo_gateway [])" using assms demo_gateway_ok(1) [of "[]"] by (simp add: gateway_ok_def)
  then have "routed_entry g (demo_request ''/auth/login'') = Some auth_entry"
    using demo_routed [of "[]"] by (simp add: routed_entry_Some)
  moreover have "routed_entry g (demo_request ''/../x'') = None"
  proof -
    have "has_dot_segments ''/../x''" by code_simp
    then show ?thesis by (simp add: routed_entry_None demo_request_def)
  qed
  moreover have "redis_good (\<lambda>k. auth_limit) (refused_call t) k auth_limit" for t k
    by (simp add: redis_good_def planned_def auth_serves refused_call_def)
  ultimately show ?thesis by (simp add: demo_arrivals_def auth_asked)
qed

theorem gateway_never_panics_witness:
  "\<exists>g m1 b m2 hs. new_gateway example_url_parser demo_routes demo_upstream on_error_degrade new_metrics = Inr (g, m1) \<and>
     gateway_run (backend_allow 2 no_range) toy_digest no_range g (RedisBackend (new_redis_limiter demo_cfg [])) m1
       demo_arrivals = Some (b, m2, hs) \<and> length hs = 2"
proof -
  have n: "new_limiter \<lparr>backend = backend_redis, redis = demo_cfg\<rparr> [] = Inr (RedisBackend (new_redis_limiter demo_cfg []))"
    by (simp add: new_limiter_def)
  have "length demo_arrivals = 2" by (simp add: demo_arrivals_def)
  with gateway_never_panics [where up = demo_upstream and mk = 2 and oor = no_range and on_err = on_error_degrade and m = new_metrics
      and plan = "\<lambda>k. auth_limit" and sha = toy_digest and qs = demo_arrivals, OF demo_routes_ok n]
  show ?thesis using demo_arrivals_good by auto
qed

theorem metrics_vocabulary_fixed_witness:
  "\<exists>g m s m' hs. new_gateway example_url_parser demo_routes demo_upstream on_error_fail_open new_metrics = Inr (g, m) \<and>
     gateway_run (backend_allow 2 no_range) toy_digest no_range g (RedisBackend (new_redis_limiter demo_cfg [])) m
       demo_arrivals = Some (s, m', hs) \<and>
     (''/auth/'', ''deny'') \<in> fst ` set (requests_total m')"
proof -
  obtain g m where g: "new_gateway example_url_parser demo_routes demo_upstream on_error_fail_open new_metrics = Inr (g, m)"
    and ok: "gateway_ok example_url_parser demo_routes g"
    using new_gateway_ok [OF demo_routes_ok] by blast
  have n: "new_limiter \<lparr>backend = backend_redis, redis = demo_cfg\<rparr> [] = Inr (RedisBackend (new_redis_limiter demo_cfg []))"
    by (simp add: new_limiter_def)
  have "\<exists>b' m2 hs. gateway_run (backend_allow 2 no_range) toy_digest no_range g (RedisBackend (new_redis_limiter demo_cfg [])) m
      demo_arrivals = Some (b', m2, hs) \<and> backend_inv 2 (\<lambda>k. auth_limit) b' \<and> length hs = length demo_arrivals"
    by (rule bl.run_ok [OF new_limiter_inv [OF n] ok]) (use demo_arrivals_good [OF ok] in blast)
  then obtain s m' hs where run: "gateway_run (backend_allow 2 no_range) toy_digest no_range g
      (RedisBackend (new_redis_limiter demo_cfg [])) m demo_arrivals = Some (s, m', hs)" by blast
  have "''/auth/'' \<in> prefix_of ` set demo_routes" "''deny'' \<in> set decisions" by code_simp+
  with metrics_vocabulary_fixed [OF g run] g run show ?thesis by blast
qed

theorem retry_after_header_exact_witness:
  "\<exists>v. response_header ''Retry-After'' (write_too_many_requests no_range (zero_decision\<lparr>retry_after := 1500000000\<rparr>) empty_writer)
     = Some v \<and> read_int v = 2"
  using retry_after_header_exact [of "zero_decision\<lparr>retry_after := 1500000000\<rparr>" no_range empty_writer]
  by (auto simp: second_def)

theorem retry_after_header_early_witness:
  "\<exists>v. response_header ''Retry-After'' (write_too_many_requests no_range
      (zero_decision\<lparr>retry_after := 16777216 * second + 1\<rparr>) empty_writer) = Some v \<and>
     read_int v * second < 16777216 * second + 1"
  using retry_after_header_early [of "zero_decision\<lparr>retry_after := 16777216 * second + 1\<rparr>"] by simp

theorem forwarded_path_under_prefix_witness:
  "take 1 (plain_segments ''/auth/login'') = [''auth'']"
proof -
  let ?g = "demo_gateway on_error_fail_open" and ?r = "demo_request ''/auth/login''"
  have a: "memory_allow 0 no_range [] (process_time 100) ''/auth:ip:10.0.0.1'' auth_limit = Some ([], Inl (AtCapacity 0))"
    by code_simp
  have m: "\<not> has_dot_segments (url_path ?r)" "match (table ?g) (escaped_path ?r) = Some auth_entry"
    using demo_routed [of on_error_fail_open] by (simp_all add: routed_entry_Some)
  obtain h where h: "after_decision no_range ?g auth_entry (Inl (AtCapacity 0)) empty_writer = Some h"
    using after_decision_total [OF demo_gateway_ok(1) m(2)] by fastforce
  have s: "gateway_serve (memory_allow 0 no_range) toy_digest no_range ?g [] new_metrics (process_time 100) ?r empty_writer
     = Some ([], count_request (prefix_of (entry_route auth_entry)) (decision_label (Inl (AtCapacity 0))) new_metrics, h)"
    unfolding gateway_serve_matched [OF m] auth_asked a by (simp add: h)
  have "route_segments (entry_route auth_entry) = [''auth'']" "path_unescape ''/auth/login'' = Some ''/auth/login''"
    by code_simp+
  moreover have "forwarded h" using after_decision_forwards [OF h] by (simp add: on_error_defs)
  ultimately show ?thesis
    using forwarded_path_under_prefix [OF demo_gateway_ok(1) _ _ _ s] m(2) by (simp add: demo_request_def)
qed

end
