(* ===== verification/Middleware.thy ===== *)
theory Middleware
  imports Gateway
begin

text \<open>
  The middleware around the gateway, \<open>internal/proxy/middleware.go\<close>, and the gateway's handler of
  upstream failures, which writes through the middleware's recorder. The random bytes of a fresh
  request ID and what an upstream does with a forwarded request come from outside.
\<close>

section \<open>Request IDs\<close>

definition header_request_id :: string where "header_request_id = ''X-Request-Id''"

definition id_char :: "char \<Rightarrow> bool" where
  "id_char c \<longleftrightarrow> alpha c \<or> digit c \<or> c = CHR ''.'' \<or> c = CHR ''_'' \<or> c = CHR ''-''"

text \<open>\<open>requestIDPattern.MatchString\<close>.\<close>

definition request_id_matches :: "string \<Rightarrow> bool" where
  "request_id_matches s \<longleftrightarrow> 1 \<le> length s \<and> length s \<le> 128 \<and> list_all id_char s"

definition new_request_id :: "nat list \<Rightarrow> string" where
  "new_request_id random = hex_encode random"

section \<open>The recorder\<close>

record recorder =
  under :: writer
  status :: int
  bytes :: nat

definition recorder_write_header :: "int \<Rightarrow> recorder \<Rightarrow> recorder" where
  "recorder_write_header code r = r\<lparr>status := code, under := write_header code (under r)\<rparr>"

definition recorder_write :: "string \<Rightarrow> recorder \<Rightarrow> recorder" where
  "recorder_write s r =
     (let w = write_body s (under r) in r\<lparr>under := w, bytes := bytes r + (accepted w - accepted (under r))\<rparr>)"

text \<open>The header map is the wrapped writer's.\<close>

definition recorder_headers :: "(writer \<Rightarrow> writer) \<Rightarrow> recorder \<Rightarrow> recorder" where
  "recorder_headers f r = r\<lparr>under := f (under r)\<rparr>"

text \<open>\<open>http.Error\<close> on a recorder.\<close>

definition recorder_error :: "string \<Rightarrow> int \<Rightarrow> recorder \<Rightarrow> recorder" where
  "recorder_error msg code r =
     recorder_write (msg @ newline)
       (recorder_write_header code
         (recorder_headers
           (\<lambda>w. set_header ''X-Content-Type-Options'' ''nosniff''
             (set_header ''Content-Type'' ''text/plain; charset=utf-8'' (del_header ''Content-Length'' w))) r))"

text \<open>
  The handlers of \<open>gateway.go\<close> are modelled on the plain writer; on a recorder that wraps it their
  answer leaves the recorder like this.
\<close>

definition responded :: "writer \<Rightarrow> recorder \<Rightarrow> recorder" where
  "responded w r = \<lparr>under = w, status = response_status w, bytes = bytes r + (accepted w - accepted (under r))\<rparr>"

lemma recorder_error_responded:
  assumes "written (under r) = None" and "\<not> interim_status code"
  shows "recorder_error msg code r = responded (http_error msg code (under r)) r"
  using assms
  by (simp add: recorder_error_def responded_def recorder_headers_def recorder_write_def recorder_write_header_def
      http_error_def response_status_def del: interim_status_def body_allowed_def)

section \<open>Upstreams\<close>

text \<open>
  What becomes of a forwarded request: a reply with its status, headers and body, where status 101
  with the protocol that was asked for switches to a tunnel; a failure before any of the reply arrived,
  by the client's own cancellation or otherwise, a switch that was not asked for included; a reply cut
  off in its body by the upstream or else because the client is gone, on which \<open>ReverseProxy\<close> panics
  with \<open>ErrAbortHandler\<close>; and an interim reply before any of these.
\<close>

datatype upstream_result =
    Replied int header string
  | Failed bool
  | Aborted bool int header string
  | Interim int header upstream_result

text \<open>The statuses that a transport hands over: an interim one is never the last, except 101.\<close>

fun transport_ok :: "upstream_result \<Rightarrow> bool" where
  "transport_ok (Replied code hs b) \<longleftrightarrow> code = 101 \<or> 200 \<le> code"
| "transport_ok (Failed canceled) \<longleftrightarrow> True"
| "transport_ok (Aborted broken code hs b) \<longleftrightarrow> 200 \<le> code"
| "transport_ok (Interim code hs u) \<longleftrightarrow> interim_status code \<and> transport_ok u"

definition direct :: "upstream_result \<Rightarrow> bool" where
  "direct u = (case u of Interim code hs u' \<Rightarrow> False | _ \<Rightarrow> True)"

definition status_client_closed_request :: int where "status_client_closed_request = 499"

definition error_handler :: "bool \<Rightarrow> recorder \<Rightarrow> recorder" where
  "error_handler canceled r =
     (if canceled then r\<lparr>status := status_client_closed_request\<rparr>
      else recorder_error ''bad gateway'' 502 r)"

text \<open>\<open>ReverseProxy\<close> adds the reply's headers to those already set.\<close>

definition add_headers :: "header \<Rightarrow> header \<Rightarrow> header" where
  "add_headers hs out =
     foldl (\<lambda>o' (k, vs). AList.update k ((case map_of o' k of None \<Rightarrow> [] | Some us \<Rightarrow> us) @ vs) o') out hs"

definition copy_reply :: "int \<Rightarrow> header \<Rightarrow> string \<Rightarrow> recorder \<Rightarrow> recorder" where
  "copy_reply code hs b r =
     recorder_write b (recorder_write_header code
       (recorder_headers (\<lambda>w. w\<lparr>out_headers := add_headers hs (out_headers w)\<rparr>) r))"

text \<open>The tunnel is opened on the connection itself, past the recorder.\<close>

definition switch_protocols :: "header \<Rightarrow> recorder \<Rightarrow> recorder" where
  "switch_protocols hs r =
     r\<lparr>under := write_header 101 ((under r)\<lparr>out_headers := add_headers hs (out_headers (under r))\<rparr>)\<rparr>"

text \<open>An interim reply is passed on at once, and then the whole header map is cleared.\<close>

definition pass_interim :: "int \<Rightarrow> header \<Rightarrow> recorder \<Rightarrow> recorder" where
  "pass_interim code hs r =
     recorder_headers (\<lambda>w. w\<lparr>out_headers := []\<rparr>)
       (recorder_write_header code
         (recorder_headers (\<lambda>w. w\<lparr>out_headers := add_headers hs (out_headers w)\<rparr>) r))"

fun reverse_proxy :: "upstream_result \<Rightarrow> recorder \<Rightarrow> recorder \<times> bool" where
  "reverse_proxy (Replied code hs b) r =
     (if code = 101 then switch_protocols hs r else copy_reply code hs b r, False)"
| "reverse_proxy (Failed canceled) r = (error_handler canceled r, False)"
| "reverse_proxy (Aborted broken code hs b) r = (copy_reply code hs b r, True)"
| "reverse_proxy (Interim code hs u) r = reverse_proxy u (pass_interim code hs r)"

section \<open>The middleware\<close>

text \<open>
  A handler below the middleware: from the state and the metrics to the new ones, the route prefix
  it left in the holder, the recorder and whether it panicked with \<open>ErrAbortHandler\<close>.
\<close>

type_synonym 's handler = "'s \<Rightarrow> metrics \<Rightarrow> request \<Rightarrow> recorder \<Rightarrow> ('s \<times> metrics \<times> string \<times> recorder \<times> bool) option"

record log_line =
  log_method :: string
  log_path :: string
  log_status :: int
  log_route :: string
  log_identity :: string
  log_request_id :: string
  log_bytes :: nat

text \<open>The request's ID, and the request as the handlers below see it.\<close>

definition request_id :: "nat list \<Rightarrow> request \<Rightarrow> string" where
  "request_id random r =
     (let given = header_get (headers r) header_request_id
      in if request_id_matches given then given else new_request_id random)"

definition tagged :: "nat list \<Rightarrow> request \<Rightarrow> request" where
  "tagged random r = r\<lparr>headers := header_set header_request_id (request_id random r) (headers r)\<rparr>"

definition middleware :: "(string \<Rightarrow> nat list) \<Rightarrow> 's handler \<Rightarrow> nat list \<Rightarrow> 's \<Rightarrow> metrics \<Rightarrow> request \<Rightarrow> writer \<Rightarrow>
    ('s \<times> metrics \<times> recorder \<times> log_line \<times> bool) option" where
  "middleware sha next random s m r w =
     (let r' = tagged random r; w' = set_header header_request_id (request_id random r) w
      in map_option
          (\<lambda>(s', m', prefix, rec, panics).
             (s', (if prefix \<noteq> [] then observe m' else m'), rec,
              \<lparr>log_method = verb r', log_path = url_path r', log_status = status rec, log_route = prefix,
                log_identity = identity_string sha (identity_for r'), log_request_id = request_id random r, log_bytes = bytes rec\<rparr>,
              panics))
          (next s m r' \<lparr>under = w', status = 200, bytes = 0\<rparr>))"

text \<open>The gateway as the handler below: what a request finds outside is its limiter environment and
  the behaviour of the upstreams.\<close>

definition gateway_handler :: "('s, 'e) allow \<Rightarrow> (string \<Rightarrow> nat list) \<Rightarrow> (float64 \<Rightarrow> int) \<Rightarrow> gateway \<Rightarrow>
    'e \<Rightarrow> (string \<Rightarrow> request \<Rightarrow> upstream_result) \<Rightarrow> 's handler" where
  "gateway_handler allow sha oor g env up s m r rec =
     map_option
       (\<lambda>(s', m', h).
          case action h of
            Respond w \<Rightarrow> (s', m', routed h, responded w rec, False)
          | Forward u w \<Rightarrow>
              (case reverse_proxy (up u r) (rec\<lparr>under := w\<rparr>) of (rec', panics) \<Rightarrow> (s', m', routed h, rec', panics)))
       (gateway_serve allow sha oor g s m env r (under rec))"

definition proxied :: "('s, 'e) allow \<Rightarrow> (string \<Rightarrow> nat list) \<Rightarrow> (float64 \<Rightarrow> int) \<Rightarrow> gateway \<Rightarrow>
    'e \<Rightarrow> (string \<Rightarrow> request \<Rightarrow> upstream_result) \<Rightarrow> nat list \<Rightarrow> 's \<Rightarrow> metrics \<Rightarrow> request \<Rightarrow> writer \<Rightarrow>
    ('s \<times> metrics \<times> recorder \<times> log_line \<times> bool) option" where
  "proxied allow sha oor g env up random s m r w =
     middleware sha (gateway_handler allow sha oor g env up) random s m r w"

section \<open>What the response keeps\<close>

lemma id_header_names:
  "canonical_key ''X-Request-Id'' = ''X-Request-Id''" "canonical_key ''X-RateLimit-Limit'' \<noteq> ''X-Request-Id''"
  by code_simp+

lemma request_id_kept:
  "response_header ''X-Request-Id'' (http_error msg code w) = response_header ''X-Request-Id'' w"
  "response_header ''X-Request-Id'' (write_rate_limit_headers d w) = response_header ''X-Request-Id'' w"
  "response_header ''X-Request-Id'' (set_header ''Retry-After'' v w) = response_header ''X-Request-Id'' w"
  by (simp_all add: http_error_simps write_rate_limit_headers_def id_header_names header_names)

lemma rate_limit_headers_kept [simp]:
  "written (write_rate_limit_headers d w) = written w" "accepted (write_rate_limit_headers d w) = accepted w"
  "head_only (write_rate_limit_headers d w) = head_only w" "interim (write_rate_limit_headers d w) = interim w"
  "writer_ok (write_rate_limit_headers d w) = writer_ok w"
  by (simp_all add: write_rate_limit_headers_def)

lemma http_error_kept [simp]:
  "head_only (http_error msg code w) = head_only w"
  "writer_ok w \<Longrightarrow> writer_ok (http_error msg code w)"
  "written w = None \<Longrightarrow> \<not> interim_status code \<Longrightarrow> written (http_error msg code w) = Some code"
  "written w = None \<Longrightarrow> \<not> interim_status code \<Longrightarrow> interim (http_error msg code w) = interim w"
  "accepted w \<le> accepted (http_error msg code w)"
proof -
  let ?w = "write_header code (set_header ''X-Content-Type-Options'' ''nosniff''
    (set_header ''Content-Type'' ''text/plain; charset=utf-8'' (del_header ''Content-Length'' w)))"
  have "accepted ?w = accepted w" by simp
  then show "accepted w \<le> accepted (http_error msg code w)"
    using accepted_mono [of ?w "msg @ newline"] unfolding http_error_def by (simp only:)
qed (simp_all add: http_error_def del: interim_status_def body_allowed_def)

text \<open>What a handler of the gateway leaves in the writer it was given.\<close>

definition answers_from :: "writer \<Rightarrow> handled \<Rightarrow> bool" where
  "answers_from w h \<longleftrightarrow>
     response_header ''X-Request-Id'' (handled_writer h) = response_header ''X-Request-Id'' w \<and>
     head_only (handled_writer h) = head_only w \<and> interim (handled_writer h) = interim w \<and>
     (writer_ok w \<longrightarrow> writer_ok (handled_writer h)) \<and> accepted w \<le> accepted (handled_writer h) \<and>
     (case action h of
        Respond w' \<Rightarrow> written w' \<noteq> None \<and> written w' \<noteq> Some 101
      | Forward u w' \<Rightarrow> written w' = None \<and> accepted w' = accepted w)"

lemma answers_error:
  assumes "written w' = None" and "accepted w' = accepted w" and "head_only w' = head_only w" and "interim w' = interim w"
    and "writer_ok w' = writer_ok w" and "response_header ''X-Request-Id'' w' = response_header ''X-Request-Id'' w"
    and "code = 404 \<or> code = 429 \<or> code = 503"
  shows "answers_from w \<lparr>routed = p, action = Respond (http_error msg code w')\<rparr>"
proof -
  have "\<not> interim_status code" "code \<noteq> 101" using assms(7) by auto
  then show ?thesis
    using assms(1-6) http_error_kept(5) [of w' msg code]
    by (simp add: answers_from_def handled_writer_def request_id_kept del: interim_status_def)
qed

lemma gateway_serve_answers:
  assumes "gateway_serve allow sha oor g s m env r w = Some (s', m', h)" and "written w = None"
  shows "answers_from w h"
  using assms(1)
proof (cases rule: gateway_serve_cases)
  case unmatched
  then show ?thesis using answers_error [of w w 404] assms(2) by simp
next
  case (matched e a)
  have forward: "answers_from w \<lparr>routed = p, action = Forward u w\<rparr>"
    "answers_from w \<lparr>routed = p, action = Forward u (write_rate_limit_headers d w)\<rparr>" for p u d
    using assms(2) by (simp_all add: answers_from_def handled_writer_def request_id_kept)
  have refused: "answers_from w \<lparr>routed = p, action = Respond (write_limiter_unavailable oor w)\<rparr>"
    "answers_from w \<lparr>routed = p, action = Respond (write_too_many_requests oor d (write_rate_limit_headers d w))\<rparr>" for p d
    unfolding write_limiter_unavailable_def write_too_many_requests_def using assms(2)
    by (auto intro!: answers_error simp: request_id_kept id_header_names header_names)
  show ?thesis
  proof (cases a)
    case (Inl err)
    then show ?thesis using matched(5) by (auto simp: after_decision_def forward_def forward refused(1) split: if_splits)
  next
    case (Inr d)
    then show ?thesis using matched(5) by (auto simp: after_decision_def forward_def forward refused(2) split: if_splits)
  qed
qed

lemma add_headers_keep:
  "map_of out k = Some (v # vs) \<Longrightarrow> \<exists>ws. map_of (add_headers hs out) k = Some (v # ws)"
proof (induction hs arbitrary: out vs)
  case (Cons h hs)
  obtain k' us where h: "h = (k', us)" by (cases h) auto
  let ?out = "AList.update k' ((case map_of out k' of None \<Rightarrow> [] | Some xs \<Rightarrow> xs) @ us) out"
  have "\<exists>ws. map_of ?out k = Some (v # ws)" using Cons.prems by (auto simp: map_of_update)
  then obtain ws where "map_of ?out k = Some (v # ws)" by blast
  from Cons.IH [OF this] show ?case by (simp add: h add_headers_def)
qed (simp add: add_headers_def)

lemma copied_header:
  "response_header k w = Some v \<Longrightarrow> response_header k (w\<lparr>out_headers := add_headers hs (out_headers w)\<rparr>) = Some v"
  using add_headers_keep [of "out_headers w" "canonical_key k" v _ hs]
  by (auto simp: response_header_def split: option.splits list.splits)

lemma response_header_written [simp]: "response_header k (w\<lparr>written := x\<rparr>) = response_header k w"
  by (simp add: response_header_def)

lemma copy_reply_simps:
  "response_header k (under r) = Some v \<Longrightarrow> response_header k (under (copy_reply code hs b r)) = Some v"
  "written (under r) = None \<Longrightarrow> \<not> interim_status code \<Longrightarrow> written (under (copy_reply code hs b r)) = Some code"
  "written (under r) = None \<Longrightarrow> \<not> interim_status code \<Longrightarrow> interim (under (copy_reply code hs b r)) = interim (under r)"
  "status (copy_reply code hs b r) = code"
  "head_only (under (copy_reply code hs b r)) = head_only (under r)"
  "writer_ok (under r) \<Longrightarrow> writer_ok (under (copy_reply code hs b r))"
  "bytes r = accepted (under r) \<Longrightarrow> bytes (copy_reply code hs b r) = accepted (under (copy_reply code hs b r))"
proof -
  let ?w = "write_header code ((under r)\<lparr>out_headers := add_headers hs (out_headers (under r))\<rparr>)"
  have a: "accepted ?w = accepted (under r)" by simp
  show "bytes r = accepted (under r) \<Longrightarrow> bytes (copy_reply code hs b r) = accepted (under (copy_reply code hs b r))"
    using accepted_mono [of ?w b] unfolding a
    by (simp add: copy_reply_def recorder_write_def recorder_write_header_def recorder_headers_def Let_def)
  have ok: "writer_ok (w\<lparr>out_headers := x\<rparr>) = writer_ok w" for w x by (simp add: writer_ok_def)
  show "writer_ok (under r) \<Longrightarrow> writer_ok (under (copy_reply code hs b r))"
    by (simp add: copy_reply_def recorder_write_def recorder_write_header_def recorder_headers_def Let_def ok)
qed (simp_all add: copy_reply_def recorder_write_def recorder_write_header_def recorder_headers_def copied_header Let_def
    del: interim_status_def body_allowed_def)

lemma copy_reply_headers: "out_headers (under (copy_reply code hs b r)) = add_headers hs (out_headers (under r))"
  by (simp add: copy_reply_def recorder_write_def recorder_write_header_def recorder_headers_def Let_def write_body_def write_header_def)

text \<open>
  The status a client has last seen while there is no final one, 200 before any. It is also what the
  recorder is left with when the connection is taken over.
\<close>

definition seen_so_far :: "writer \<Rightarrow> int" where
  "seen_so_far w = (if interim w = [] then 200 else fst (last (interim w)))"

definition fresh :: "recorder \<Rightarrow> bool" where
  "fresh r \<longleftrightarrow> written (under r) = None \<and> status r = seen_so_far (under r) \<and> bytes r = accepted (under r) \<and> writer_ok (under r)"

text \<open>What the recorder knows of the response: the status and the size, and 499 when the client is
  gone and no final status was written.\<close>

definition recorder_true :: "recorder \<Rightarrow> bool" where
  "recorder_true r \<longleftrightarrow> bytes r = accepted (under r) \<and> writer_ok (under r) \<and>
     status r = (case written (under r) of
        None \<Rightarrow> status_client_closed_request
      | Some c \<Rightarrow> if c = 101 then seen_so_far (under r) else c)"

lemma pass_interim_fresh:
  "fresh r \<Longrightarrow> interim_status code \<Longrightarrow> fresh (pass_interim code hs r)"
  "head_only (under (pass_interim code hs r)) = head_only (under r)"
  by (auto simp: fresh_def pass_interim_def recorder_headers_def recorder_write_header_def seen_so_far_def write_header_def
      writer_ok_def)

lemma recorder_error_true:
  assumes "fresh r" and "\<not> interim_status code" and "code \<noteq> 101"
  shows "recorder_true (recorder_error msg code r)" and "head_only (under (recorder_error msg code r)) = head_only (under r)"
  using assms http_error_kept(5) [of "under r" msg code]
  by (simp_all add: fresh_def recorder_error_responded responded_def recorder_true_def response_status_def
      del: interim_status_def)

lemma switch_true:
  assumes "fresh r"
  shows "recorder_true (switch_protocols hs r)" and "head_only (under (switch_protocols hs r)) = head_only (under r)"
  using assms by (auto simp: fresh_def switch_protocols_def recorder_true_def write_header_def seen_so_far_def writer_ok_def)

lemma reverse_proxy_true:
  assumes "fresh r" and "transport_ok u"
  shows "recorder_true (fst (reverse_proxy u r)) \<and> head_only (under (fst (reverse_proxy u r))) = head_only (under r)"
  using assms
proof (induction u r rule: reverse_proxy.induct)
  case (1 code hs b r)
  then show ?case using switch_true [of r hs]
    by (auto simp: fresh_def recorder_true_def copy_reply_simps)
next
  case (2 canceled r)
  then show ?case using recorder_error_true [of r 502]
    by (auto simp: error_handler_def fresh_def recorder_true_def)
next
  case (3 broken code hs b r)
  then show ?case by (auto simp: fresh_def recorder_true_def copy_reply_simps)
next
  case (4 code hs u r)
  then show ?case using pass_interim_fresh(1) [of r code hs] pass_interim_fresh(2) [of code hs r] by simp
qed

lemma reverse_proxy_id:
  assumes "reverse_proxy u r = (r', panics)" and "written (under r) = None" and "direct u"
    and "response_header ''X-Request-Id'' (under r) = Some v"
  shows "response_header ''X-Request-Id'' (under r') = Some v"
  using assms
  by (cases u) (auto simp: direct_def error_handler_def copy_reply_simps recorder_error_responded responded_def
      request_id_kept switch_protocols_def copied_header split: if_splits)

lemma hex_digit_id: "n < 16 \<Longrightarrow> id_char (hex_digit n)"
proof -
  have "\<forall>n \<in> {..<16}. id_char (hex_digit n)" by code_simp
  then show "n < 16 \<Longrightarrow> ?thesis" by blast
qed

lemma fresh_id_matches: "length random = 16 \<Longrightarrow> request_id_matches (new_request_id random)"
proof -
  have "length (hex_encode bs) = 2 * length bs" "list_all id_char (hex_encode bs)" for bs
    by (induction bs) (auto simp: hex_encode_def hex_digit_id)
  then show "length random = 16 \<Longrightarrow> ?thesis" by (simp add: request_id_matches_def new_request_id_def)
qed

text \<open>The gateway behind the middleware, as a rule.\<close>

lemma tagged_simps [simp]: "verb (tagged random r) = verb r" "url_path (tagged random r) = url_path r"
  "escaped_path (tagged random r) = escaped_path r"
  "routed_entry g (tagged random r) = routed_entry g r"
  by (simp_all add: tagged_def routed_entry_def)

definition handed :: "(string \<Rightarrow> upstream_result) \<Rightarrow> handled \<Rightarrow> writer \<Rightarrow> recorder \<times> bool" where
  "handed up h w =
     (case action h of
        Respond w' \<Rightarrow> (responded w' \<lparr>under = w, status = 200, bytes = 0\<rparr>, False)
      | Forward u w' \<Rightarrow> reverse_proxy (up u) \<lparr>under = w', status = 200, bytes = 0\<rparr>)"

lemma proxied_handed:
  "proxied allow sha oor g env up random s m r w =
     map_option (\<lambda>(s', m', h). case handed (\<lambda>u. up u (tagged random r)) h (set_header header_request_id (request_id random r) w) of
        (rec, panics) \<Rightarrow>
          (s', (if routed h \<noteq> [] then observe m' else m'), rec,
           \<lparr>log_method = verb r, log_path = url_path r, log_status = status rec, log_route = routed h,
             log_identity = identity_string sha (identity_for (tagged random r)),
             log_request_id = request_id random r, log_bytes = bytes rec\<rparr>, panics))
       (gateway_serve allow sha oor g s m env (tagged random r) (set_header header_request_id (request_id random r) w))"
  by (auto simp: proxied_def middleware_def gateway_handler_def Let_def handed_def option.map_comp
      intro!: option.map_cong split: action.split prod.split)

lemma proxied_cases:
  assumes "proxied allow sha oor g env up random s m r w = Some (s', m', rec, line, panics)"
  obtains m1 h where
    "gateway_serve allow sha oor g s m env (tagged random r) (set_header header_request_id (request_id random r) w) = Some (s', m1, h)"
    and "m' = (if routed h \<noteq> [] then observe m1 else m1)"
    and "line = \<lparr>log_method = verb r, log_path = url_path r, log_status = status rec, log_route = routed h,
      log_identity = identity_string sha (identity_for (tagged random r)),
      log_request_id = request_id random r, log_bytes = bytes rec\<rparr>"
    and "handed (\<lambda>u. up u (tagged random r)) h (set_header header_request_id (request_id random r) w) = (rec, panics)"
proof -
  let ?w = "set_header header_request_id (request_id random r) w"
  from assms obtain m1 h where one: "gateway_serve allow sha oor g s m env (tagged random r) ?w = Some (s', m1, h)"
    and out: "(case handed (\<lambda>u. up u (tagged random r)) h ?w of (rec, panics) \<Rightarrow>
          (s', (if routed h \<noteq> [] then observe m1 else m1), rec,
           \<lparr>log_method = verb r, log_path = url_path r, log_status = status rec, log_route = routed h,
             log_identity = identity_string sha (identity_for (tagged random r)),
             log_request_id = request_id random r, log_bytes = bytes rec\<rparr>, panics)) = (s', m', rec, line, panics)"
    unfolding proxied_handed by (fastforce split: prod.splits)
  obtain rec' panics' where "handed (\<lambda>u. up u (tagged random r)) h ?w = (rec', panics')" by fastforce
  with out show ?thesis by (intro that [OF one]) auto
qed

lemma handed_keeps_id:
  assumes "handed up h w = (rec, panics)" and "answers_from w h" and "response_header ''X-Request-Id'' w = Some v"
    and "\<And>u. direct (up u)"
  shows "response_header ''X-Request-Id'' (under rec) = Some v"
proof (cases "action h")
  case (Respond w')
  then show ?thesis using assms by (auto simp: handed_def answers_from_def handled_writer_def responded_def)
next
  case (Forward u w')
  then have "response_header ''X-Request-Id'' w' = Some v" "written w' = None"
    using assms by (auto simp: answers_from_def handled_writer_def)
  then show ?thesis
    using reverse_proxy_id [of "up u" "\<lparr>under = w', status = 200, bytes = 0\<rparr>" rec panics] assms(1,4) Forward
    by (simp add: handed_def)
qed

lemma handed_true:
  assumes "handed up h w = (rec, panics)" and "answers_from w h" and "writer_ok w" and "accepted w = 0" and "interim w = []"
    and "\<And>u. transport_ok (up u)"
  shows "recorder_true rec \<and> head_only (under rec) = head_only w"
proof (cases "action h")
  case (Respond w')
  then show ?thesis using assms(1-4)
    by (auto simp: handed_def answers_from_def handled_writer_def responded_def recorder_true_def response_status_def split: option.split)
next
  case (Forward u w')
  let ?rec = "\<lparr>under = w', status = 200, bytes = 0\<rparr>"
  have "fresh ?rec" "head_only w' = head_only w"
    using assms(2-5) Forward by (auto simp: answers_from_def handled_writer_def fresh_def seen_so_far_def)
  moreover have "reverse_proxy (up u) ?rec = (rec, panics)" using assms(1) Forward by (simp add: handed_def)
  ultimately show ?thesis using reverse_proxy_true [of ?rec "up u"] assms(6) by simp
qed

text \<open>The rate limit headers of a decision, when it leads to a forward.\<close>

lemma forwarded_headers:
  assumes "gateway_serve allow sha oor g s m env r w = Some (s', m', h)" and "action h = Forward u w'"
    and "routed_entry g r = Some e" and "allow s env (asked_key sha e r) (asked_limit e r) = Some (s1, Inr d)"
  shows "w' = write_rate_limit_headers d w"
  using assms(1)
proof (cases rule: gateway_serve_cases)
  case unmatched
  then show ?thesis using assms(2) by simp
next
  case (matched e' a)
  then have "e' = e" "a = Inr d" using assms(3,4) by (simp_all add: routed_entry_Some)
  then show ?thesis using matched(5) assms(2) by (auto simp: after_decision_def forward_def split: if_splits)
qed

section \<open>Runs\<close>

text \<open>One request after the other, each with its limiter environment, its upstreams and its random
  bytes.\<close>

fun proxied_run :: "('s, 'e) allow \<Rightarrow> (string \<Rightarrow> nat list) \<Rightarrow> (float64 \<Rightarrow> int) \<Rightarrow> gateway \<Rightarrow> 's \<Rightarrow> metrics \<Rightarrow>
    ('e \<times> (string \<Rightarrow> request \<Rightarrow> upstream_result) \<times> nat list \<times> request \<times> writer) list \<Rightarrow>
    ('s \<times> metrics \<times> (recorder \<times> log_line \<times> bool) list) option" where
  "proxied_run allow sha oor g s m [] = Some (s, m, [])"
| "proxied_run allow sha oor g s m ((env, up, random, r, w) # qs) =
     (case proxied allow sha oor g env up random s m r w of
        None \<Rightarrow> None
      | Some (s', m', out) \<Rightarrow>
          map_option (\<lambda>(s'', m'', outs). (s'', m'', out # outs)) (proxied_run allow sha oor g s' m' qs))"

lemma observations_simps [simp]: "observations (count_request p d m) = observations m"
  "observations (observe m) = Suc (observations m)"
  by (simp_all add: count_request_def observe_def)

lemma proxied_counts:
  assumes "gateway_ok url_parse rs g" and "proxied allow sha oor g env up random s m r w = Some (s', m', out)"
  shows "observations m' = observations m + (if routed_entry g r = None then 0 else 1) \<and>
    counted_total m' = counted_total m + (if routed_entry g r = None then 0 else 1)"
proof -
  obtain rec line panics where out: "out = (rec, line, panics)" by (cases out) auto
  from assms(2) [unfolded out] show ?thesis
  proof (rule proxied_cases)
    fix m1 h
    assume one: "gateway_serve allow sha oor g s m env (tagged random r)
        (set_header header_request_id (request_id random r) w) = Some (s', m1, h)"
      and m': "m' = (if routed h \<noteq> [] then observe m1 else m1)"
    from one show ?thesis
    proof (cases rule: gateway_serve_cases)
      case unmatched
      then have "routed_entry g r = None" using tagged_simps(4) [of g random r] by (simp add: routed_entry_None)
      then show ?thesis using unmatched m' by simp
    next
      case (matched e a)
      then have "routed_entry g r = Some e" using tagged_simps(4) [of g random r] by (simp add: routed_entry_Some)
      moreover have "routed h \<noteq> []"
        using after_decision_routed [OF matched(5)] matched_route(4) [OF assms(1) matched(2)] by simp
      ultimately show ?thesis using matched m' by simp
    qed
  qed
qed

context limiter
begin

lemma proxied_ok:
  assumes "inv s" and "gateway_ok url_parse rs g"
    and "\<And>e r'. routed_entry g r = Some e \<Longrightarrow> good env (asked_key sha e r') (asked_limit e r')"
  shows "\<exists>s' m' out. proxied allow sha oor g env up random s m r w = Some (s', m', out) \<and> inv s'"
proof -
  have "\<exists>s' m' h. gateway_serve allow sha oor g s m env (tagged random r) w' = Some (s', m', h) \<and> inv s'" for w'
  proof (cases "routed_entry g r")
    case None
    then show ?thesis
      using gateway_serve_unmatched [of "tagged random r" g allow sha oor s m env w'] assms(1)
        tagged_simps(4) [of g random r]
      by (simp add: routed_entry_None)
  next
    case (Some e)
    have "match (table g) (escaped_path (tagged random r)) = Some e' \<Longrightarrow> e' = e" for e'
      using Some tagged_simps(4) [of g random r] by (simp add: routed_entry_Some)
    then show ?thesis
      using Some assms(3) by (intro serve_ok [OF assms(1,2)]) auto
  qed
  then obtain s' m' h where "gateway_serve allow sha oor g s m env (tagged random r)
      (set_header header_request_id (request_id random r) w) = Some (s', m', h)" and "inv s'"
    by blast
  then show ?thesis
    by (cases "handed (\<lambda>u. up u (tagged random r)) h (set_header header_request_id (request_id random r) w)")
      (simp add: proxied_handed)
qed

lemma proxied_run_ok:
  assumes "inv s" and "gateway_ok url_parse rs g"
    and "\<forall>(env, up, random, r, w) \<in> set qs. \<forall>e r'. routed_entry g r = Some e \<longrightarrow>
      good env (asked_key sha e r') (asked_limit e r')"
  shows "\<exists>s' m' outs. proxied_run allow sha oor g s m qs = Some (s', m', outs) \<and> inv s'"
  using assms(1,3)
proof (induction qs arbitrary: s m)
  case (Cons q qs)
  obtain env up random r w where q: "q = (env, up, random, r, w)" by (cases q) auto
  have "\<exists>s1 m1 out. proxied allow sha oor g env up random s m r w = Some (s1, m1, out) \<and> inv s1"
    by (rule proxied_ok [OF Cons.prems(1) assms(2)]) (use Cons.prems(2) in \<open>auto simp: q\<close>)
  then obtain s1 m1 out where one: "proxied allow sha oor g env up random s m r w = Some (s1, m1, out)" and i: "inv s1"
    by blast
  from Cons.IH [OF i, of m1] Cons.prems(2) show ?case by (auto simp: q one)
qed simp

end

section \<open>Properties\<close>

text \<open>
  C29. The histogram and the counter never drift: over any requests, each request that matched a
  route adds exactly one to the counters and one observation, and every other request adds nothing,
  also when the upstream breaks off and the handler panics, or the client hangs up.
\<close>

theorem observations_equal_increments:
  assumes "gateway_ok url_parse rs g" and "proxied_run allow sha oor g s m qs = Some (s', m', outs)"
  shows "int (observations m') - int (observations m)
      = int (length (filter (\<lambda>(env, up, random, r, w). routed_entry g r \<noteq> None) qs)) \<and>
    counted_total m' - counted_total m
      = int (length (filter (\<lambda>(env, up, random, r, w). routed_entry g r \<noteq> None) qs))"
  using assms(2)
proof (induction qs arbitrary: s m outs)
  case (Cons q qs)
  obtain env up random r w where q: "q = (env, up, random, r, w)" by (cases q) auto
  obtain s1 m1 out outs' where one: "proxied allow sha oor g env up random s m r w = Some (s1, m1, out)"
    and rest: "proxied_run allow sha oor g s1 m1 qs = Some (s', m', outs')"
    using Cons.prems by (auto simp: q split: option.splits)
  from Cons.IH [OF rest] proxied_counts [OF assms(1) one] show ?case by (auto simp: q)
qed simp

text \<open>
  Every response carries a well-formed request ID, and it is the one in the log: the client's
  own when that is well-formed, a fresh one of 32 hex digits otherwise, so that no header a client
  or an upstream sends puts anything else there. Only an interim reply of the upstream takes it away.
\<close>

theorem request_id_everywhere:
  assumes "proxied allow sha oor g env up random s m r w = Some (s', m', rec, line, panics)"
    and "written w = None" and "length random = 16" and "\<forall>u. direct (up u (tagged random r))"
  shows "request_id_matches (log_request_id line) \<and>
    response_header header_request_id (under rec) = Some (log_request_id line) \<and>
    (request_id_matches (header_get (headers r) header_request_id) \<longrightarrow>
       log_request_id line = header_get (headers r) header_request_id)"
  using assms(1)
proof (rule proxied_cases)
  let ?w = "set_header header_request_id (request_id random r) w"
  fix m1 h
  assume one: "gateway_serve allow sha oor g s m env (tagged random r) ?w = Some (s', m1, h)"
    and line: "line = \<lparr>log_method = verb r, log_path = url_path r, log_status = status rec, log_route = routed h,
      log_identity = identity_string sha (identity_for (tagged random r)),
      log_request_id = request_id random r, log_bytes = bytes rec\<rparr>"
    and out: "handed (\<lambda>u. up u (tagged random r)) h ?w = (rec, panics)"
  have "response_header ''X-Request-Id'' ?w = Some (request_id random r)"
    by (simp add: header_request_id_def id_header_names)
  then have "response_header ''X-Request-Id'' (under rec) = Some (request_id random r)"
    using handed_keeps_id [OF out] gateway_serve_answers [OF one] assms(2,4) by simp
  then show ?thesis
    using fresh_id_matches [OF assms(3)] by (simp add: line header_request_id_def request_id_def Let_def)
qed

text \<open>
  C30. The access log tells the truth, as far as the recorder can know it. Its size is the number of
  bytes that the server accepted for the body, which is the length of the body, except that on a
  \<open>HEAD\<close> request the server drops them and the body is empty. Its status is the final status of the
  response; where there is none, because the client had hung up, it is 499; and when the upstream
  switched protocols, on a connection taken over past the recorder, it is not 101 but what was seen
  before, 200 or the last interim status.
\<close>

theorem access_log_tells_truth:
  assumes "proxied allow sha oor g env up random s m r w = Some (s', m', rec, line, panics)"
    and "written w = None" and "body w = []" and "accepted w = 0" and "interim w = []"
    and "\<forall>u. transport_ok (up u (tagged random r))"
  shows "log_bytes line = accepted (under rec) \<and>
    length (body (under rec)) = (if head_only w then 0 else log_bytes line) \<and>
    log_status line =
      (case written (under rec) of
         None \<Rightarrow> 499
       | Some c \<Rightarrow> if c \<noteq> 101 then c else if interim (under rec) = [] then 200 else fst (last (interim (under rec))))"
  using assms(1)
proof (rule proxied_cases)
  let ?w = "set_header header_request_id (request_id random r) w"
  fix m1 h
  assume one: "gateway_serve allow sha oor g s m env (tagged random r) ?w = Some (s', m1, h)"
    and line: "line = \<lparr>log_method = verb r, log_path = url_path r, log_status = status rec, log_route = routed h,
      log_identity = identity_string sha (identity_for (tagged random r)),
      log_request_id = request_id random r, log_bytes = bytes rec\<rparr>"
    and out: "handed (\<lambda>u. up u (tagged random r)) h ?w = (rec, panics)"
  have "writer_ok ?w" using assms(3,4) by (simp add: writer_ok_def)
  then have "recorder_true rec \<and> head_only (under rec) = head_only w"
    using handed_true [OF out] gateway_serve_answers [OF one] assms(2,4,5,6) by simp
  then show ?thesis
    by (auto simp: line recorder_true_def writer_ok_def status_client_closed_request_def seen_so_far_def split: option.split)
qed

text \<open>
  C31. The rate limit headers survive the upstream's reply: whatever headers it brings, \<open>X-RateLimit\<close>
  ones of its own included, a client of a forwarded request reads the values of the gateway's decision
  first. But not after an interim reply: the interim one carries them, and the final one has nothing
  but the upstream's own headers, neither the limit's nor the request's ID.
\<close>

theorem rate_limit_headers_survive:
  assumes "gateway_serve allow sha oor g s m env r w = Some (s', m', h)" and "action h = Forward u w'"
    and "routed_entry g r = Some e" and "allow s env (asked_key sha e r) (asked_limit e r) = Some (s1, Inr d)"
    and "written w = None" and "transport_ok (Interim c hs' (Replied code hs b))"
    and "answered = under (fst (reverse_proxy (Replied code hs b) \<lparr>under = w', status = 200, bytes = 0\<rparr>))"
    and "after_interim = under (fst (reverse_proxy (Interim c hs' (Replied code hs b)) \<lparr>under = w', status = 200, bytes = 0\<rparr>))"
  shows "response_status answered = code \<and>
    response_header ''X-RateLimit-Limit'' answered = Some (itoa (quota d)) \<and>
    response_header ''X-RateLimit-Remaining'' answered = Some (itoa (remaining d)) \<and>
    response_header ''X-RateLimit-Reset'' answered = Some (itoa (time_unix (reset d))) \<and>
    response_status after_interim = code \<and>
    out_headers after_interim = add_headers hs [] \<and>
    interim after_interim = interim w @ [(c, add_headers hs' (out_headers w'))]"
proof -
  note w' = forwarded_headers [OF assms(1,2,3,4)]
  have w: "written w' = None" "interim w' = interim w" using assms(5) by (simp_all add: w')
  show ?thesis
  proof (cases "code = 101")
    case True
    then show ?thesis
      using w assms(6) by (simp add: assms(7,8) switch_protocols_def copied_header rate_limit_headers w'
        response_status_def pass_interim_def recorder_headers_def recorder_write_header_def write_header_def)
  next
    case False
    then show ?thesis
      using w assms(6) by (simp add: assms(7,8) copy_reply_simps rate_limit_headers w' response_status_def copy_reply_headers
        pass_interim_def recorder_headers_def recorder_write_header_def write_header_def)
  qed
qed

section \<open>Witnesses\<close>

text \<open>A reply, a reply cut off, a client that hangs up and a path without a route.\<close>

definition demo_random :: "nat list" where "demo_random = replicate 16 171"

definition demo_reply :: upstream_result where
  "demo_reply = Replied 200 [(''X-Ratelimit-Limit'', [''999''])] ''hello''"

definition demo_visits :: "(gotime \<times> (string \<Rightarrow> request \<Rightarrow> upstream_result) \<times> nat list \<times> request \<times> writer) list" where
  "demo_visits =
     [(process_time 100, (\<lambda>u r. demo_reply), demo_random, demo_request ''/auth/login'', empty_writer),
      (process_time 200, (\<lambda>u r. Aborted True 200 [] ''he''), demo_random, demo_request ''/auth/login'', empty_writer),
      (process_time 300, (\<lambda>u r. Failed True), demo_random, demo_request ''/auth/login'', empty_writer),
      (process_time 400, (\<lambda>u r. demo_reply), demo_random, demo_request ''/nowhere'', empty_writer)]"

lemma auth_limit_any: "asked_limit auth_entry r = auth_limit"
proof -
  have "key_overrides (entry_route auth_entry) = []" "with_defaults (limit_of (entry_route auth_entry)) = auth_limit"
    by code_simp+
  then show ?thesis by (simp add: asked_limit_def limit_for_def)
qed

lemma demo_unrouted: "routed_entry (demo_gateway on_err) (demo_request ''/nowhere'') = None"
proof -
  have "match (new_table demo_routes) ''/nowhere'' = None" by code_simp
  then show ?thesis
    using demo_gateway_ok(1) [of on_err] by (simp add: routed_entry_None demo_request_def gateway_ok_def)
qed

lemma demo_visits_routed:
  "length (filter (\<lambda>(env, up, random, r, w). routed_entry (demo_gateway on_err) r \<noteq> None) demo_visits) = 3"
  by (simp add: demo_visits_def demo_routed demo_unrouted)

lemma demo_visits_good:
  "\<forall>(env, up, random, r, w) \<in> set demo_visits. \<forall>e r'. routed_entry (demo_gateway on_err) r = Some e \<longrightarrow>
     planned (\<lambda>k. auth_limit) env (asked_key toy_digest e r') (asked_limit e r')"
  by (auto simp: demo_visits_def demo_routed demo_unrouted auth_limit_any planned_def auth_serves)

theorem observations_equal_increments_witness:
  "\<exists>s m outs. proxied_run (memory_allow 2 no_range) toy_digest no_range (demo_gateway on_error_fail_open) [] new_metrics
      demo_visits = Some (s, m, outs) \<and> observations m = 3 \<and> counted_total m = 3"
proof -
  have i: "memory_inv 2 (\<lambda>k. auth_limit) []" using memory_inv_new by (simp add: new_memory_limiter_def)
  obtain s m outs where run: "proxied_run (memory_allow 2 no_range) toy_digest no_range (demo_gateway on_error_fail_open)
      [] new_metrics demo_visits = Some (s, m, outs)"
    using ml.proxied_run_ok [OF i demo_gateway_ok(1) demo_visits_good] by blast
  have "observations new_metrics = 0" by (simp add: new_metrics_def)
  moreover note observations_equal_increments [OF demo_gateway_ok(1) run, unfolded demo_visits_routed]
  ultimately show ?thesis using run by simp
qed

lemma demo_hang_up:
  "\<exists>s m rec line. proxied (memory_allow 0 no_range) toy_digest no_range (demo_gateway on_error_fail_open) (process_time 300)
     (\<lambda>u r. Failed True) demo_random [] new_metrics (demo_request ''/auth/login'') empty_writer = Some (s, m, rec, line, False) \<and>
     written (under rec) = None"
proof -
  let ?g = "demo_gateway on_error_fail_open"
  have full: "memory_allow 0 no_range [] t k auth_limit = Some ([], Inl (AtCapacity 0))" for t k
    by (simp add: memory_allow_def)
  have m: "\<not> has_dot_segments (url_path (demo_request ''/auth/login''))"
    "match (table ?g) (escaped_path (demo_request ''/auth/login'')) = Some auth_entry"
    using demo_routed [of on_error_fail_open] by (simp_all add: routed_entry_Some)
  have t: "\<not> has_dot_segments (url_path (tagged demo_random (demo_request ''/auth/login'')))"
    "match (table ?g) (escaped_path (tagged demo_random (demo_request ''/auth/login''))) = Some auth_entry"
    using m by (simp_all add: tagged_def)
  have p: "on_error_fail_open \<noteq> on_error_fail_closed" by (simp add: on_error_defs)
  show ?thesis
    unfolding proxied_handed gateway_serve_matched [OF t]
    by (simp add: auth_limit_any full after_decision_def
        forward_ok [OF demo_gateway_ok(1) m(2)] p handed_def error_handler_def empty_writer_def)
qed

theorem request_id_everywhere_witness:
  "\<exists>s m rec line. proxied (memory_allow 0 no_range) toy_digest no_range (demo_gateway on_error_fail_open) (process_time 300)
     (\<lambda>u r. Failed True) demo_random [] new_metrics (demo_request ''/auth/login'') empty_writer = Some (s, m, rec, line, False) \<and>
     response_header header_request_id (under rec) = Some (log_request_id line)"
proof -
  obtain s m rec line where p: "proxied (memory_allow 0 no_range) toy_digest no_range (demo_gateway on_error_fail_open)
     (process_time 300) (\<lambda>u r. Failed True) demo_random [] new_metrics (demo_request ''/auth/login'') empty_writer
     = Some (s, m, rec, line, False)"
    using demo_hang_up by blast
  have "written empty_writer = None" "length demo_random = 16" by (simp_all add: empty_writer_def demo_random_def)
  moreover have "\<forall>u. direct (Failed True)" by (simp add: direct_def)
  ultimately show ?thesis using request_id_everywhere [OF p] p by blast
qed

text \<open>A \<open>HEAD\<close> request refused under fail\_closed: 25 bytes in the log, none in the response.\<close>

lemma demo_refusal:
  "\<exists>s m rec line. proxied (memory_allow 0 no_range) toy_digest no_range (demo_gateway on_error_fail_closed) (process_time 300)
     (\<lambda>u r. demo_reply) demo_random [] new_metrics ((demo_request ''/auth/login'')\<lparr>verb := ''HEAD''\<rparr>)
     (empty_writer\<lparr>head_only := True\<rparr>) = Some (s, m, rec, line, False) \<and> written (under rec) = Some 503 \<and> accepted (under rec) = 25"
proof -
  let ?g = "demo_gateway on_error_fail_closed" and ?r = "(demo_request ''/auth/login'')\<lparr>verb := ''HEAD''\<rparr>"
  have full: "memory_allow 0 no_range [] t k auth_limit = Some ([], Inl (AtCapacity 0))" for t k
    by (simp add: memory_allow_def)
  have t: "\<not> has_dot_segments (url_path (tagged demo_random ?r))"
    "match (table ?g) (escaped_path (tagged demo_random ?r)) = Some auth_entry"
    using demo_routed [of on_error_fail_closed] by (simp_all add: routed_entry_Some tagged_def)
  have p: "policy ?g = on_error_fail_closed" by (rule demo_gateway_ok(2))
  show ?thesis
    unfolding proxied_handed gateway_serve_matched [OF t]
    by (simp add: auth_limit_any full after_decision_def p handed_def responded_def write_limiter_unavailable_def
        http_error_def newline_def empty_writer_def)
qed

theorem access_log_tells_truth_witness:
  "\<exists>s m rec line. proxied (memory_allow 0 no_range) toy_digest no_range (demo_gateway on_error_fail_closed) (process_time 300)
     (\<lambda>u r. demo_reply) demo_random [] new_metrics ((demo_request ''/auth/login'')\<lparr>verb := ''HEAD''\<rparr>)
     (empty_writer\<lparr>head_only := True\<rparr>) = Some (s, m, rec, line, False) \<and>
     log_status line = 503 \<and> log_bytes line = 25 \<and> body (under rec) = []"
proof -
  let ?w = "empty_writer\<lparr>head_only := True\<rparr>"
  obtain s m rec line where p: "proxied (memory_allow 0 no_range) toy_digest no_range (demo_gateway on_error_fail_closed)
     (process_time 300) (\<lambda>u r. demo_reply) demo_random [] new_metrics ((demo_request ''/auth/login'')\<lparr>verb := ''HEAD''\<rparr>) ?w
     = Some (s, m, rec, line, False)" and w: "written (under rec) = Some 503" "accepted (under rec) = 25"
    using demo_refusal by blast
  have "written ?w = None" "body ?w = []" "accepted ?w = 0" "interim ?w = []" "\<forall>u. transport_ok demo_reply"
    by (simp_all add: empty_writer_def demo_reply_def)
  from access_log_tells_truth [OF p this] w have "log_status line = 503 \<and> log_bytes line = 25 \<and> body (under rec) = []"
    by (simp add: empty_writer_def)
  with p show ?thesis by blast
qed

text \<open>A limiter that always allows, of a quota of 3.\<close>

definition generous :: "(unit, unit) allow" where
  "generous s e k l = Some (s, Inr (zero_decision\<lparr>allowed := True, quota := 3\<rparr>))"

theorem rate_limit_headers_survive_witness:
  "let w' = write_rate_limit_headers (zero_decision\<lparr>allowed := True, quota := 3\<rparr>) empty_writer;
       hs = [(''X-Ratelimit-Limit'', [''999''])];
       answered = under (fst (reverse_proxy (Replied 200 hs ''hello'') \<lparr>under = w', status = 200, bytes = 0\<rparr>));
       after_interim = under (fst (reverse_proxy (Interim 103 [] (Replied 200 hs ''hello'')) \<lparr>under = w', status = 200, bytes = 0\<rparr>))
   in response_header ''X-RateLimit-Limit'' answered = Some ''3'' \<and>
     out_headers after_interim = add_headers hs [] \<and> length (interim after_interim) = 1"
proof -
  let ?g = "demo_gateway on_error_fail_open" and ?r = "demo_request ''/auth/login''"
  let ?d = "zero_decision\<lparr>allowed := True, quota := 3\<rparr>"
  let ?w = "write_rate_limit_headers ?d empty_writer"
  have m: "\<not> has_dot_segments (url_path ?r)" "match (table ?g) (escaped_path ?r) = Some auth_entry"
    using demo_routed [of on_error_fail_open] by (simp_all add: routed_entry_Some)
  have a: "generous () () (asked_key toy_digest auth_entry ?r) (asked_limit auth_entry ?r) = Some ((), Inr ?d)"
    by (simp add: generous_def)
  let ?h = "\<lparr>routed = prefix_of (entry_route auth_entry), action = Forward (upstream (entry_route auth_entry)) ?w\<rparr>"
  have s: "gateway_serve generous toy_digest no_range ?g () new_metrics () ?r empty_writer =
      Some ((), count_request (prefix_of (entry_route auth_entry)) (decision_label (Inr ?d)) new_metrics, ?h)"
    unfolding gateway_serve_matched [OF m] a
    using forward_ok [OF demo_gateway_ok(1) m(2)] by (simp add: after_decision_def)
  have three: "itoa (quota ?d) = ''3''" by code_simp
  have up: "action ?h = Forward (upstream (entry_route auth_entry)) ?w" by simp
  have w: "written empty_writer = None" "interim empty_writer = []" by (simp_all add: empty_writer_def)
  have t: "transport_ok (Interim 103 [] (Replied 200 [(''X-Ratelimit-Limit'', [''999''])] ''hello''))" by simp
  note survive = rate_limit_headers_survive [where g = ?g and r = ?r and e = auth_entry and allow = generous
      and s = "()" and env = "()" and sha = toy_digest and d = ?d and h = ?h and code = 200 and w' = ?w
      and oor = no_range and m = new_metrics and w = empty_writer and hs = "[(''X-Ratelimit-Limit'', [''999''])]"
      and b = "''hello''" and c = 103 and hs' = "[]"]
  from survive [OF s up demo_routed a w(1) t refl refl] show ?thesis
    unfolding Let_def three w(2) by simp
qed

end
