(* ===== verification/Logs.thy ===== *)
theory Logs
  imports Middleware
begin

text \<open>
  What the operator of a gateway reads in its log: the error lines of \<open>internal/proxy/gateway.go\<close>
  with the request ID they find in the context, and the lines without one that fall into a request:
  the transitions that the breaker of \<open>internal/limiter/breaker.go\<close> logs, and what \<open>ReverseProxy\<close>
  writes to its \<open>ErrorLog\<close> when an upstream breaks off a body. The access line is in \<open>Middleware\<close>.
\<close>

section \<open>The request's context\<close>

text \<open>What \<open>Middleware\<close> puts into the context: the ID, and the holder of the route prefix with its
  content. Without the middleware neither is there.\<close>

record request_context =
  context_id :: "string option"
  prefix_holder :: "string option"

definition bare_context :: request_context where
  "bare_context = \<lparr>context_id = None, prefix_holder = None\<rparr>"

definition middleware_context :: "string \<Rightarrow> request_context \<Rightarrow> request_context" where
  "middleware_context i ctx = ctx\<lparr>context_id := Some i, prefix_holder := Some []\<rparr>"

definition request_id_from :: "request_context \<Rightarrow> string" where
  "request_id_from ctx = (case context_id ctx of None \<Rightarrow> [] | Some i \<Rightarrow> i)"

definition set_route_prefix :: "request_context \<Rightarrow> string \<Rightarrow> request_context" where
  "set_route_prefix ctx p =
     (case prefix_holder ctx of None \<Rightarrow> ctx | Some old \<Rightarrow> ctx\<lparr>prefix_holder := Some p\<rparr>)"

lemma context_simps [simp]:
  "request_id_from (middleware_context i ctx) = i" "request_id_from (set_route_prefix ctx p) = request_id_from ctx"
  by (simp_all add: request_id_from_def middleware_context_def set_route_prefix_def split: option.split)

section \<open>The breaker's transitions\<close>

datatype breaker_line = CircuitOpened int call_error | CircuitClosed | CircuitReopened call_error

definition record_lines :: "call_error option \<Rightarrow> breaker \<Rightarrow> breaker_line list" where
  "record_lines r b =
     (case state b of
        Closed \<Rightarrow>
          (case r of
             None \<Rightarrow> []
           | Some e \<Rightarrow>
               if neutral e then []
               else if failure_threshold \<le> wrap64 (failures b + 1) then [CircuitOpened (wrap64 (failures b + 1)) e] else [])
      | HalfOpen \<Rightarrow>
          (case r of None \<Rightarrow> [CircuitClosed] | Some e \<Rightarrow> if neutral e then [] else [CircuitReopened e])
      | Open \<Rightarrow> [])"

text \<open>The lines of the limiter in one call of \<open>Allow\<close>; the memory backend logs nothing.\<close>

definition limiter_lines :: "backend_limiter \<Rightarrow> redis_call \<Rightarrow> string \<Rightarrow> limit \<Rightarrow> breaker_line list" where
  "limiter_lines b c key l =
     (case b of
        MemoryBackend m g \<Rightarrow> []
      | RedisBackend r \<Rightarrow>
          (case scripts (algorithm l) of
             None \<Rightarrow> []
           | Some entry \<Rightarrow>
               if window l sdiv microsecond \<le> 0 then []
               else
                 (case admit (admit_at c) (breaker_of r) of
                    (b1, Some e) \<Rightarrow> []
                  | (b1, None) \<Rightarrow> record_lines (call_error_of (server c (script_call_for entry key l (nonce c)))) b1)))"

section \<open>The lines of a request\<close>

datatype log_entry =
    LimiterErrorLine allow_error string
  | UpstreamErrorLine string string string
  | CircuitLine breaker_line
  | ProxyLogLine string

definition line_id :: "log_entry \<Rightarrow> string option" where
  "line_id e =
     (case e of
        LimiterErrorLine err i \<Rightarrow> Some i
      | UpstreamErrorLine u p i \<Rightarrow> Some i
      | CircuitLine x \<Rightarrow> None
      | ProxyLogLine u \<Rightarrow> None)"

lemma line_id_simps [simp]:
  "line_id (LimiterErrorLine err i) = Some i" "line_id (UpstreamErrorLine u p i) = Some i"
  "line_id (CircuitLine x) = None" "line_id (ProxyLogLine u) = None"
  by (simp_all add: line_id_def)

text \<open>The line of \<open>errorHandler\<close>, which is logged whether or not the client has hung up, and that of the
  \<open>ErrorLog\<close>, only where it was the upstream that broke off.\<close>

fun upstream_lines :: "request_context \<Rightarrow> request \<Rightarrow> string \<Rightarrow> upstream_result \<Rightarrow> log_entry list" where
  "upstream_lines ctx r u (Replied code hs b) = []"
| "upstream_lines ctx r u (Failed canceled) = [UpstreamErrorLine u (url_path r) (request_id_from ctx)]"
| "upstream_lines ctx r u (Aborted broken code hs b) = (if broken then [ProxyLogLine u] else [])"
| "upstream_lines ctx r u (Interim code hs res) = upstream_lines ctx r u res"

text \<open>The lines a request leaves in \<open>ServeHTTP\<close> and below, in their order; \<open>says\<close> is what the limiter logs.\<close>

definition gateway_lines :: "('s, 'e) allow \<Rightarrow> ('s \<Rightarrow> 'e \<Rightarrow> string \<Rightarrow> limit \<Rightarrow> breaker_line list) \<Rightarrow>
    (string \<Rightarrow> nat list) \<Rightarrow> (float64 \<Rightarrow> int) \<Rightarrow> gateway \<Rightarrow>
    's \<Rightarrow> 'e \<Rightarrow> (string \<Rightarrow> request \<Rightarrow> upstream_result) \<Rightarrow> request_context \<Rightarrow> request \<Rightarrow> writer \<Rightarrow> log_entry list" where
  "gateway_lines allow says sha oor g s env up ctx r w =
     (if has_dot_segments (url_path r) then []
      else case match (table g) (escaped_path r) of
          None \<Rightarrow> []
        | Some e \<Rightarrow>
            (let ctx' = set_route_prefix ctx (prefix_of (entry_route e));
                 i = identity_for r;
                 eff = limit_for (entry_route e) (ident i);
                 key = bucket_key sha (entry_prefix e) i
             in case allow s env key eff of
                  None \<Rightarrow> []
                | Some (s', a) \<Rightarrow>
                    map CircuitLine (says s env key eff) @
                    (case a of Inl err \<Rightarrow> [LimiterErrorLine err (request_id_from ctx')] | Inr d \<Rightarrow> []) @
                    (case after_decision oor g e a w of
                       None \<Rightarrow> []
                     | Some h \<Rightarrow>
                         (case action h of
                            Respond w' \<Rightarrow> []
                          | Forward u w' \<Rightarrow> upstream_lines ctx' r u (up u r)))))"

definition is_limiter_line :: "log_entry \<Rightarrow> bool" where
  "is_limiter_line l = (case l of LimiterErrorLine err i \<Rightarrow> True | _ \<Rightarrow> False)"

lemma is_limiter_line_simps [simp]:
  "is_limiter_line (LimiterErrorLine err i)" "\<not> is_limiter_line (UpstreamErrorLine u p i)"
  "\<not> is_limiter_line (CircuitLine x)" "\<not> is_limiter_line (ProxyLogLine u)"
  by (simp_all add: is_limiter_line_def)

lemma no_limiter_lines [simp]:
  "filter is_limiter_line (upstream_lines ctx r u res) = []" "filter is_limiter_line (map CircuitLine xs) = []"
  by (induction ctx r u res rule: upstream_lines.induct) (auto simp: filter_empty_conv)

lemma upstream_lines_context [simp]: "upstream_lines (set_route_prefix ctx p) r u res = upstream_lines ctx r u res"
  by (induction ctx r u res rule: upstream_lines.induct) simp_all

text \<open>What each line of an upstream goes with.\<close>

fun final_result :: "upstream_result \<Rightarrow> upstream_result" where
  "final_result (Interim code hs u) = final_result u"
| "final_result u = u"

lemma upstream_line_cases:
  assumes "l \<in> set (upstream_lines ctx q u res)"
  obtains "l = UpstreamErrorLine u (url_path q) (request_id_from ctx)"
      and "status (fst (reverse_proxy res r)) = (if final_result res = Failed True then status_client_closed_request else 502)"
    | "l = ProxyLogLine u" and "snd (reverse_proxy res r)"
  using assms
proof (induction res r arbitrary: thesis rule: reverse_proxy.induct)
  case (2 canceled r)
  then show ?case
    by (cases canceled) (simp_all add: error_handler_def recorder_error_def recorder_write_def
      recorder_write_header_def recorder_headers_def Let_def)
qed (auto split: if_splits)

lemma gateway_lines_unmatched:
  "has_dot_segments (url_path r) \<or> match (table g) (escaped_path r) = None \<Longrightarrow>
   gateway_lines allow says sha oor g s env up ctx r w = []"
  by (auto simp: gateway_lines_def)

lemma gateway_lines_matched:
  assumes "\<not> has_dot_segments (url_path r)" and "match (table g) (escaped_path r) = Some e"
    and "allow s env (asked_key sha e r) (asked_limit e r) = Some (s', a)" and "after_decision oor g e a w = Some h"
  shows "gateway_lines allow says sha oor g s env up ctx r w =
    map CircuitLine (says s env (asked_key sha e r) (asked_limit e r)) @
    (case a of Inl err \<Rightarrow> [LimiterErrorLine err (request_id_from ctx)] | Inr d \<Rightarrow> []) @
    (case action h of Respond w' \<Rightarrow> [] | Forward u w' \<Rightarrow> upstream_lines ctx r u (up u r))"
  using assms
  by (simp add: gateway_lines_def Let_def asked_key_def asked_limit_def split: action.split sum.split)

text \<open>The counter of a route's decisions.\<close>

definition decision_count :: "string \<Rightarrow> string \<Rightarrow> metrics \<Rightarrow> int" where
  "decision_count p d m = (case map_of (requests_total m) (p, d) of None \<Rightarrow> 0 | Some v \<Rightarrow> v)"

lemma decision_count_simps [simp]:
  "decision_count p d (count_request p' d' m) = decision_count p d m + (if p = p' \<and> d = d' then 1 else 0)"
  "decision_count p d (observe m) = decision_count p d m"
  by (auto simp: decision_count_def count_request_def observe_def map_of_series_inc split: option.split)

lemma decision_label_degrade: "decision_label a = decision_degrade \<longleftrightarrow> (\<exists>err. a = Inl err)"
  by (auto simp: decision_label_def decision_defs split: sum.split)

section \<open>Properties\<close>

text \<open>
  C26. The log accounts for every error of a request. A line of the request has the ID of its access
  line, or it has none and is a transition of the circuit, which the breaker logs without knowing the
  request, or the \<open>ErrorLog\<close> line of a body that the upstream broke off, on which the handler panics.
  The ID is the one in the response's header, unless the upstream sent an interim reply. For every
  route the limiter error lines are exactly what the \<open>degrade\<close> series of the counter gains; and with
  an upstream error line the access line says 502, or 499 for a client that hung up.
\<close>

theorem logs_account_for_errors:
  assumes "proxied (backend_allow mk oor) sha oor g env up random s m r w = Some (s', m', rec, line, panics)"
    and "written w = None" and "w' = set_header header_request_id (request_id random r) w"
    and "ls = gateway_lines (backend_allow mk oor) limiter_lines sha oor g s env up
      (middleware_context (request_id random r) ctx) (tagged random r) w'"
  shows "(\<forall>l \<in> set ls. case line_id l of
        Some i \<Rightarrow> i = log_request_id line
      | None \<Rightarrow> (\<exists>x. l = CircuitLine x) \<or> (\<exists>u. l = ProxyLogLine u) \<and> panics) \<and>
    ((\<forall>u. direct (up u (tagged random r))) \<longrightarrow> response_header header_request_id (under rec) = Some (log_request_id line)) \<and>
    decision_count p decision_degrade m' = decision_count p decision_degrade m
      + (if p = log_route line then int (length (filter is_limiter_line ls)) else 0) \<and>
    (\<forall>u q i. UpstreamErrorLine u q i \<in> set ls \<longrightarrow>
       log_status line = (if final_result (up u (tagged random r)) = Failed True then 499 else 502))"
  using assms(1)
proof (rule proxied_cases)
  fix m1 h
  let ?ctx = "middleware_context (request_id random r) ctx" and ?r = "tagged random r"
  assume one: "gateway_serve (backend_allow mk oor) sha oor g s m env ?r (set_header header_request_id (request_id random r) w)
      = Some (s', m1, h)"
    and m': "m' = (if routed h \<noteq> [] then observe m1 else m1)"
    and line: "line = \<lparr>log_method = verb r, log_path = url_path r, log_status = status rec, log_route = routed h,
      log_identity = identity_string sha (identity_for ?r),
      log_request_id = request_id random r, log_bytes = bytes rec\<rparr>"
    and out: "handed (\<lambda>u. up u ?r) h (set_header header_request_id (request_id random r) w) = (rec, panics)"
  note one = one [folded assms(3)] and out = out [folded assms(3)]
  have "response_header ''X-Request-Id'' w' = Some (request_id random r)"
    by (simp add: assms(3) header_request_id_def id_header_names)
  then have header: "response_header header_request_id (under rec) = Some (log_request_id line)"
    if "\<forall>u. direct (up u ?r)"
    using handed_keeps_id [OF out] gateway_serve_answers [OF one] assms(2,3) that by (simp add: line header_request_id_def)
  have count: "decision_count p decision_degrade m' = decision_count p decision_degrade m1" by (simp add: m')
  from one show ?thesis
  proof (cases rule: gateway_serve_cases)
    case unmatched
    have "ls = []" unfolding assms(4) by (rule gateway_lines_unmatched [OF unmatched(1)])
    then show ?thesis using header unmatched(3) count by simp
  next
    case (matched e a)
    note ls = assms(4) [unfolded gateway_lines_matched
      [where allow = "backend_allow mk oor" and s = s and env = env, OF matched(1,2,3,5)]]
    have up: "(\<exists>u w1. action h = Forward u w1 \<and> l \<in> set (upstream_lines ?ctx ?r u (up u ?r))) \<or>
        (\<exists>x. l = CircuitLine x) \<or> (\<exists>err. l = LimiterErrorLine err (request_id random r))" if "l \<in> set ls" for l
      using that by (cases "action h") (auto simp: ls split: sum.splits)
    have forwarded: "l = UpstreamErrorLine u (url_path ?r) (request_id random r) \<and>
          status rec = (if final_result (up u ?r) = Failed True then 499 else 502) \<or>
        l = ProxyLogLine u \<and> panics"
      if f: "action h = Forward u w1" and l: "l \<in> set (upstream_lines ?ctx ?r u (up u ?r))" for l u w1
    proof -
      have "reverse_proxy (up u ?r) \<lparr>under = w1, status = 200, bytes = 0\<rparr> = (rec, panics)"
        using out f by (simp add: handed_def)
      then show ?thesis
        using l by (auto simp: status_client_closed_request_def
          elim!: upstream_line_cases [where r = "\<lparr>under = w1, status = 200, bytes = 0\<rparr>"])
    qed
    have ids: "case line_id l of Some i \<Rightarrow> i = request_id random r
        | None \<Rightarrow> (\<exists>x. l = CircuitLine x) \<or> (\<exists>u. l = ProxyLogLine u) \<and> panics" if "l \<in> set ls" for l
      using up [OF that] forwarded by fastforce
    have failed: "status rec = (if final_result (up u ?r) = Failed True then 499 else 502)"
      if "UpstreamErrorLine u q i \<in> set ls" for u q i
      using up [OF that] forwarded by fastforce
    have "routed h = prefix_of (entry_route e)"
      using matched(5) by (auto simp: after_decision_def forward_def split: sum.splits if_splits option.splits)
    moreover have "filter is_limiter_line ls = (case a of Inl err \<Rightarrow> [LimiterErrorLine err (request_id random r)] | Inr d \<Rightarrow> [])"
      by (auto simp: ls split: sum.split action.split)
    ultimately have "decision_count p decision_degrade m1 = decision_count p decision_degrade m
        + (if p = routed h then int (length (filter is_limiter_line ls)) else 0)"
      using matched(4) by (auto simp: eq_commute [of decision_degrade] decision_label_degrade split: sum.splits)
    moreover have "log_request_id line = request_id random r" "log_status line = status rec" "log_route line = routed h"
      by (simp_all add: line)
    ultimately show ?thesis using header ids failed count by (simp cong: option.case_cong)
  qed
qed

text \<open>
  The breaker's lines are its transitions: a verdict is logged exactly when it opens, closes or
  re-opens the circuit, a canceled probe, which re-opens it without a cooldown, aside.
\<close>

theorem breaker_lines_are_transitions:
  assumes "breaker_inv b"
  shows "record_lines r b \<noteq> [] \<longleftrightarrow>
    state (record_result t r b) \<noteq> state b \<and> \<not> (\<exists>e. r = Some e \<and> neutral e)"
  using assms
  by (auto simp: record_lines_def record_result_def Let_def split: bstate.splits option.splits if_splits)

section \<open>Witnesses\<close>

text \<open>Under fail\_open the fifth failure in a row opens the circuit, and the client of the request hangs up.\<close>

definition failing_redis :: backend_limiter where
  "failing_redis = RedisBackend ((new_redis_limiter (demo_cfg\<lparr>on_error := on_error_fail_open\<rparr>) [])
     \<lparr>breaker_of := new_breaker\<lparr>failures := 4\<rparr>\<rparr>)"

definition refused :: allow_error where
  "refused = RedisFailed algo_fixed_window (CallFailed ''connection refused'')"

lemma failing_answers:
  "\<exists>b. backend_allow 2 no_range failing_redis (refused_call 300) k auth_limit = Some (b, Inl refused)"
  "limiter_lines failing_redis (refused_call 300) k auth_limit = [CircuitOpened 5 (CallFailed ''connection refused'')]"
proof -
  have a: "algorithm auth_limit = algo_fixed_window" "\<not> window auth_limit sdiv microsecond \<le> 0" by code_simp+
  have d: "admit t (new_breaker\<lparr>failures := 4\<rparr>) = (new_breaker\<lparr>failures := 4\<rparr>, None)" for t
    by (simp add: admit_def new_breaker_def)
  have f: "on_error_fail_open \<noteq> on_error_degrade" by (simp add: on_error_defs)
  have l: "record_lines (Some (CallFailed ''connection refused'')) (new_breaker\<lparr>failures := 4\<rparr>)
      = [CircuitOpened 5 (CallFailed ''connection refused'')]" by code_simp
  show "\<exists>b. backend_allow 2 no_range failing_redis (refused_call 300) k auth_limit = Some (b, Inl refused)"
    "limiter_lines failing_redis (refused_call 300) k auth_limit = [CircuitOpened 5 (CallFailed ''connection refused'')]"
    using a f by (simp_all add: failing_redis_def backend_allow_def redis_allow_def limiter_lines_def breaker_do_def d l
        scripts_def refused_call_def call_error_of_def new_redis_limiter_def refused_def demo_cfg_def)
qed

lemma failing_request:
  "\<exists>s m rec line. proxied (backend_allow 2 no_range) toy_digest no_range (demo_gateway on_error_fail_open) (refused_call 300)
     (\<lambda>u r. Failed True) demo_random failing_redis new_metrics (demo_request ''/auth/login'') empty_writer = Some (s, m, rec, line, False) \<and>
   log_route line = prefix_of (entry_route auth_entry)"
  "gateway_lines (backend_allow 2 no_range) limiter_lines toy_digest no_range (demo_gateway on_error_fail_open) failing_redis
     (refused_call 300) (\<lambda>u r. Failed True) ctx (tagged demo_random (demo_request ''/auth/login'')) w =
   [CircuitLine (CircuitOpened 5 (CallFailed ''connection refused'')),
    LimiterErrorLine refused (request_id_from ctx),
    UpstreamErrorLine (upstream (entry_route auth_entry)) ''/auth/login'' (request_id_from ctx)]"
proof -
  let ?g = "demo_gateway on_error_fail_open" and ?r = "tagged demo_random (demo_request ''/auth/login'')"
  have m: "match (table ?g) (escaped_path (demo_request ''/auth/login'')) = Some auth_entry"
    and t: "\<not> has_dot_segments (url_path ?r)" "match (table ?g) (escaped_path ?r) = Some auth_entry"
    using demo_routed [of on_error_fail_open] by (simp_all add: routed_entry_Some)
  have p: "on_error_fail_open \<noteq> on_error_fail_closed" by (simp add: on_error_defs)
  then have d: "after_decision no_range ?g auth_entry (Inl refused) w =
      Some \<lparr>routed = prefix_of (entry_route auth_entry), action = Forward (upstream (entry_route auth_entry)) w\<rparr>" for w
    by (simp add: after_decision_def forward_ok [OF demo_gateway_ok(1) m])
  obtain b where b: "backend_allow 2 no_range failing_redis (refused_call 300) (asked_key toy_digest auth_entry ?r)
      (asked_limit auth_entry ?r) = Some (b, Inl refused)"
    using failing_answers(1) unfolding auth_limit_any by blast
  show "\<exists>s m rec line. proxied (backend_allow 2 no_range) toy_digest no_range ?g (refused_call 300)
     (\<lambda>u r. Failed True) demo_random failing_redis new_metrics (demo_request ''/auth/login'') empty_writer = Some (s, m, rec, line, False) \<and>
     log_route line = prefix_of (entry_route auth_entry)"
    unfolding proxied_handed gateway_serve_matched [OF t] b
    by (simp add: d handed_def error_handler_def)
  show "gateway_lines (backend_allow 2 no_range) limiter_lines toy_digest no_range ?g failing_redis
     (refused_call 300) (\<lambda>u r. Failed True) ctx ?r w =
   [CircuitLine (CircuitOpened 5 (CallFailed ''connection refused'')),
    LimiterErrorLine refused (request_id_from ctx),
    UpstreamErrorLine (upstream (entry_route auth_entry)) ''/auth/login'' (request_id_from ctx)]"
    using gateway_lines_matched [where allow = "backend_allow 2 no_range" and s = failing_redis and env = "refused_call 300", OF t b d]
    by (simp add: auth_limit_any failing_answers(2)) (simp add: demo_request_def)
qed

theorem logs_account_for_errors_witness:
  "\<exists>s m rec line. proxied (backend_allow 2 no_range) toy_digest no_range (demo_gateway on_error_fail_open) (refused_call 300)
     (\<lambda>u r. Failed True) demo_random failing_redis new_metrics (demo_request ''/auth/login'') empty_writer = Some (s, m, rec, line, False) \<and>
     decision_count (prefix_of (entry_route auth_entry)) decision_degrade m = 1 \<and> log_status line = 499 \<and>
     response_header header_request_id (under rec) = Some (log_request_id line)"
proof -
  obtain s m rec line where p: "proxied (backend_allow 2 no_range) toy_digest no_range (demo_gateway on_error_fail_open)
     (refused_call 300) (\<lambda>u r. Failed True) demo_random failing_redis new_metrics (demo_request ''/auth/login'') empty_writer
     = Some (s, m, rec, line, False)" and q: "log_route line = prefix_of (entry_route auth_entry)"
    using failing_request(1) by blast
  have "written empty_writer = None" by (simp add: empty_writer_def)
  from logs_account_for_errors [OF p this refl refl, of bare_context "prefix_of (entry_route auth_entry)"] p q show ?thesis
    unfolding failing_request(2) by (auto simp: decision_count_def new_metrics_def direct_def)
qed

theorem breaker_lines_are_transitions_witness:
  "record_lines (Some (CallFailed ''i/o timeout'')) (new_breaker\<lparr>failures := 4\<rparr>) \<noteq> []"
proof -
  have "breaker_inv (new_breaker\<lparr>failures := 4\<rparr>)"
    by (simp add: breaker_inv_def failure_threshold_def state_code_def new_breaker_def)
  moreover have "state (record_result (process_time 1) (Some (CallFailed ''i/o timeout'')) (new_breaker\<lparr>failures := 4\<rparr>)) = Open"
    by code_simp
  ultimately show ?thesis
    using breaker_lines_are_transitions [of "new_breaker\<lparr>failures := 4\<rparr>" "Some (CallFailed ''i/o timeout'')" "process_time 1"]
    by (simp add: neutral_def)
qed

end
