(* ===== verification/Handler.thy ===== *)
theory Handler
  imports Middleware
begin

text \<open>
  The root handler, \<open>internal/proxy/handler.go\<close> and \<open>demo.go\<close>: the dispatch between the reserved
  paths and the gateway behind its middleware. The Prometheus exposition, the bytes of the embedded
  page and the readiness checks come from outside.
\<close>

section \<open>The code\<close>

definition write_text :: "int \<Rightarrow> string \<Rightarrow> writer \<Rightarrow> writer" where
  "write_text code text w =
     write_body (text @ newline)
       (write_header code (set_header ''Content-Type'' ''text/plain; charset=utf-8'' w))"

definition serve_demo_page :: "string \<Rightarrow> writer \<Rightarrow> writer" where
  "serve_demo_page page w =
     write_body page
       (write_header 200
         (set_header ''Cache-Control'' ''no-cache''
           (set_header ''Content-Length'' (itoa (int (length page)))
             (set_header ''Content-Type'' ''text/html; charset=utf-8'' w))))"

definition ready_check_timeout :: duration where "ready_check_timeout = second"

text \<open>A check is run with the time it may take and reports an error or none. \<open>run_checks\<close> is the loop
  with its early return; it also says how many checks were run.\<close>

type_synonym ready_check = "duration \<Rightarrow> string option"

fun run_checks :: "ready_check list \<Rightarrow> string option \<times> nat" where
  "run_checks [] = (None, 0)"
| "run_checks (check # cs) =
     (case check ready_check_timeout of
        Some err \<Rightarrow> (Some err, 1)
      | None \<Rightarrow> (case run_checks cs of (e, n) \<Rightarrow> (e, Suc n)))"

text \<open>\<open>NewHandler\<close>: the policy it hands to the gateway, and what the returned closure holds.\<close>

record root_handler =
  root_gateway :: gateway
  root_metrics_disabled :: bool
  root_demo_page :: bool
  root_checks :: "ready_check list"

definition handler_policy :: "limiter_cfg \<Rightarrow> string" where
  "handler_policy l = (if backend l = backend_redis then on_error (redis l) else on_error_fail_open)"

definition new_handler :: "url_parser \<Rightarrow> config \<Rightarrow> metrics \<Rightarrow> ready_check list \<Rightarrow> string + root_handler \<times> metrics" where
  "new_handler url_parse cfg m ready =
     (case new_gateway url_parse (routes cfg) (upstream_of cfg) (handler_policy (limiter_of cfg)) m of
        Inl e \<Rightarrow> Inl e
      | Inr (g, m') \<Rightarrow>
          Inr (\<lparr>root_gateway = g, root_metrics_disabled = metrics_disabled (server_of cfg),
                root_demo_page = demo_page (server_of cfg), root_checks = ready\<rparr>, m'))"

definition safe_method :: "request \<Rightarrow> bool" where
  "safe_method r \<longleftrightarrow> verb r = ''GET'' \<or> verb r = ''HEAD''"

definition method_not_allowed :: "writer \<Rightarrow> writer" where
  "method_not_allowed w = write_text 405 ''method not allowed'' (set_header ''Allow'' ''GET, HEAD'' w)"

text \<open>What a request sees outside: the limiter's environment, the upstreams and the random bytes.\<close>

record 'e world =
  limiter_env :: 'e
  upstreams :: "string \<Rightarrow> request \<Rightarrow> upstream_result"
  random_bytes :: "nat list"

text \<open>The answer of a reserved path, or the outcome of the gateway behind its middleware.\<close>

datatype response = Reserved writer | Proxied recorder log_line bool

definition serve_readyz :: "ready_check list \<Rightarrow> writer \<Rightarrow> writer" where
  "serve_readyz checks w =
     (case fst (run_checks checks) of
        Some err \<Rightarrow> write_text 503 ''not ready'' w
      | None \<Rightarrow> write_text 200 ''ok'' w)"

definition root_serve :: "('s, 'e) allow \<Rightarrow> (string \<Rightarrow> nat list) \<Rightarrow> (float64 \<Rightarrow> int) \<Rightarrow> string \<Rightarrow>
    (metrics \<Rightarrow> request \<Rightarrow> writer \<Rightarrow> writer) \<Rightarrow> root_handler \<Rightarrow> 's \<Rightarrow> metrics \<Rightarrow> 'e world \<Rightarrow> request \<Rightarrow> writer \<Rightarrow>
    ('s \<times> metrics \<times> response) option" where
  "root_serve allow sha oor page expose h s m world r w =
     (if root_demo_page h \<and> url_path r = ''/'' then
        Some (s, m, Reserved (if \<not> safe_method r then method_not_allowed w else serve_demo_page page w))
      else if root_metrics_disabled h \<and> url_path r = ''/metrics'' then
        Some (s, m, Reserved (write_text 404 ''not found'' w))
      else if url_path r = ''/healthz'' \<or> url_path r = ''/readyz'' \<or> url_path r = ''/metrics'' then
        Some (s, m, Reserved
          (if \<not> safe_method r then method_not_allowed w
           else if url_path r = ''/metrics'' then expose m r w
           else if url_path r = ''/healthz'' then write_text 200 ''ok'' w
           else serve_readyz (root_checks h) w))
      else
        map_option (\<lambda>(s', m', rec, line, panics). (s', m', Proxied rec line panics))
          (proxied allow sha oor (root_gateway h) (limiter_env world) (upstreams world) (random_bytes world) s m r w))"

section \<open>Reserved paths\<close>

definition reserved :: "root_handler \<Rightarrow> string \<Rightarrow> bool" where
  "reserved h p \<longleftrightarrow> p \<in> {''/healthz'', ''/readyz'', ''/metrics''} \<or> root_demo_page h \<and> p = ''/''"

lemma root_serve_proxied:
  "\<not> reserved h (url_path r) \<Longrightarrow> root_serve allow sha oor page expose h s m world r w =
     map_option (\<lambda>(s', m', rec, line, panics). (s', m', Proxied rec line panics))
       (proxied allow sha oor (root_gateway h) (limiter_env world) (upstreams world) (random_bytes world) s m r w)"
  by (auto simp: root_serve_def reserved_def)

lemma write_text_simps [simp]:
  "written w = None \<Longrightarrow> \<not> interim_status c \<Longrightarrow> response_status (write_text c t w) = c"
  "written w = None \<Longrightarrow> \<not> interim_status c \<Longrightarrow>
    body (write_text c t w) = body w @ (if head_only w \<or> \<not> body_allowed c then [] else t @ newline)"
  "response_header ''Allow'' (write_text c t w) = response_header ''Allow'' w"
proof -
  have "canonical_key ''Allow'' \<noteq> canonical_key ''Content-Type''" by code_simp
  then show "response_header ''Allow'' (write_text c t w) = response_header ''Allow'' w"
    by (simp add: write_text_def)
qed (simp_all add: write_text_def response_status_def del: interim_status_def body_allowed_def)

lemma run_checks_None: "fst (run_checks cs) = None \<longleftrightarrow> (\<forall>c \<in> set cs. c ready_check_timeout = None)"
  by (induction cs) (auto split: option.split prod.split)

lemma run_checks_count:
  "snd (run_checks cs) = length (takeWhile (\<lambda>c. c ready_check_timeout = None) cs) + (if fst (run_checks cs) = None then 0 else 1)"
  by (induction cs) (auto split: option.split prod.split)

lemma new_handler_ok:
  assumes "config_ok url_parse cfg"
  shows "\<exists>h m'. new_handler url_parse cfg m ready = Inr (h, m') \<and> gateway_ok url_parse (routes cfg) (root_gateway h) \<and>
    policy (root_gateway h) = handler_policy (limiter_of cfg) \<and> root_checks h = ready \<and>
    root_metrics_disabled h = metrics_disabled (server_of cfg) \<and> root_demo_page h = demo_page (server_of cfg)"
proof -
  have "routes_ok url_parse (routes cfg)"
    using assms by (auto simp: routes_ok_def config_ok_def distinct_prefixes_def)
  from new_gateway_ok [OF this, of "upstream_of cfg" "handler_policy (limiter_of cfg)" m] show ?thesis
    by (auto simp: new_handler_def)
qed

section \<open>Properties\<close>

text \<open>
  C32. The reserved paths are out of the gateway's reach: a request for the health endpoints, the
  metrics or the demo page is answered ahead of the route table and leaves the limiter and every
  metric as they are, whatever routes are configured, with 405 and \<open>Allow\<close> to any method but
  GET and HEAD, except that disabled metrics are a 404 to every method; every other path goes to
  the gateway with every method.
\<close>

theorem reserved_paths_bypass:
  assumes "written w = None"
  shows "(reserved h (url_path r) \<longrightarrow>
      (\<exists>w'. root_serve allow sha oor page expose h s m world r w = Some (s, m, Reserved w') \<and>
         (\<not> safe_method r \<longrightarrow>
            (if root_metrics_disabled h \<and> url_path r = ''/metrics'' then response_status w' = 404
             else response_status w' = 405 \<and> response_header ''Allow'' w' = Some ''GET, HEAD'')))) \<and>
    (\<not> reserved h (url_path r) \<longrightarrow>
      root_serve allow sha oor page expose h s m world r w =
        map_option (\<lambda>(s', m', rec, line, panics). (s', m', Proxied rec line panics))
          (proxied allow sha oor (root_gateway h) (limiter_env world) (upstreams world) (random_bytes world) s m r w))"
  using assms root_serve_proxied [of h r allow sha oor page expose s m world w]
  by (auto simp: root_serve_def reserved_def method_not_allowed_def)

text \<open>
  \<open>/readyz\<close> is 200 exactly when every check passes within its second and 503 otherwise, the
  reason kept out of the body, which a \<open>HEAD\<close> request does not get, and no check is run after the
  first that fails.
\<close>

theorem readyz_reports_checks:
  assumes "url_path r = ''/readyz''" and "safe_method r" and "written w = None" and "body w = []"
  shows "\<exists>w'. root_serve allow sha oor page expose h s m world r w = Some (s, m, Reserved w') \<and>
    (if \<forall>c \<in> set (root_checks h). c ready_check_timeout = None
     then response_status w' = 200 \<and> body w' = (if head_only w then [] else ''ok'' @ newline)
     else response_status w' = 503 \<and> body w' = (if head_only w then [] else ''not ready'' @ newline)) \<and>
    snd (run_checks (root_checks h)) \<le> Suc (length (takeWhile (\<lambda>c. c ready_check_timeout = None) (root_checks h)))"
  using assms run_checks_None [of "root_checks h"] run_checks_count [of "root_checks h"]
  by (auto simp: root_serve_def serve_readyz_def split: option.split)

text \<open>
  The memory backend always fails open: under a configuration that selects it no limiter error,
  and its only one is the full map, turns into a 503, also when a redis policy of fail_closed is
  left in the file.
\<close>

theorem memory_backend_fails_open:
  assumes "config_ok url_parse cfg" and "backend (limiter_of cfg) = backend_memory"
    and "new_handler url_parse cfg m ready = Inr (h, m1)" and "routed_entry (root_gateway h) r = Some e"
    and "allow s env (asked_key sha e r) (asked_limit e r) = Some (s', Inl x)"
  shows "\<exists>m' hd. gateway_serve allow sha oor (root_gateway h) s mets env r w = Some (s', m', hd) \<and>
    action hd = Forward (upstream (entry_route e)) w"
proof -
  have g: "gateway_ok url_parse (routes cfg) (root_gateway h)" "policy (root_gateway h) = on_error_fail_open"
    using new_handler_ok [OF assms(1), of m ready] assms(2,3) by (auto simp: handler_policy_def)
  have e: "\<not> has_dot_segments (url_path r)" "match (table (root_gateway h)) (escaped_path r) = Some e"
    using assms(4) by (simp_all add: routed_entry_Some)
  have "on_error_fail_open \<noteq> on_error_fail_closed" by (simp add: on_error_defs)
  then show ?thesis
    unfolding gateway_serve_matched [OF e] assms(5)
    using forward_ok [OF g(1) e(2)] g(2) by (simp add: after_decision_def)
qed

section \<open>Witnesses\<close>

lemma example_config_ok: "config_ok example_url_parser (apply_defaults example_config)"
  using example_parses by (simp add: parse_Inr)

definition demo_handler :: "ready_check list \<Rightarrow> root_handler" where
  "demo_handler ready = \<lparr>root_gateway = demo_gateway on_error_fail_open, root_metrics_disabled = True,
     root_demo_page = False, root_checks = ready\<rparr>"

definition demo_world :: "gotime world" where
  "demo_world = \<lparr>limiter_env = process_time 100, upstreams = (\<lambda>u r. demo_reply), random_bytes = demo_random\<rparr>"

theorem reserved_paths_bypass_witness:
  "\<exists>w'. root_serve (memory_allow 2 no_range) toy_digest no_range ''page'' (\<lambda>m r w. w) (demo_handler []) [] new_metrics demo_world
      ((demo_request ''/healthz'')\<lparr>verb := ''POST''\<rparr>) empty_writer = Some ([], new_metrics, Reserved w') \<and>
    response_status w' = 405 \<and> response_header ''Allow'' w' = Some ''GET, HEAD''"
  using reserved_paths_bypass [of empty_writer "demo_handler []" "(demo_request ''/healthz'')\<lparr>verb := ''POST''\<rparr>"
      "memory_allow 2 no_range" toy_digest no_range "''page''" "\<lambda>m r w. w" "[]" new_metrics demo_world]
  by (simp add: empty_writer_def reserved_def demo_request_def safe_method_def)

theorem readyz_reports_checks_witness:
  "\<exists>w'. root_serve (memory_allow 2 no_range) toy_digest no_range ''page'' (\<lambda>m r w. w)
      (demo_handler [\<lambda>t. None, \<lambda>t. Some ''dial tcp: connection refused'', \<lambda>t. None]) [] new_metrics demo_world
      (demo_request ''/readyz'') empty_writer = Some ([], new_metrics, Reserved w') \<and>
    response_status w' = 503 \<and> body w' = ''not ready'' @ newline"
  using readyz_reports_checks [of "demo_request ''/readyz''" empty_writer "memory_allow 2 no_range" toy_digest no_range "''page''"
      "\<lambda>m r w. w" "demo_handler [\<lambda>t. None, \<lambda>t. Some ''dial tcp: connection refused'', \<lambda>t. None]" "[]" new_metrics demo_world]
  by (auto simp: empty_writer_def demo_request_def safe_method_def demo_handler_def)

theorem memory_backend_fails_open_witness:
  "\<exists>h m' hd. new_handler example_url_parser (apply_defaults example_config) new_metrics [] = Inr (h, m') \<and>
     gateway_serve (memory_allow 0 no_range) toy_digest no_range (root_gateway h) [] new_metrics (process_time 100)
       (demo_request ''/auth/login'') empty_writer = Some ([], hd) \<and>
     action (snd hd) = Forward (upstream (entry_route auth_entry)) empty_writer"
proof -
  let ?cfg = "apply_defaults example_config"
  obtain h m' where h: "new_handler example_url_parser ?cfg new_metrics [] = Inr (h, m')"
    and g: "gateway_ok example_url_parser (routes ?cfg) (root_gateway h)"
    using new_handler_ok [OF example_config_ok, of new_metrics "[]"] by blast
  have "table (root_gateway h) = table (demo_gateway [])"
    using g demo_gateway_ok(1) [of "[]"] by (simp add: gateway_ok_def demo_routes_def)
  then have r: "routed_entry (root_gateway h) (demo_request ''/auth/login'') = Some auth_entry"
    using demo_routed [of "[]"] by (simp add: routed_entry_Some)
  have a: "memory_allow 0 no_range [] (process_time 100) (asked_key toy_digest auth_entry (demo_request ''/auth/login''))
      (asked_limit auth_entry (demo_request ''/auth/login'')) = Some ([], Inl (AtCapacity 0))"
    by (simp add: auth_limit_any memory_allow_def)
  have b: "backend (limiter_of ?cfg) = backend_memory" by code_simp
  from memory_backend_fails_open [where allow = "memory_allow 0 no_range" and s = "[]" and env = "process_time 100"
      and oor = no_range and w = empty_writer and mets = new_metrics,
      OF example_config_ok b h r a] h
  show ?thesis by fastforce
qed

end
