(* ===== verification/Server.thy ===== *)
theory Server
  imports Handler
begin

text \<open>
  The process, \<open>cmd/gateway/main.go\<close>: what \<open>serve\<close> builds and in which order, how it ends, and the
  exit code. Listening, serving, the signal, the redis client and the drain of \<open>Shutdown\<close> are
  \<open>net\<close>'s, \<open>net/http\<close>'s and go-redis's; they enter as the events and errors below.
\<close>

section \<open>The code\<close>

text \<open>The settings of the HTTP server.\<close>

record http_server =
  read_header_within :: duration
  read_within :: duration
  write_within :: duration
  idle_within :: duration

definition http_server_for :: "server \<Rightarrow> http_server" where
  "http_server_for s =
     \<lparr>read_header_within = read_header_timeout s, read_within = read_timeout s,
      write_within = write_timeout s, idle_within = idle_timeout s\<rparr>"

text \<open>The steps with an effect outside, in the order in which they happen: what \<open>Serve\<close> and
  \<open>Shutdown\<close> do with the listener they are given included.\<close>

datatype step =
    StartServing http_server
  | CloseListener
  | Drain duration
  | CancelShutdown
  | CloseRedis

text \<open>
  Which of the two arms of the \<open>select\<close> is taken: \<open>Serve\<close> returned \<open>ErrServerClosed\<close> or another
  error, or the context was canceled, with what \<open>Shutdown\<close> then returns, while \<open>Serve\<close> was
  accepting or before its goroutine got there, so that it never accepts.
\<close>

datatype ending =
    ServerClosed
  | ServeFailed string
  | Interrupted "string option"
  | InterruptedEarly "string option"

text \<open>
  \<open>Serve\<close> closes its listener when it returns; \<open>Shutdown\<close> closes the listeners in use first and
  then waits for the requests in flight.
\<close>

definition serving_steps :: "http_server \<Rightarrow> duration \<Rightarrow> ending \<Rightarrow> step list" where
  "serving_steps srv timeout ending =
     (case ending of
        ServerClosed \<Rightarrow> [StartServing srv, CloseListener]
      | ServeFailed err \<Rightarrow> [StartServing srv, CloseListener]
      | Interrupted err \<Rightarrow> [StartServing srv, CloseListener, Drain timeout, CancelShutdown]
      | InterruptedEarly err \<Rightarrow> [Drain timeout, CancelShutdown])"

definition serving_error :: "ending \<Rightarrow> string option" where
  "serving_error ending =
     (case ending of
        ServerClosed \<Rightarrow> None
      | ServeFailed err \<Rightarrow> Some err
      | Interrupted err \<Rightarrow> err
      | InterruptedEarly err \<Rightarrow> err)"

text \<open>The ready checks: the redis ping under fail_closed only.\<close>

definition ready_checks :: "limiter_cfg \<Rightarrow> backend_limiter \<Rightarrow> ready_check \<Rightarrow> ready_check list" where
  "ready_checks l b ping =
     (case b of
        MemoryBackend m g \<Rightarrow> []
      | RedisBackend r \<Rightarrow> if on_error (redis l) = on_error_fail_closed then [ping] else [])"

text \<open>
  The deferred calls run in reverse order on every return: \<open>defers\<close> holds them innermost first. The
  deferred close of the listener is there for the returns before \<open>Serve\<close> starts; after it, it is a
  second close, whose error is dropped.
  The result is what was built (for the requests served meanwhile), the steps, and the error.
\<close>

definition serve :: "url_parser \<Rightarrow> ready_check \<Rightarrow> config \<Rightarrow> ending \<Rightarrow>
    (root_handler \<times> backend_limiter \<times> metrics) option \<times> step list \<times> string option" where
  "serve url_parse ping cfg ending =
     (let defers = [CloseListener];
          m = new_metrics
      in case new_limiter (limiter_of cfg) (limiter_backend m) of
           Inl err \<Rightarrow> (None, defers, Some err)
         | Inr lmt \<Rightarrow>
             (let defers = (case lmt of MemoryBackend s g \<Rightarrow> defers | RedisBackend r \<Rightarrow> CloseRedis # defers)
              in case new_handler url_parse cfg m (ready_checks (limiter_of cfg) lmt ping) of
                   Inl err \<Rightarrow> (None, defers, Some err)
                 | Inr (h, m') \<Rightarrow>
                     (Some (h, lmt, m'),
                      serving_steps (http_server_for (server_of cfg)) (shutdown_timeout (server_of cfg)) ending @ defers,
                      serving_error ending)))"

definition run_gateway :: "url_parser \<Rightarrow> ready_check \<Rightarrow> (string \<Rightarrow> string option) \<Rightarrow> config \<Rightarrow> ending \<Rightarrow>
    (root_handler \<times> backend_limiter \<times> metrics) option \<times> step list \<times> string option" where
  "run_gateway url_parse ping listen_on cfg ending =
     (case listen_on (listen (server_of cfg)) of
        Some err \<Rightarrow> (None, [], Some err)
      | None \<Rightarrow> serve url_parse ping cfg ending)"

definition main_exit :: "(string \<Rightarrow> string + string) \<Rightarrow> (string \<Rightarrow> config decoded \<times> unit decoded) \<Rightarrow> url_parser \<Rightarrow>
    ready_check \<Rightarrow> (string \<Rightarrow> string option) \<Rightarrow> string \<Rightarrow> ending \<Rightarrow> int \<times> step list" where
  "main_exit read decode url_parse ping listen_on path ending =
     (case load read decode url_parse path of
        Inl e \<Rightarrow> (1, [])
      | Inr cfg \<Rightarrow>
          (case run_gateway url_parse ping listen_on cfg ending of
             (built, steps, err) \<Rightarrow> ((if err \<noteq> None then 1 else 0), steps)))"

section \<open>How a process ends\<close>

lemma serve_built:
  assumes "config_ok url_parse cfg"
  obtains lmt h m where "new_limiter (limiter_of cfg) (limiter_backend new_metrics) = Inr lmt"
    and "new_handler url_parse cfg new_metrics (ready_checks (limiter_of cfg) lmt ping) = Inr (h, m)"
    and "gateway_ok url_parse (routes cfg) (root_gateway h)"
    and "policy (root_gateway h) = handler_policy (limiter_of cfg)"
    and "root_checks h = ready_checks (limiter_of cfg) lmt ping"
proof -
  obtain lmt where l: "new_limiter (limiter_of cfg) (limiter_backend new_metrics) = Inr lmt"
    using assms by (auto simp: config_ok_def new_limiter_def)
  from new_handler_ok [OF assms, of new_metrics "ready_checks (limiter_of cfg) lmt ping"] that [OF l]
  show ?thesis by blast
qed

lemma new_limiter_redis:
  "new_limiter l g = Inr lmt \<Longrightarrow> (case lmt of MemoryBackend s x \<Rightarrow> False | RedisBackend r \<Rightarrow> True) = (backend l = backend_redis)"
  by (auto simp: new_limiter_def split: if_splits)

section \<open>Properties\<close>

text \<open>
  C33. Whatever ends the process, what it opened is closed, in the right order: under an accepted
  configuration the handler is built and served; when it is told to stop, the listener is closed
  before the drain, which has the configured timeout, so that no connection is accepted meanwhile; the
  redis client is closed exactly under the redis backend, after the drain, so that the requests in
  flight can still use it; at the end the listener has been closed in any case; and the error
  returned is the one of \<open>Serve\<close> or \<open>Shutdown\<close>, \<open>ErrServerClosed\<close> being none.
\<close>

theorem serve_closes_in_order:
  assumes "config_ok url_parse cfg"
  shows "\<exists>h lmt m steps. serve url_parse ping cfg ending = (Some (h, lmt, m), steps, serving_error ending) \<and>
    gateway_ok url_parse (routes cfg) (root_gateway h) \<and>
    last steps = CloseListener \<and>
    (CloseRedis \<in> set steps \<longleftrightarrow> backend (limiter_of cfg) = backend_redis) \<and>
    (\<forall>before_it after_it t. steps = before_it @ Drain t # after_it \<longrightarrow>
       t = shutdown_timeout (server_of cfg) \<and> CloseRedis \<notin> set before_it \<and> Drain t \<notin> set before_it \<union> set after_it \<and>
       (\<forall>srv. StartServing srv \<in> set steps \<longrightarrow> (\<exists>xs ys. before_it = xs @ StartServing srv # ys \<and> CloseListener \<in> set ys))) \<and>
    (\<forall>e. ending = Interrupted e \<longrightarrow> Drain (shutdown_timeout (server_of cfg)) \<in> set steps) \<and>
    (\<forall>srv. StartServing srv \<in> set steps \<longrightarrow> srv = http_server_for (server_of cfg))"
  using assms
proof (rule serve_built [where ping = ping])
  fix lmt h m
  assume l: "new_limiter (limiter_of cfg) (limiter_backend new_metrics) = Inr lmt"
    and h: "new_handler url_parse cfg new_metrics (ready_checks (limiter_of cfg) lmt ping) = Inr (h, m)"
    and g: "gateway_ok url_parse (routes cfg) (root_gateway h)"
  let ?srv = "http_server_for (server_of cfg)" and ?t = "shutdown_timeout (server_of cfg)"
  let ?closes = "(if backend (limiter_of cfg) = backend_redis then [CloseRedis] else []) @ [CloseListener]"
  let ?steps = "serving_steps ?srv ?t ending @ ?closes"
  have s: "serve url_parse ping cfg ending = (Some (h, lmt, m), ?steps, serving_error ending)"
    using new_limiter_redis [OF l] by (auto simp: serve_def Let_def l h split: backend_limiter.splits)
  have drain: "t = ?t \<and> CloseRedis \<notin> set xs \<and> Drain t \<notin> set xs \<union> set ys \<and>
      (\<forall>srv. StartServing srv \<in> set ?steps \<longrightarrow> (\<exists>us vs. xs = us @ StartServing srv # vs \<and> CloseListener \<in> set vs))"
    if "?steps = xs @ Drain t # ys" for xs ys t
    using that by (cases ending) (fastforce simp: serving_steps_def append_eq_Cons_conv Cons_eq_append_conv split: if_splits)+
  show ?thesis
  proof (intro exI conjI)
    show "serve url_parse ping cfg ending = (Some (h, lmt, m), ?steps, serving_error ending)" by (rule s)
  qed (use g drain in \<open>auto simp: serving_steps_def split: ending.splits\<close>)
qed

text \<open>
  Readiness follows the policy: the redis ping is a readiness check exactly under the redis
  backend with fail_closed, so under fail_open, degrade and the memory backend a redis outage never
  makes \<open>/readyz\<close> fail.
\<close>

theorem readiness_follows_policy:
  assumes "config_ok url_parse cfg" and "serve url_parse ping cfg ending = (Some (h, lmt, m), ss, err)"
  shows "root_checks h =
      (if backend (limiter_of cfg) = backend_redis \<and> on_error (redis (limiter_of cfg)) = on_error_fail_closed
       then [ping] else []) \<and>
    policy (root_gateway h) =
      (if backend (limiter_of cfg) = backend_redis then on_error (redis (limiter_of cfg)) else on_error_fail_open)"
  using assms(1)
proof (rule serve_built [where ping = ping])
  fix lmt' h' m'
  assume l: "new_limiter (limiter_of cfg) (limiter_backend new_metrics) = Inr lmt'"
    and h: "new_handler url_parse cfg new_metrics (ready_checks (limiter_of cfg) lmt' ping) = Inr (h', m')"
    and p: "policy (root_gateway h') = handler_policy (limiter_of cfg)"
    and c: "root_checks h' = ready_checks (limiter_of cfg) lmt' ping"
  have "h = h'" using assms(2) by (auto simp: serve_def Let_def l h split: ending.splits)
  then show ?thesis
    using p c new_limiter_redis [OF l]
    by (auto simp: handler_policy_def ready_checks_def split: backend_limiter.splits)
qed

text \<open>
  The exit code is 0 exactly for a clean end: the configuration loaded, the listener bound, and
  then either \<open>Serve\<close> reported the server closed or a drain ended without error; a configuration
  that does not load or an address that cannot be bound exits with 1 before anything is started.
\<close>

theorem exit_code_clean_end:
  "fst (main_exit read decode url_parse ping listen_on path ending) =
     (case load read decode url_parse path of
        Inl e \<Rightarrow> 1
      | Inr cfg \<Rightarrow>
          if listen_on (listen (server_of cfg)) = None \<and> (serving_error ending = None) then 0 else 1) \<and>
   (snd (main_exit read decode url_parse ping listen_on path ending) = [] \<longleftrightarrow>
     (case load read decode url_parse path of Inl e \<Rightarrow> True | Inr cfg \<Rightarrow> listen_on (listen (server_of cfg)) \<noteq> None))"
proof (cases "load read decode url_parse path")
  case (Inl e)
  then show ?thesis by (simp add: main_exit_def)
next
  case (Inr cfg)
  then have ok: "config_ok url_parse cfg" by (auto simp: load_def parse_Inr split: sum.splits prod.splits)
  show ?thesis
  proof (cases "listen_on (listen (server_of cfg))")
    case None
    show ?thesis using ok
    proof (rule serve_built [where ping = ping])
      fix lmt h m
      assume "new_limiter (limiter_of cfg) (limiter_backend new_metrics) = Inr lmt"
        and "new_handler url_parse cfg new_metrics (ready_checks (limiter_of cfg) lmt ping) = Inr (h, m)"
      then show ?thesis
        by (simp add: main_exit_def run_gateway_def Inr None serve_def Let_def split: backend_limiter.split)
    qed
  next
    case (Some e)
    then show ?thesis by (simp add: main_exit_def run_gateway_def Inr)
  qed
qed

section \<open>Witnesses\<close>

definition redis_config :: config where
  "redis_config = (apply_defaults example_config)
     \<lparr>limiter_of := \<lparr>backend = backend_redis, redis = \<lparr>addr = ''127.0.0.1:6379'', on_error = on_error_fail_closed\<rparr>\<rparr>\<rparr>"

lemma redis_config_ok: "config_ok example_url_parser redis_config"
  using example_config_ok by (auto simp: config_ok_def redis_config_def timeouts_def)

theorem serve_closes_in_order_witness:
  "let steps = fst (snd (serve example_url_parser (\<lambda>t. None) redis_config (Interrupted None)))
   in CloseRedis \<in> set steps \<and> Drain (10 * second) \<in> set steps \<and> last steps = CloseListener"
proof -
  have "shutdown_timeout (server_of redis_config) = 10 * second" "backend (limiter_of redis_config) = backend_redis"
    by (simp_all add: redis_config_def apply_defaults_def server_defaults_def example_config_def default_duration_def)
  then show ?thesis
    using serve_closes_in_order [OF redis_config_ok, of "\<lambda>t. None" "Interrupted None"] by auto
qed

theorem readiness_follows_policy_witness:
  "\<exists>h lmt m ss. serve example_url_parser (\<lambda>t. None) redis_config ServerClosed = (Some (h, lmt, m), ss, None) \<and>
     root_checks h = [\<lambda>t. None]"
proof -
  from redis_config_ok show ?thesis
  proof (rule serve_built [where ping = "\<lambda>t. None"])
    fix lmt h m
    assume "new_limiter (limiter_of redis_config) (limiter_backend new_metrics) = Inr lmt"
      and "new_handler example_url_parser redis_config new_metrics (ready_checks (limiter_of redis_config) lmt (\<lambda>t. None)) = Inr (h, m)"
    then have "\<exists>ss. serve example_url_parser (\<lambda>t. None) redis_config ServerClosed = (Some (h, lmt, m), ss, None)"
      by (simp add: serve_def serving_error_def Let_def)
    then obtain ss where s: "serve example_url_parser (\<lambda>t. None) redis_config ServerClosed = (Some (h, lmt, m), ss, None)"
      by blast
    have "backend (limiter_of redis_config) = backend_redis" "on_error (redis (limiter_of redis_config)) = on_error_fail_closed"
      by (simp_all add: redis_config_def)
    then show ?thesis using readiness_follows_policy [OF redis_config_ok s] s by auto
  qed
qed

end
