(* ===== verification/Mock.thy ===== *)
theory Mock
  imports Http
begin

text \<open>
  The echo upstream of the development setup, \<open>mock/main.go\<close>, with \<open>encoding/json\<close> as far as it needs it:
  strings with their escapes, a map with sorted keys, omitted empty fields. Strings are byte strings;
  a byte that belongs to no valid UTF-8 sequence is replaced by U+FFFD.
\<close>

section \<open>UTF-8\<close>

definition between :: "nat \<Rightarrow> nat \<Rightarrow> char \<Rightarrow> bool" where
  "between a b c \<longleftrightarrow> a \<le> of_char c \<and> of_char c \<le> b"

text \<open>The length of the character at the start, 0 when there is no valid one.\<close>

definition second_range :: "char \<Rightarrow> nat \<times> nat" where
  "second_range c =
     (if c = CHR 0xE0 then (0xA0, 0xBF) else if c = CHR 0xED then (0x80, 0x9F)
      else if c = CHR 0xF0 then (0x90, 0xBF) else if c = CHR 0xF4 then (0x80, 0x8F) else (0x80, 0xBF))"

definition rune_size :: "string \<Rightarrow> nat" where
  "rune_size s =
     (case s of
        [] \<Rightarrow> 0
      | c # cs \<Rightarrow>
          (let n = (if between 0x00 0x7F c then 1 else if between 0xC2 0xDF c then 2
                    else if between 0xE0 0xEF c then 3 else if between 0xF0 0xF4 c then 4 else 0)
           in if n \<le> 1 then n
              else if length s < n then 0
              else if \<not> between (fst (second_range c)) (snd (second_range c)) (hd cs) then 0
              else if \<not> list_all (between 0x80 0xBF) (take (n - 2) (tl cs)) then 0
              else n))"

section \<open>JSON\<close>

definition quote :: char where "quote = CHR 0x22"
definition backslash :: char where "backslash = CHR 0x5C"

definition hex_char :: "nat \<Rightarrow> char" where
  "hex_char n = (if n < 10 then char_of (n + 48) else char_of (n + 87))"

text \<open>One byte below 128, with the escapes of \<open>appendString\<close> for HTML.\<close>

definition short_escapes :: "(char \<times> char) list" where
  "short_escapes =
     [(quote, quote), (backslash, backslash), (CHR 0x08, CHR ''b''), (CHR 0x0C, CHR ''f''), (CHR 0x0A, CHR ''n''),
      (CHR 0x0D, CHR ''r''), (CHR 0x09, CHR ''t'')]"

definition escape :: "char \<Rightarrow> string" where
  "escape c =
     (case map_of short_escapes c of
        Some d \<Rightarrow> [backslash, d]
      | None \<Rightarrow>
          if of_char c < (32 :: nat) \<or> c = CHR ''<'' \<or> c = CHR ''>'' \<or> c = CHR ''&''
          then backslash # ''u00'' @ [hex_char (of_char c div 16), hex_char (of_char c mod 16)]
          else [c])"

definition line_separators :: "(string \<times> string) list" where
  "line_separators =
     [([CHR 0xE2, CHR 0x80, CHR 0xA8], backslash # ''u2028''), ([CHR 0xE2, CHR 0x80, CHR 0xA9], backslash # ''u2029'')]"

function json_body :: "string \<Rightarrow> string" where
  "json_body [] = []"
| "json_body (c # cs) =
     (if of_char c < (128 :: nat) then escape c @ json_body cs
      else if rune_size (c # cs) = 0 then backslash # ''ufffd'' @ json_body cs
      else
        (let n = rune_size (c # cs); r = take n (c # cs)
         in (case map_of line_separators r of Some e \<Rightarrow> e | None \<Rightarrow> r) @ json_body (drop (n - 1) cs)))"
  by pat_completeness auto
termination by (relation "measure length") auto

definition json_string :: "string \<Rightarrow> string" where
  "json_string s = quote # json_body s @ [quote]"

definition commas :: "string list \<Rightarrow> string" where
  "commas xs = (case xs of [] \<Rightarrow> [] | y # ys \<Rightarrow> y @ concat (map (\<lambda>z. CHR '','' # z) ys))"

definition json_strings :: "string list \<Rightarrow> string" where
  "json_strings vs = ''['' @ commas (map json_string vs) @ '']''"

text \<open>A map, by ascending keys, which are compared byte by byte.\<close>

fun before :: "string \<Rightarrow> string \<Rightarrow> bool" where
  "before [] ds = True"
| "before (c # cs) [] = False"
| "before (c # cs) (d # ds) = (if c = d then before cs ds else of_char c < (of_char d :: nat))"

fun insert_field :: "string \<times> string list \<Rightarrow> header \<Rightarrow> header" where
  "insert_field f [] = [f]"
| "insert_field f (g # gs) = (if before (fst f) (fst g) then f # g # gs else g # insert_field f gs)"

definition json_header :: "header \<Rightarrow> string" where
  "json_header h =
     ''{'' @ commas (map (\<lambda>(k, vs). json_string k @ '':'' @ json_strings vs) (foldr insert_field h [])) @ ''}''"

lemma before_total: "before s t \<or> before t s"
proof (induction s t rule: before.induct)
  case (3 c cs d ds)
  have "c = d \<or> (of_char c :: nat) < of_char d \<or> of_char d < (of_char c :: nat)"
    by (metis of_char_eq_iff linorder_neqE_nat)
  then show ?case using 3 by (cases "c = d") auto
qed simp_all

lemma before_trans: "before s t \<Longrightarrow> before t u \<Longrightarrow> before s u"
proof (induction s t arbitrary: u rule: before.induct)
  case (3 c cs d ds)
  then show ?case by (cases u) (auto split: if_splits)
qed simp_all

text \<open>The fields come out sorted, each one once.\<close>

lemma insert_field_sorted:
  "sorted_wrt before (map fst gs) \<Longrightarrow> sorted_wrt before (map fst (insert_field f gs)) \<and> set (insert_field f gs) = insert f (set gs)"
proof (induction gs)
  case (Cons g gs)
  then show ?case
    using before_total [of "fst f" "fst g"] before_trans by (auto split: if_splits)
qed simp

lemma fields_sorted: "sorted_wrt before (map fst (foldr insert_field h [])) \<and> set (foldr insert_field h []) = set h"
  by (induction h) (use insert_field_sorted in auto)

section \<open>The server\<close>

record echo =
  echo_method :: string
  echo_path :: string
  echo_query :: string
  echo_headers :: header

definition json_echo :: "echo \<Rightarrow> string" where
  "json_echo e =
     ''{'' @ commas
       ([json_string ''method'' @ '':'' @ json_string (echo_method e), json_string ''path'' @ '':'' @ json_string (echo_path e)] @
        (if echo_query e = [] then [] else [json_string ''query'' @ '':'' @ json_string (echo_query e)]) @
        [json_string ''headers'' @ '':'' @ json_header (echo_headers e)]) @ ''}''"

definition echo_handler :: "request \<Rightarrow> string \<Rightarrow> writer \<Rightarrow> writer" where
  "echo_handler r raw_query w =
     write_body
       (json_echo \<lparr>echo_method = verb r, echo_path = url_path r, echo_query = raw_query, echo_headers = headers r\<rparr> @ newline)
       (set_header ''X-Upstream'' ''mock'' (set_header ''Content-Type'' ''application/json'' w))"

record mock_server =
  mock_addr :: string
  mock_header_within :: duration

definition default_addr :: string where "default_addr = '':9000''"

definition mock_server_for :: "string option \<Rightarrow> mock_server" where
  "mock_server_for flag =
     \<lparr>mock_addr = (case flag of None \<Rightarrow> default_addr | Some a \<Rightarrow> a), mock_header_within = 5 * second\<rparr>"

text \<open>What \<open>ListenAndServe\<close> returned: none, \<open>ErrServerClosed\<close> or another error; the exit code.\<close>

datatype listen_result = Returned | ClosedByUser | ListenFailed string

definition mock_exit :: "listen_result \<Rightarrow> int" where
  "mock_exit e = (case e of ListenFailed err \<Rightarrow> 1 | _ \<Rightarrow> 0)"

section \<open>Reading a string back\<close>

definition unhex :: "char \<Rightarrow> nat" where
  "unhex c = (if between 48 57 c then of_char c - 48 else of_char c - 87)"

definition utf8 :: "nat \<Rightarrow> string" where
  "utf8 n =
     (if n < 0x80 then [char_of n]
      else if n < 0x800 then [char_of (0xC0 + n div 64), char_of (0x80 + n mod 64)]
      else [char_of (0xE0 + n div 4096), char_of (0x80 + n div 64 mod 64), char_of (0x80 + n mod 64)])"

definition simple_escapes :: "(char \<times> char) list" where
  "simple_escapes = map (\<lambda>(c, d). (d, c)) short_escapes"

text \<open>What a reader makes of the text after the opening quote, up to the closing one, and what follows.\<close>

function read_body :: "string \<Rightarrow> (string \<times> string) option" where
  "read_body [] = None"
| "read_body (c # cs) =
     (if c = quote then Some ([], cs)
      else if c = backslash then
        (case cs of
           [] \<Rightarrow> None
         | d # ds \<Rightarrow>
             if d = CHR ''u'' then
               (case ds of
                  h1 # h2 # h3 # h4 # es \<Rightarrow>
                    map_option (apfst (append (utf8 (((unhex h1 * 16 + unhex h2) * 16 + unhex h3) * 16 + unhex h4)))) (read_body es)
                | _ \<Rightarrow> None)
             else
               (case map_of simple_escapes d of
                  None \<Rightarrow> None
                | Some x \<Rightarrow> map_option (apfst (Cons x)) (read_body ds)))
      else map_option (apfst (Cons c)) (read_body cs))"
  by pat_completeness auto
termination by (relation "measure length") auto

function valid_utf8 :: "string \<Rightarrow> bool" where
  "valid_utf8 [] = True"
| "valid_utf8 (c # cs) = (rune_size (c # cs) \<noteq> 0 \<and> valid_utf8 (drop (rune_size (c # cs) - 1) cs))"
  by pat_completeness auto
termination by (relation "measure length") auto

lemma unhex_hex: "n < 16 \<Longrightarrow> unhex (hex_char n) = n"
  by (auto simp: unhex_def hex_char_def between_def)

lemma append_utf8: "n < 128 \<Longrightarrow> append (utf8 n) = Cons (char_of n)"
  by (simp add: utf8_def fun_eq_iff)

lemma backslash_quote: "backslash \<noteq> quote" "quote \<noteq> backslash"
  by code_simp+

lemma short_escapes_back:
  "map_of short_escapes c = Some d \<Longrightarrow> map_of simple_escapes d = Some c \<and> d \<noteq> CHR ''u''"
proof -
  assume "map_of short_escapes c = Some d"
  then have "(c, d) \<in> set short_escapes" by (rule map_of_SomeD)
  moreover have "list_all (\<lambda>(c, d). map_of simple_escapes d = Some c \<and> d \<noteq> CHR ''u'') short_escapes" by code_simp
  ultimately show ?thesis by (auto simp: list_all_iff)
qed

lemma short_escapes_signs: "map_of short_escapes quote \<noteq> None" "map_of short_escapes backslash \<noteq> None"
  by code_simp+

lemma read_escape:
  assumes "of_char c < (128 :: nat)"
  shows "read_body (escape c @ t) = map_option (apfst (Cons c)) (read_body t)"
proof -
  define n :: nat where "n = of_char c"
  have n: "n < 128" and c: "char_of n = c" using assms by (simp_all add: n_def)
  have u: "unhex (CHR ''0'') = 0" by (simp add: unhex_def between_def)
  have h: "unhex (hex_char (n div 16)) = n div 16" "unhex (hex_char (n mod 16)) = n mod 16"
    using n by (auto intro!: unhex_hex)
  have "((unhex (CHR ''0'') * 16 + unhex (CHR ''0'')) * 16 + unhex (hex_char (n div 16))) * 16 + unhex (hex_char (n mod 16)) = n"
    unfolding u h by simp
  then have hex: "read_body (backslash # CHR ''u'' # CHR ''0'' # CHR ''0'' # hex_char (n div 16) # hex_char (n mod 16) # t)
      = map_option (apfst (Cons c)) (read_body t)"
    using append_utf8 [OF n] c backslash_quote by (simp del: mult_Suc_right)
  show ?thesis
  proof (cases "map_of short_escapes c")
    case None
    then have "c \<noteq> quote" "c \<noteq> backslash" using short_escapes_signs by auto
    then have "read_body (c # t) = map_option (apfst (Cons c)) (read_body t)" by simp
    with None hex show ?thesis by (simp add: escape_def n_def del: read_body.simps)
  next
    case (Some d)
    from short_escapes_back [OF this] have "read_body (backslash # d # t) = map_option (apfst (Cons c)) (read_body t)"
      using backslash_quote by simp
    with Some show ?thesis by (simp add: escape_def del: read_body.simps)
  qed
qed

text \<open>The bytes of a longer character are none of the reader's signs.\<close>

definition high :: "char \<Rightarrow> bool" where
  "high c \<longleftrightarrow> 128 \<le> (of_char c :: nat)"

lemma read_high: "list_all high r \<Longrightarrow> read_body (r @ t) = map_option (apfst (append r)) (read_body t)"
proof (induction r)
  case Nil
  then show ?case by (cases "read_body t") auto
next
  case (Cons c r)
  then have "c \<noteq> quote" "c \<noteq> backslash" by (auto simp: high_def quote_def backslash_def)
  then show ?case using Cons by (cases "read_body t") auto
qed

lemma rune_high:
  assumes "rune_size (c # cs) \<noteq> 0" and "\<not> of_char c < (128 :: nat)"
  shows "list_all high (take (rune_size (c # cs)) (c # cs))" and "2 \<le> rune_size (c # cs)"
proof -
  let ?n = "rune_size (c # cs)"
  define n :: nat where "n = (if between 0x00 0x7F c then 1 else if between 0xC2 0xDF c then 2
      else if between 0xE0 0xEF c then 3 else if between 0xF0 0xF4 c then 4 else 0)"
  have "\<not> between 0x00 0x7F c" using assms(2) by (simp add: between_def)
  then have two: "n = 0 \<or> 2 \<le> n" by (simp add: n_def)
  have size: "?n = (if n \<le> 1 then n else if length (c # cs) < n then 0
      else if \<not> between (fst (second_range c)) (snd (second_range c)) (hd cs) then 0
      else if \<not> list_all (between 0x80 0xBF) (take (n - 2) (tl cs)) then 0 else n)"
    by (simp add: rune_size_def n_def [symmetric] Let_def)
  have n: "?n = n" "2 \<le> n" "n \<le> length (c # cs)" "between (fst (second_range c)) (snd (second_range c)) (hd cs)"
    "list_all (between 0x80 0xBF) (take (n - 2) (tl cs))"
    using assms(1) two unfolding size by (simp_all split: if_splits)
  then obtain d ds where cs: "cs = d # ds" by (cases cs) auto
  have "high d" using n(4) by (auto simp: cs second_range_def between_def high_def split: if_splits)
  moreover have "list_all high (take (n - 2) ds)"
    using n(5) by (auto simp: cs list_all_iff between_def high_def)
  moreover have "high c" using assms(2) by (simp add: high_def)
  moreover have "take n (c # cs) = c # d # take (n - 2) ds" using n(2) cs by (cases n; cases "n - 1") auto
  ultimately show "list_all high (take ?n (c # cs))" "2 \<le> ?n" using n(1,2) by auto
qed

lemma read_separator:
  assumes "map_of line_separators r = Some e"
  shows "read_body (e @ t) = map_option (apfst (append r)) (read_body t)"
proof -
  have h: "unhex (CHR ''0'') = 0" "unhex (CHR ''2'') = 2" "unhex (CHR ''8'') = 8" "unhex (CHR ''9'') = 9"
    by (simp_all add: unhex_def between_def)
  have u: "utf8 8232 = [CHR 0xE2, CHR 0x80, CHR 0xA8]" "utf8 8233 = [CHR 0xE2, CHR 0x80, CHR 0xA9]"
    by (simp_all add: utf8_def char_of_def bit_0)
  have "(r, e) \<in> set line_separators" using assms by (rule map_of_SomeD)
  then consider "r = [CHR 0xE2, CHR 0x80, CHR 0xA8]" "e = backslash # ''u2028''"
    | "r = [CHR 0xE2, CHR 0x80, CHR 0xA9]" "e = backslash # ''u2029''"
    unfolding line_separators_def by auto
  then show ?thesis
  proof cases
    case 1
    show ?thesis unfolding 1 u(1) [symmetric] by (simp add: backslash_def quote_def h)
  next
    case 2
    show ?thesis unfolding 2 u(2) [symmetric] by (simp add: backslash_def quote_def h)
  qed
qed

text \<open>
  Whatever valid text is echoed, its JSON string reads back as that text and ends where it was closed:
  nothing in a method, a path, a query or a header can break out of its string.
\<close>

theorem json_string_reads_back:
  "valid_utf8 s \<Longrightarrow> read_body (json_body s @ quote # t) = Some (s, t)"
proof (induction s rule: json_body.induct)
  case 1
  then show ?case by simp
next
  case (2 c cs)
  let ?n = "rune_size (c # cs)"
  have v: "?n \<noteq> 0" "valid_utf8 (drop (?n - 1) cs)" using "2.prems" by simp_all
  show ?case
  proof (cases "of_char c < (128 :: nat)")
    case True
    then have "?n = 1" by (simp add: rune_size_def between_def)
    then show ?thesis using "2.IH"(1) [OF True] v True by (simp add: read_escape)
  next
    case False
    note h = rune_high [OF v(1) False]
    have IH: "read_body (json_body (drop (?n - 1) cs) @ quote # t) = Some (drop (?n - 1) cs, t)"
      using "2.IH"(3) [OF False v(1) refl refl v(2)] .
    have split: "take ?n (c # cs) @ drop (?n - 1) cs = c # cs" using h(2) by (cases ?n) auto
    have "read_body ((case map_of line_separators (take ?n (c # cs)) of Some e \<Rightarrow> e | None \<Rightarrow> take ?n (c # cs)) @ u)
        = map_option (apfst (append (take ?n (c # cs)))) (read_body u)" for u
      using read_separator read_high [OF h(1)] by (cases "map_of line_separators (take ?n (c # cs))") auto
    then show ?thesis using False v(1) IH split by (simp add: Let_def)
  qed
qed

end
