(* ===== verification/Spec2Isabelle.thy ===== *)
theory Spec2Isabelle
  imports Prelude Float64 GoTime Config Bucket Fixed_Window Sliding_Window Token_Bucket Limiter
    Memory Breaker Scripts Metrics Redis Hooks Keyspace Shared_Bucket Instances Quotas Identity Table Http Duration Gateway Middleware Logs Handler Server
    Mock
begin

text \<open>
  turnike, a rate limiting API gateway in Go (\<open>src/\<close>): its program, translated definition by definition,
  and the theorems that make it correct.

  \<^bold>\<open>The program and its parts.\<close> \<open>cmd/gateway/main.go\<close> loads a YAML configuration, builds a limiter and a
  handler and serves HTTP until it is interrupted. A request passes the root handler
  (\<open>internal/proxy/handler.go\<close>: reserved paths, readiness), the middleware (\<open>middleware.go\<close>: request IDs,
  access log, duration metric) and the gateway (\<open>gateway.go\<close>), which matches the path against the route
  table (\<open>table.go\<close>), derives the client's identity (\<open>identity.go\<close>) and effective limit
  (\<open>internal/config\<close>), asks the limiter, counts the decision (\<open>internal/metrics\<close>) and answers 429 or 503
  or hands the request to the route's reverse proxy. The limiter (\<open>internal/limiter\<close>) is a map of buckets in memory
  or redis scripts behind a circuit breaker, with the in-memory limiter as a fallback under
  \<open>on_error: degrade\<close>.

  \<^bold>\<open>The theories\<close>, in the order of their dependencies:
  \<^item> \<open>Prelude\<close>: 64-bit integers with their wrap-around and saturation, association lists, counting.
  \<^item> \<open>Float64\<close>: IEEE doubles as rationals with one rounding for each operation, and its error bounds.
  \<^item> \<open>GoTime\<close>: wall and monotonic clock readings, \<open>Sub\<close>, \<open>Add\<close>, \<open>Truncate\<close>, durations.
  \<^item> \<open>Config\<close>, \<open>Duration\<close>: \<open>internal/config/config.go\<close>; \<open>parse\<close> is equivalent to the contract
    \<open>config_ok\<close>, \<open>limit_for\<close> gives usable limits, durations read back.
  \<^item> \<open>Bucket\<close>: a decision and the locale \<open>bucket\<close> of one key's state; \<open>Fixed_Window\<close>, \<open>Sliding_Window\<close>,
    \<open>Token_Bucket\<close> (the files of the same names) interpret it and prove their quotas: what is admitted in any
    interval or window, when a denial happens, what \<open>Retry-After\<close> promises.
  \<^item> \<open>Limiter\<close>: the interface with the locale \<open>limiter\<close> (a call returns, keeps the invariant, decides in the
    limit's shape), interpreted by \<open>Memory\<close> (\<open>memory.go\<close>; keys do not disturb each other, capacity) and twice by
    \<open>Redis\<close> (\<open>redis.go\<close>, and the limiter that \<open>New\<close> of \<open>limiter.go\<close> selects).
  \<^item> \<open>Breaker\<close> (\<open>breaker.go\<close>): \<open>admit\<close>, \<open>record\<close>, \<open>do\<close>, the locale \<open>guard\<close> for what redis.go relies on,
    and \<open>call_step\<close>, a step relation for callers that overlap; what an outage costs, recovery.
  \<^item> \<open>Scripts\<close>: the three Lua scripts on a key's value and expiry, with the locale \<open>script\<close>. A \<open>visit\<close> is one execution:
    the server's clock reading and a \<open>sweep\<close>, the reading at which the active expiry has looked at the key since
    the last execution, if it has; a sweep deletes the key when its expiry has passed by that reading. The quota all
    callers of one key share, and what a clock that steps back does to it.
  \<^item> \<open>Metrics\<close> (\<open>internal/metrics/metrics.go\<close>): the four instruments, and the steps of \<open>SetActiveBackend\<close>
    under its mutex.
  \<^item> \<open>Keyspace\<close> and \<open>Instances\<close>: \<open>RedisLimiter.Allow\<close> cut at its critical sections. A \<open>cluster\<close> is the
    instances, the calls in flight and the server's keys; \<open>happen\<close> is one event (a call arrives, makes its next
    move, or its script runs on the server, with the visit). Replies can be lost and scripts can run late. A reply or
    an error may reach a call at any time once it has asked (\<open>Hear\<close>): which one and when is up to the client
    library with its timeouts, so the runs include those of every timeout and bounds hold for all of them, while
    nothing here says that a call returns in time. Each breaker's events are a run of \<open>call_step\<close>; the scripts
    of a key are a run of \<open>Scripts\<close>, the fallback's calls a run of \<open>Memory\<close>, in the order of their
    critical sections. The locale \<open>script_key\<close> is what the server promises for a key (own calls run its script,
    other calls leave it alone), interpreted for each of the three scripts; the history of a key is proved once in it.
    From these follow the bounds on all instances together.
  \<^item> \<open>Shared_Bucket\<close> balances the tokens of a key against the exact refill over the script's doubles, also when the
    key expires or the server's clock steps back. \<open>Quotas\<close>: what the clients of all instances get out of a fixed
    window and a token bucket.
  \<^item> \<open>Identity\<close>, \<open>Table\<close>, \<open>Http\<close> (the response writer), \<open>Gateway\<close>, \<open>Middleware\<close>, \<open>Handler\<close>: the files of
    \<open>internal/proxy\<close>. The gateway's lemmas are proved in the context of \<open>limiter\<close>, for any backend.
  \<^item> \<open>Hooks\<close>: \<open>Instruments\<close> of \<open>limiter.go\<close> and the calls on the hooks, from the boot on: after any run the circuit
    gauge is the breaker's state and the backend gauge names what decided last. \<open>Logs\<close>: the lines a request leaves
    in the log, the breaker's transitions and the proxy's own error lines (which carry no request ID) included; they
    account for the errors that clients and the metrics see.
  \<^item> Around the reverse proxy, \<open>Http\<close> and \<open>Middleware\<close> follow net/http and \<open>httputil\<close> where the source relies on them: no body on a
    response to HEAD, interim 1xx replies (which clear the header map of the final response), an upgrade that
    takes the connection away, a transport that fails before or during the reply.
  \<^item> \<open>Server\<close>: \<open>main.go\<close>, what is built, how the process ends and in which order it closes.
  \<^item> \<open>Mock\<close>: \<open>mock/main.go\<close>, the echo upstream of the development setup, with its JSON; its strings read back.
  \<^item> This theory: what a client gets through the whole program, on the memory backend from the configuration to
    the forwarded requests, and through any number of instances under fail\_closed, for each algorithm.

  \<^bold>\<open>How it is modelled.\<close> A struct is a record with the source's fields, \<open>int\<close> and \<open>time.Duration\<close> are integers
  with their 64-bit wrap-around written out where they can leave the range, a Go error is the left of a sum or an
  option, a runtime panic is \<open>None\<close>. State is passed explicitly; a clock reading is an argument of the operation that
  reads the clock. Critical sections are single steps. Error values stand for the messages of the code. Loops are
  structural recursions, so no fuel is used; \<open>maxKeys\<close> is the parameter \<open>mk\<close>, \<open>max_keys\<close> in production.

  \<^bold>\<open>What comes from outside\<close> is a parameter: YAML decoding and \<open>url.Parse\<close>, SHA-256 (that the fingerprints of two API
  keys differ is a hypothesis, \<open>clients_apart\<close>), random bytes and nonces (that no two calls draw the same nonce in one
  microsecond is a hypothesis), the reply of redis to a call, what an upstream makes of a forwarded request, the text
  exposition, the bytes of the demo page, and \<open>oor\<close>, the platform's conversion of a double outside of \<open>int64\<close>.

  \<^bold>\<open>Assumptions.\<close> Doubles follow amd64, where no multiplication is fused with an addition; infinities and NaN do not
  arise on valid limits. Wall clock readings are unbounded (see \<open>GoTime\<close>). The window scripts' arithmetic is on integers,
  exact in Lua's doubles in the range \<open>lua_exact\<close>; the token bucket's are exact where \<open>token_sized\<close> holds too (a fill
  time under 10 ^ 17 milliseconds, beyond which \<open>PEXPIRE\<close> gets a rounded or refused argument). The redis server
  deletes a key only when its expiry has passed: a flush, an eviction or a failover to an empty replica is not modelled.
  Hypotheses on clocks: \<open>sliding_coh\<close> and \<open>sorted\<close> say that a process's clock does not step back;
  \<open>only_loses\<close> that the server's, as read by scripts and by the active expiry, may only lose time; \<open>no_relapse\<close>
  that it does not step back behind an expired fixed window at whose key the active expiry has looked (\<open>Quotas\<close>
  shows what happens otherwise).

  \<^bold>\<open>Not modelled\<close>: the demo page's script, container and benchmark files (no Go code); \<open>ServeMux\<close> in front of the mock;
  log lines that belong to no request or transition (boot, shutdown, script loading, readiness); the demand that a call
  returns within the timeouts of the redis client; flags, sockets, signals and
  \<open>Shutdown\<close>, which are events of \<open>Server\<close>; \<open>Ping\<close> and \<open>Close\<close> of the redis client, a parameter and a step
  there; \<open>Unwrap\<close>; the registry and exposition of Prometheus.
\<close>

section \<open>One client, one bucket, one limit\<close>

text \<open>The clients of a run: the identities behind its requests, with fingerprints that do not collide.\<close>

definition clients_apart :: "(string \<Rightarrow> nat list) \<Rightarrow> request list \<Rightarrow> bool" where
  "clients_apart sha rs \<longleftrightarrow>
     (\<forall>r \<in> set rs. well_formed (identity_for r)) \<and>
     (\<forall>r \<in> set rs. \<forall>q \<in> set rs.
        kind (identity_for r) = kind_key \<and> kind (identity_for q) = kind_key \<and>
        hex_encode (take 8 (sha (ident (identity_for r)))) = hex_encode (take 8 (sha (ident (identity_for q)))) \<longrightarrow>
        ident (identity_for r) = ident (identity_for q))"

lemma same_bucket_same_client:
  assumes "clients_apart sha rs" and "r \<in> set rs" and "q \<in> set rs"
    and "bucket_key sha p (identity_for r) = bucket_key sha p' (identity_for q)"
  shows "p = p' \<and> identity_for r = identity_for q"
proof -
  have w: "well_formed (identity_for r)" "well_formed (identity_for q)"
    using assms(1-3) by (auto simp: clients_apart_def)
  note b = bucket_key_inj [OF w assms(4)]
  have "ident (identity_for r) = ident (identity_for q)"
  proof (cases "kind (identity_for r) = kind_ip")
    case False
    then have k: "kind (identity_for r) = kind_key" using w(1) by (auto simp: well_formed_def)
    then have "hex_encode (take 8 (sha (ident (identity_for r)))) = hex_encode (take 8 (sha (ident (identity_for q))))"
      using b by (auto simp: identity_string_def)
    then show ?thesis using assms(1-3) b k unfolding clients_apart_def by metis
  qed (use b in simp)
  then show ?thesis using b by simp
qed

lemma same_bucket_same_limit:
  assumes "gateway_ok url_parse rs g" and "clients_apart sha qs" and "r \<in> set qs" and "q \<in> set qs"
    and "routed_entry g r = Some e" and "routed_entry g q = Some d" and "asked_key sha e r = asked_key sha d q"
  shows "asked_limit e r = asked_limit d q"
proof -
  note b = same_bucket_same_client [OF assms(2-4) assms(7) [unfolded asked_key_def]]
  have "e \<in> set (new_table rs)" "d \<in> set (new_table rs)"
    using assms(1,5,6) find_longest [OF _ new_table_sorted]
    by (auto simp: gateway_ok_def routed_entry_Some match_def)
  moreover have "distinct (map entry_prefix (new_table rs))"
    using assms(1) new_table_prefixes by (auto simp: gateway_ok_def routes_ok_def)
  ultimately have "e = d" using b by (metis distinct_map inj_onD)
  then show ?thesis using b by (simp add: asked_limit_def)
qed

text \<open>The limiter calls of a run of the gateway therefore follow a plan, one limit for each key.\<close>

lemma limiter_calls_set:
  "(env, k, l) \<in> set (limiter_calls sha g qs) \<longleftrightarrow>
     (\<exists>r w e. (env, r, w) \<in> set qs \<and> routed_entry g r = Some e \<and> k = asked_key sha e r \<and> l = asked_limit e r)"
  by (induction sha g qs rule: limiter_calls.induct) (auto split: option.split)

lemma limiter_calls_planned:
  assumes "gateway_ok url_parse rs g" and "clients_apart sha (map (fst \<circ> snd) qs)"
  shows "\<exists>plan. \<forall>(env, k, l) \<in> set (limiter_calls sha g qs). plan k = l"
proof -
  have u: "l = l'" if "(env, k, l) \<in> set (limiter_calls sha g qs)" "(env', k, l') \<in> set (limiter_calls sha g qs)"
    for env env' k l l'
  proof -
    obtain r w e where r: "(env, r, w) \<in> set qs" "routed_entry g r = Some e" "k = asked_key sha e r" "l = asked_limit e r"
      using \<open>(env, k, l) \<in> _\<close> unfolding limiter_calls_set by blast
    obtain q x d where q: "(env', q, x) \<in> set qs" "routed_entry g q = Some d" "k = asked_key sha d q" "l' = asked_limit d q"
      using \<open>(env', k, l') \<in> _\<close> unfolding limiter_calls_set by blast
    have "r \<in> set (map (fst \<circ> snd) qs)" "q \<in> set (map (fst \<circ> snd) qs)" using r(1) q(1) by force+
    then show ?thesis using same_bucket_same_limit [OF assms] r q by metis
  qed
  let ?plan = "\<lambda>k. SOME l. \<exists>env. (env, k, l) \<in> set (limiter_calls sha g qs)"
  have "?plan k = l" if "(env, k, l) \<in> set (limiter_calls sha g qs)" for env k l
  proof -
    have "\<exists>env. (env, k, ?plan k) \<in> set (limiter_calls sha g qs)" by (rule someI) (rule exI, rule that)
    then obtain env' where e: "(env', k, ?plan k) \<in> set (limiter_calls sha g qs)" ..
    show ?thesis by (rule u [OF e that])
  qed
  then show ?thesis by (intro exI [of _ ?plan]) auto
qed

section \<open>What a client gets through\<close>

text \<open>The bucket a request is charged to, if it is routed.\<close>

definition bucket_of :: "(string \<Rightarrow> nat list) \<Rightarrow> gateway \<Rightarrow> request \<Rightarrow> string option" where
  "bucket_of sha g r = map_option (\<lambda>e. asked_key sha e r) (routed_entry g r)"

text \<open>The clock readings at which requests of the bucket \<open>k\<close> were forwarded.\<close>

fun forwards_of :: "(string \<Rightarrow> nat list) \<Rightarrow> gateway \<Rightarrow> string \<Rightarrow> (redis_call \<times> request \<times> writer) list \<Rightarrow> handled list \<Rightarrow> gotime list" where
  "forwards_of sha g k ((env, r, w) # qs) (h # hs) =
     (if bucket_of sha g r = Some k \<and> forwarded h
      then fallback_at env # forwards_of sha g k qs hs else forwards_of sha g k qs hs)"
| "forwards_of sha g k qs hs = []"

lemma forwards_granted:
  assumes "list_all2 (\<lambda>h a. forwarded h \<longleftrightarrow> (case a of Inl x \<Rightarrow> b | Inr d \<Rightarrow> allowed d)) (limited g qs hs) as"
    and "length hs = length qs" and "\<forall>e. Inl e \<notin> set as"
  shows "forwards_of sha g k qs hs =
    granted (zip (asked k (fallback_calls (limiter_calls sha g qs))) (answers_for k (fallback_calls (limiter_calls sha g qs)) as))"
  using assms
proof (induction qs arbitrary: hs as)
  case Nil
  then show ?case by (simp add: fallback_calls_def bucket_of_def granted_def)
next
  case (Cons q qs)
  obtain env r w where q: "q = (env, r, w)" by (cases q) auto
  obtain h hs' where hs: "hs = h # hs'" and l: "length hs' = length qs" using Cons.prems(2) by (cases hs) auto
  show ?case
  proof (cases "routed_entry g r")
    case None
    then show ?thesis using Cons.IH [of hs' as] Cons.prems l by (simp add: q hs fallback_calls_def bucket_of_def)
  next
    case (Some e)
    then obtain a as' where as: "as = a # as'"
      and rel: "forwarded h \<longleftrightarrow> (case a of Inl x \<Rightarrow> b | Inr d \<Rightarrow> allowed d)"
      and rest: "list_all2 (\<lambda>h a. forwarded h \<longleftrightarrow> (case a of Inl x \<Rightarrow> b | Inr d \<Rightarrow> allowed d)) (limited g qs hs') as'"
      using Cons.prems(1) by (auto simp: q hs list_all2_Cons1)
    obtain d where d: "a = Inr d" using Cons.prems(3) as by (cases a) auto
    have "\<forall>e. Inl e \<notin> set as'" using Cons.prems(3) as by simp
    from Cons.IH [OF rest l this] rel Some show ?thesis
      by (simp add: q hs as d fallback_calls_def bucket_of_def granted_def)
  qed
qed

lemma gateway_run_length: "gateway_run allow sha oor g s m qs = Some (s', m', hs) \<Longrightarrow> length hs = length qs"
  by (induction qs arbitrary: s m hs) (auto split: option.splits)

lemma serve_memory:
  assumes "config_ok url_parse cfg" and "backend (limiter_of cfg) = backend_memory"
    and "serve url_parse ping cfg ending = (Some (h, b, m), ss, err)"
  shows "\<exists>g. b = MemoryBackend new_memory_limiter g \<and> gateway_ok url_parse (routes cfg) (root_gateway h)"
  using assms(1)
proof (rule serve_built [where ping = ping])
  fix b' h' m'
  assume b: "new_limiter (limiter_of cfg) (limiter_backend new_metrics) = Inr b'"
    and h: "new_handler url_parse cfg new_metrics (ready_checks (limiter_of cfg) b' ping) = Inr (h', m')"
    and g: "gateway_ok url_parse (routes cfg) (root_gateway h')"
  have "h = h'" "b = b'" using assms(3) by (auto simp: serve_def Let_def b h split: ending.splits)
  then show ?thesis using b g assms(2) by (auto simp: new_limiter_def)
qed

section \<open>Many instances under fail\_closed\<close>

text \<open>Every call in flight is that of a request which the gateway routed to its bucket.\<close>

definition serving :: "(string \<Rightarrow> nat list) \<Rightarrow> gateway \<Rightarrow> (nat \<Rightarrow> request) \<Rightarrow> cluster \<Rightarrow> bool" where
  "serving sha g req s \<longleftrightarrow>
     (\<forall>n < length (flights s). \<exists>e. routed_entry g (req n) = Some e \<and>
        call_key (flights s ! n) = asked_key sha e (req n) \<and> call_limit (flights s ! n) = asked_limit e (req n))"

text \<open>What the gateway does with the request once its call has returned.\<close>

definition lets_through :: "(float64 \<Rightarrow> int) \<Rightarrow> gateway \<Rightarrow> (nat \<Rightarrow> request) \<Rightarrow> writer \<Rightarrow> cluster \<Rightarrow> nat \<Rightarrow> bool" where
  "lets_through oor g req w s n =
     (case phase (flights s ! n) of
        Done a \<Rightarrow>
          (case routed_entry g (req n) of
             None \<Rightarrow> False
           | Some e \<Rightarrow> (case after_decision oor g e a w of None \<Rightarrow> False | Some h \<Rightarrow> forwarded h))
      | _ \<Rightarrow> False)"

text \<open>The forwarded requests of a bucket, by the execution of their script.\<close>

definition forwarded_runs :: "(string \<Rightarrow> nat list) \<Rightarrow> (float64 \<Rightarrow> int) \<Rightarrow> gateway \<Rightarrow> (nat \<Rightarrow> request) \<Rightarrow> writer \<Rightarrow> cluster \<Rightarrow>
    string \<Rightarrow> happening list \<Rightarrow> (nat \<times> visit \<times> int) list" where
  "forwarded_runs sha oor g req w s k es =
     filter (\<lambda>(n, vis, x). bucket_of sha g (req n) = Some k \<and> lets_through oor g req w s n) (executions es)"

lemma fail_closed_forwards:
  assumes "policy g = on_error_fail_closed" and "after_decision oor g e a w = Some h" and "forwarded h"
  obtains d where "a = Inr d" "allowed d"
proof (cases a)
  case (Inl x)
  then show ?thesis using assms by (auto simp: after_decision_def forwarded_def)
next
  case (Inr d)
  then show ?thesis using assms that by (cases "allowed d") (auto simp: after_decision_def forwarded_def)
qed

lemma no_fallback_no_degrade:
  assumes "reached mk oor plan cs es s" and "\<forall>(cfg, x) \<in> set cs. on_error cfg \<noteq> on_error_degrade"
  shows "\<forall>n < length (flights s). fell (flights s ! n) = None"
proof -
  have none: "fallback r = None" if "r \<in> set (gates (boot cs))" for r
    using that assms(2) by (auto simp: boot_def new_redis_limiter_def)
  have "(\<forall>r \<in> set (gates s). fallback r = None) \<and> (\<forall>c \<in> set (flights s). fell c = None)"
    using assms(1)
  proof (induction rule: reached_induct)
    case boot
    then show ?case using none by (simp add: boot_def)
  next
    case (step es s e s')
    show ?case
    proof (cases e)
      case (Arrive i k l nc)
      then show ?thesis using step.IH step.hyps(3) by (auto simp: arrive_Some new_call_def)
    next
      case (Execute n vis x)
      then have "execute n vis s = Some s'" using step.hyps(3) by simp
      from execute_cases [OF this step.hyps(2)] obtain vals ks where "n < length (flights s)"
        "s' = s\<lparr>shared := ks, flights := (flights s)[n := (flights s ! n)\<lparr>ran := Some vals\<rparr>]\<rparr>" by metis
      then show ?thesis using step.IH by (auto dest!: in_list_update)
    next
      case (Move n mv)
      let ?c = "flights s ! n"
      obtain r c where n: "n < length (flights s)"
        and a: "advance mk oor mv (gates s ! gate ?c) ?c = Some (r, c)"
        and s': "s' = s\<lparr>gates := (gates s)[gate ?c := r], flights := (flights s)[n := c]\<rparr>"
        using step.hyps(3) Move by (auto simp: make_move_Some)
      have f: "gate ?c < length (gates s)" using flight_ok [OF step.hyps(2) n] by blast
      then have "fallback (gates s ! gate ?c) = None" "fell ?c = None" using step.IH n by auto
      then have "fallback r = None \<and> fell c = None"
        using a by (cases mv; auto simp: advance_defs falls_back_def split: phase.splits sum.splits if_splits prod.splits option.splits)
      then show ?thesis using step.IH by (auto simp: s' dest!: in_list_update)
    qed
  qed
  then show ?thesis by simp
qed

section \<open>Properties\<close>

text \<open>
  C1. The promise to an upstream, through every part of the gateway: built from an accepted
  configuration on the memory backend, the requests of one client for a sliding-window route are
  forwarded at most rate times in any interval of one window's length, wherever the interval starts and
  however the requests of other clients come in between, under three conditions: the keys asked by all
  clients of the run together are at most \<open>maxKeys\<close> (with a full key map the limiter errs and the gateway
  fails open by design, unless its policy is fail\_closed), no two API keys presented share a fingerprint,
  and the process clock does not step back.
\<close>

theorem forwards_at_most_rate:
  assumes "config_ok url_parse cfg" and "backend (limiter_of cfg) = backend_memory"
    and "serve url_parse ping cfg ending = (Some (h, b, m), ss, err)"
    and "gateway_run (backend_allow max_keys oor) sha oor (root_gateway h) b m qs = Some (b', m', hs)"
    and "clients_apart sha (map (fst \<circ> snd) qs)"
    and "\<forall>(env, k, l) \<in> set (limiter_calls sha (root_gateway h) qs). serves l"
    and "card (state_keys (limiter_calls sha (root_gateway h) qs)) \<le> max_keys"
    and "(env0, k, l) \<in> set (limiter_calls sha (root_gateway h) qs)" and "serves_sliding l"
    and "\<forall>t \<in> set (asked k (fallback_calls (limiter_calls sha (root_gateway h) qs))). sliding_coh c l t"
    and "sorted (map instant (asked k (fallback_calls (limiter_calls sha (root_gateway h) qs))))"
  shows "int (length (filter (\<lambda>t. x < instant t \<and> instant t \<le> x + window l)
      (forwards_of sha (root_gateway h) k qs hs))) \<le> rate l"
proof -
  let ?g = "root_gateway h"
  let ?calls = "fallback_calls (limiter_calls sha ?g qs)"
  obtain g0 where b: "b = MemoryBackend new_memory_limiter g0" and g: "gateway_ok url_parse (routes cfg) ?g"
    using serve_memory [OF assms(1-3)] by blast
  obtain as where as: "allow_all (backend_allow max_keys oor) b (limiter_calls sha ?g qs) = Some (b', as)"
    and rel: "list_all2 (\<lambda>h a. forwarded h \<longleftrightarrow> (case a of Inl x \<Rightarrow> policy ?g \<noteq> on_error_fail_closed | Inr d \<Rightarrow> allowed d))
      (limited ?g qs hs) as"
    using gateway_run_calls [OF assms(4)] by blast
  obtain mem where mem: "allow_all (memory_allow max_keys oor) new_memory_limiter ?calls = Some (mem, as)"
    using as unfolding b backend_memory_run by auto
  obtain plan where plan: "\<forall>(env, k, l) \<in> set (limiter_calls sha ?g qs). plan k = l"
    using limiter_calls_planned [OF g assms(5)] by blast
  have P: "\<forall>(t, j, l) \<in> set ?calls. plan j = l \<and> serves l"
    using plan assms(6) by (auto simp: fallback_calls_def)
  then have P': "\<forall>(t, j, l) \<in> set ?calls. planned plan t j l" by (auto simp: planned_def)
  have pk: "plan k = l" using plan assms(8) by auto
  have "state_keys ?calls = state_keys (limiter_calls sha ?g qs)"
    by (force simp: state_keys_def fallback_calls_def)
  then have "\<forall>e. Inl e \<notin> set as" using roomy_no_errors [OF P' mem] assms(7) by simp
  from forwards_granted [OF rel gateway_run_length [OF assms(4)] this, of sha k]
    sliding_shared_memory [OF P, of k c, OF _ _ _ mem, of x] assms(9-11)
  show ?thesis by (simp add: pk)
qed

text \<open>
  C20. A bucket is one client's and has one limit: two requests that the gateway charges to the same
  bucket come from the same client and are charged under the same limit, given that no two of the
  API keys presented share a fingerprint; so a client's quota is never the other's to spend, nor
  charged under two rates.
\<close>

theorem one_limit_per_bucket:
  assumes "gateway_ok url_parse rs g" and "clients_apart sha qs" and "r \<in> set qs" and "q \<in> set qs"
    and "routed_entry g r = Some e" and "routed_entry g q = Some d" and "asked_key sha e r = asked_key sha d q"
  shows "identity_for r = identity_for q \<and> asked_limit e r = asked_limit d q"
  using same_bucket_same_client [OF assms(2-4) assms(7) [unfolded asked_key_def]] same_bucket_same_limit [OF assms]
  by simp

text \<open>Under fail\_closed a forwarded request is one that redis has granted, whatever the algorithm.\<close>

lemma fail_closed_granted:
  assumes "policy g = on_error_fail_closed" and "\<forall>(cfg, x) \<in> set cs. on_error cfg = on_error_fail_closed"
    and r: "reached mk oor plan cs es s" and n: "n < length (flights s)" and l: "lets_through oor g req w s n"
  obtains d where "phase (flights s ! n) = Done (Inr d)" and "allowed d" and "\<not> degraded d" and "ran (flights s ! n) \<noteq> None"
proof -
  have fell: "\<forall>n < length (flights s). fell (flights s ! n) = None"
    by (rule no_fallback_no_degrade [OF r]) (use assms(2) in \<open>auto simp: on_error_defs\<close>)
  obtain a e h where p: "phase (flights s ! n) = Done a" and h: "after_decision oor g e a w = Some h" "forwarded h"
    using l by (auto simp: lets_through_def split: phase.splits option.splits)
  obtain d where d: "a = Inr d" "allowed d" by (rule fail_closed_forwards [OF assms(1) h])
  have "call_ok plan (flights s ! n)" using flight_ok [OF reached_inv [OF r] n] by blast
  then show ?thesis using p d fell n by (intro that [of d]) (auto simp: call_ok_def phase_ok_def split: if_splits)
qed

lemma forwarded_are_grants:
  assumes "policy g = on_error_fail_closed" and "\<forall>(cfg, x) \<in> set cs. on_error cfg = on_error_fail_closed"
    and r: "reached mk oor plan cs es s" and "serving sha g req s"
  shows "length (filter Q (forwarded_runs sha oor g req w s k es)) \<le> length (filter Q (redis_grants s k es))"
  unfolding forwarded_runs_def redis_grants_def on_key_def filter_filter
proof (rule length_filter_mono)
  fix q
  assume e: "q \<in> set (executions es)"
    and f: "(case q of (n, vis, x) \<Rightarrow> bucket_of sha g (req n) = Some k \<and> lets_through oor g req w s n) \<and> Q q"
  obtain n vis x where q: "q = (n, vis, x)" by (cases q) auto
  have n: "n < length (flights s)" using executed [OF r] e q by blast
  then have "call_key (flights s ! n) = k" using assms(4) f by (auto simp: q serving_def bucket_of_def)
  moreover have "lets_through oor g req w s n" using f by (simp add: q)
  ultimately show "((case q of (n, x) \<Rightarrow> call_key (flights s ! n) = k) \<and>
      (case q of (n, vis, x) \<Rightarrow> case phase (flights s ! n) of Done (Inr d) \<Rightarrow> allowed d \<and> \<not> degraded d | _ \<Rightarrow> False)) \<and> Q q"
    using f by (auto simp: q elim!: fail_closed_granted [OF assms(1,2) r n])
qed

text \<open>
  C3. Under fail\_closed the promise is the same for any number of instances on one redis, for the key of
  a sliding-window route, and no failure of a call weakens it: however calls interleave, time out, lose
  replies or find circuits open, the requests forwarded to the upstream for that bucket are at most rate
  in any true interval of one window, if the server's clock does no more than lose time and no two calls
  draw the same nonce in one microsecond, and none is forwarded whose script has not run. The
  window is at least a microsecond and the script's numbers are within Lua's exact range.
\<close>

theorem fail_closed_never_over_admits:
  assumes "policy g = on_error_fail_closed" and "\<forall>(cfg, x) \<in> set cs. on_error cfg = on_error_fail_closed"
    and "cluster_run mk oor (boot cs) es = Some s" and "\<forall>e \<in> set es. planned_arrival plan e"
    and "serving sha g req s" and "serves_sliding (plan k)" and "whole_micros (plan k)"
    and "lua_exact (plan k) (map clock_at (timed_calls s k es))"
    and "distinct (map stamp (timed_calls s k es))" and "sorted_wrt only_loses (timed_calls s k es)"
  shows "int (length (filter (\<lambda>(n, vis, x). y < x \<and> x \<le> y + script_window (plan k))
      (forwarded_runs sha oor g req w s k es))) \<le> rate (plan k) \<and>
    (\<forall>n < length (flights s). lets_through oor g req w s n \<longrightarrow> ran (flights s ! n) \<noteq> None)"
proof -
  have r: "reached mk oor plan cs es s" using assms(3,4) by (simp add: reached_def)
  have "ran (flights s ! n) \<noteq> None" if "n < length (flights s)" "lets_through oor g req w s n" for n
    by (rule fail_closed_granted [OF assms(1,2) r that])
  moreover note redis_quota [OF r assms(6,7,9,10), of y]
    forwarded_are_grants [OF assms(1,2) r assms(5), where Q = "\<lambda>(n, vis, x). y < x \<and> x \<le> y + script_window (plan k)" and w = w and k = k]
  ultimately show ?thesis by fastforce
qed

text \<open>The same for the other two algorithms, with the bounds of \<open>Quotas\<close>.\<close>

theorem fail_closed_fixed_window:
  assumes "policy g = on_error_fail_closed" and "\<forall>(cfg, x) \<in> set cs. on_error cfg = on_error_fail_closed"
    and "cluster_run mk oor (boot cs) es = Some s" and "\<forall>e \<in> set es. planned_arrival plan e"
    and "serving sha g req s" and "serves_fixed (plan k)" and "whole_micros (plan k)"
    and "no_relapse (script_window (plan k)) (script_calls s k es)"
  shows "int (length (filter (\<lambda>(n, vis, x). returned_until z (flights s ! n)) (forwarded_runs sha oor g req w s k es)))
    \<le> rate (plan k)"
proof -
  have r: "reached mk oor plan cs es s" using assms(3,4) by (simp add: reached_def)
  from forwarded_are_grants [OF assms(1,2) r assms(5),
      where Q = "\<lambda>(n, vis, x). returned_until z (flights s ! n)" and w = w and k = k]
    fixed_window_grants [OF r assms(6-8), of z]
  show ?thesis by linarith
qed

theorem fail_closed_token_bucket:
  assumes "policy g = on_error_fail_closed" and "\<forall>(cfg, x) \<in> set cs. on_error cfg = on_error_fail_closed"
    and "cluster_run mk oor (boot cs) es = Some s" and "\<forall>e \<in> set es. planned_arrival plan e"
    and "serving sha g req s" and "serves_token (plan k)" and "whole_micros (plan k)" and "token_sized (plan k)"
    and "lua_exact (plan k) (map clock_at (timed_calls s k es))"
    and "sorted_wrt only_loses (timed_calls s k es)" and "y \<le> z"
  shows "of_nat (length (filter (\<lambda>(n, vis, x). y < x \<and> x \<le> z) (forwarded_runs sha oor g req w s k es))) * (1 - 2 / 10 ^ 9)
    \<le> of_int (burst (plan k))
      + of_int (rate (plan k)) * of_int (z - y) / of_int (script_window (plan k)) * (1 + 1 / 2 ^ 49)
      + of_nat (length (filter (\<lambda>q. y < snd q \<and> snd q \<le> z) (timed_calls s k es)))
          * (of_int (burst (plan k)) / (2 ^ 51 :: rat))"
proof -
  have r: "reached mk oor plan cs es s" using assms(3,4) by (simp add: reached_def)
  have "(of_nat (length (filter (\<lambda>(n, vis, x). y < x \<and> x \<le> z) (forwarded_runs sha oor g req w s k es))) :: rat) * (1 - 2 / 10 ^ 9)
      \<le> of_nat (length (filter (\<lambda>(n, vis, x). y < x \<and> x \<le> z) (redis_grants s k es))) * (1 - 2 / 10 ^ 9)"
    using forwarded_are_grants [OF assms(1,2) r assms(5),
      where Q = "\<lambda>(n, vis, x). y < x \<and> x \<le> z" and w = w and k = k]
    by (intro mult_right_mono) simp_all
  from order_trans [OF this token_bucket_grants [OF r assms(6,7,9-11)]] show ?thesis .
qed

section \<open>Witnesses\<close>

definition search_entry :: entry where
  "search_entry = \<lparr>entry_prefix = ''/search'', entry_route = demo_routes ! 1\<rparr>"

definition search_arrivals :: "(redis_call \<times> request \<times> writer) list" where
  "search_arrivals = [(refused_call 100, demo_request ''/search/q'', empty_writer), (refused_call 200, demo_request ''/search/q'', empty_writer)]"

lemma search_routed:
  assumes "gateway_ok example_url_parser demo_routes g"
  shows "routed_entry g (demo_request ''/search/q'') = Some search_entry"
proof -
  have "match (new_table demo_routes) ''/search/q'' = Some search_entry" "\<not> has_dot_segments ''/search/q''"
    by code_simp+
  then show ?thesis using assms by (simp add: routed_entry_Some demo_request_def gateway_ok_def)
qed

lemma search_asked: "asked_limit search_entry (demo_request ''/search/q'') = search_limit"
  "asked_key toy_digest search_entry (demo_request ''/search/q'') = ''/search:ip:10.0.0.1''"
  "identity_for (demo_request ''/search/q'') = \<lparr>kind = kind_ip, ident = ''10.0.0.1''\<rparr>"
  by code_simp+

lemma search_apart: "clients_apart toy_digest [demo_request ''/search/q'', demo_request ''/search/q'']"
  by (simp add: clients_apart_def search_asked well_formed_def ip_text_def)

lemma search_calls:
  assumes "gateway_ok example_url_parser demo_routes g"
  shows "limiter_calls toy_digest g search_arrivals =
    [(refused_call 100, ''/search:ip:10.0.0.1'', search_limit), (refused_call 200, ''/search:ip:10.0.0.1'', search_limit)]"
  by (simp add: search_arrivals_def search_routed [OF assms] search_asked)

text \<open>
  A client with an overridden API key from two addresses, with two methods and two paths of one route,
  and another client on one of the two addresses.
\<close>

definition keyed_request :: "string \<Rightarrow> string \<Rightarrow> string \<Rightarrow> string \<Rightarrow> request" where
  "keyed_request v p key address =
     \<lparr>verb = v, url_path = p, escaped_path = p, headers = [(''X-Api-Key'', [key])], remote_addr = address\<rparr>"

definition from_home :: request where
  "from_home = keyed_request ''GET'' ''/api/users'' ''demo-premium-key'' ''10.0.0.1:4711''"

definition from_work :: request where
  "from_work = keyed_request ''POST'' ''/api/orders/7'' ''demo-premium-key'' ''[2001:db8::1]:40312''"

definition colleague :: request where
  "colleague = keyed_request ''GET'' ''/api/users'' ''demo-basic-key'' ''[2001:db8::1]:40313''"

definition api_entry :: entry where
  "api_entry = \<lparr>entry_prefix = ''/api'', entry_route = demo_routes ! 0\<rparr>"

lemma keyed_routed:
  assumes "gateway_ok example_url_parser demo_routes g"
  shows "routed_entry g from_home = Some api_entry" "routed_entry g from_work = Some api_entry"
proof -
  have "match (new_table demo_routes) (escaped_path from_home) = Some api_entry" "\<not> has_dot_segments (url_path from_home)"
    "match (new_table demo_routes) (escaped_path from_work) = Some api_entry" "\<not> has_dot_segments (url_path from_work)"
    by code_simp+
  then show "routed_entry g from_home = Some api_entry" "routed_entry g from_work = Some api_entry"
    using assms by (simp_all add: routed_entry_Some gateway_ok_def from_home_def from_work_def keyed_request_def)
qed

lemma keyed_identities:
  "identity_for from_home = \<lparr>kind = kind_key, ident = ''demo-premium-key''\<rparr>"
  "identity_for from_work = \<lparr>kind = kind_key, ident = ''demo-premium-key''\<rparr>"
  "identity_for colleague = \<lparr>kind = kind_key, ident = ''demo-basic-key''\<rparr>"
  "hex_encode (take 8 (toy_digest ''demo-premium-key'')) \<noteq> hex_encode (take 8 (toy_digest ''demo-basic-key''))"
  "asked_key toy_digest api_entry from_home = asked_key toy_digest api_entry from_work"
  by code_simp+

lemma keyed_apart: "clients_apart toy_digest [from_home, colleague, from_work]"
  using keyed_identities(4) keyed_identities(4) [THEN not_sym] by (auto simp: clients_apart_def keyed_identities well_formed_def)

theorem one_limit_per_bucket_witness:
  "from_home \<noteq> from_work \<and> remote_addr from_home \<noteq> remote_addr from_work \<and>
   identity_for from_home = identity_for from_work \<and>
   asked_limit api_entry from_home = asked_limit api_entry from_work"
proof -
  have "remote_addr from_home \<noteq> remote_addr from_work"
    by (simp add: from_home_def from_work_def keyed_request_def)
  moreover from this have "from_home \<noteq> from_work" by metis
  moreover have "identity_for from_home = identity_for from_work \<and>
      asked_limit api_entry from_home = asked_limit api_entry from_work"
    by (rule one_limit_per_bucket [OF demo_gateway_ok(1) keyed_apart _ _ keyed_routed(1) [OF demo_gateway_ok(1)]
        keyed_routed(2) [OF demo_gateway_ok(1)] keyed_identities(5)]) simp_all
  ultimately show ?thesis by simp
qed

theorem forwards_at_most_rate_witness:
  "\<exists>h b m ss b' m' hs.
     serve example_url_parser (\<lambda>t. None) (apply_defaults example_config) ServerClosed = (Some (h, b, m), ss, None) \<and>
     gateway_run (backend_allow max_keys no_range) toy_digest no_range (root_gateway h) b m search_arrivals = Some (b', m', hs) \<and>
     int (length (filter (\<lambda>t. 0 < instant t \<and> instant t \<le> 0 + window search_limit)
       (forwards_of toy_digest (root_gateway h) ''/search:ip:10.0.0.1'' search_arrivals hs))) \<le> rate search_limit"
proof -
  let ?cfg = "apply_defaults example_config"
  have mem: "backend (limiter_of ?cfg) = backend_memory" by code_simp
  from example_config_ok show ?thesis
  proof (rule serve_built [where ping = "\<lambda>t. None"])
    fix b h m
    assume b: "new_limiter (limiter_of ?cfg) (limiter_backend new_metrics) = Inr b"
      and h: "new_handler example_url_parser ?cfg new_metrics (ready_checks (limiter_of ?cfg) b (\<lambda>t. None)) = Inr (h, m)"
      and "gateway_ok example_url_parser (routes ?cfg) (root_gateway h)"
    then have g: "gateway_ok example_url_parser demo_routes (root_gateway h)" by (simp add: demo_routes_def)
    obtain ss where s: "serve example_url_parser (\<lambda>t. None) ?cfg ServerClosed = (Some (h, b, m), ss, None)"
      using b h by (simp add: serve_def serving_error_def Let_def)
    have good: "redis_good (\<lambda>k. search_limit) env (asked_key toy_digest e r) (asked_limit e r)"
      if "(env, r, w) \<in> set search_arrivals" "routed_entry (root_gateway h) r = Some e" for env r w e
      using that by (auto simp: search_arrivals_def search_routed [OF g] search_asked redis_good_def planned_def
          search_serves refused_call_def)
    have "\<exists>b' m' hs. gateway_run (backend_allow max_keys no_range) toy_digest no_range (root_gateway h) b m search_arrivals
        = Some (b', m', hs) \<and> backend_inv max_keys (\<lambda>k. search_limit) b' \<and> length hs = length search_arrivals"
      by (rule bl.run_ok [OF new_limiter_inv [OF b] g]) (rule good)
    then obtain b' m' hs where run: "gateway_run (backend_allow max_keys no_range) toy_digest no_range (root_gateway h) b m
        search_arrivals = Some (b', m', hs)" by blast
    note calls = search_calls [OF g]
    have "clients_apart toy_digest (map (fst \<circ> snd) search_arrivals)"
      using search_apart by (simp add: search_arrivals_def)
    moreover have "\<forall>(env, k, l) \<in> set (limiter_calls toy_digest (root_gateway h) search_arrivals). serves l"
      by (simp add: calls search_serves)
    moreover have "card (state_keys (limiter_calls toy_digest (root_gateway h) search_arrivals)) \<le> max_keys"
      by (simp add: calls state_keys_def max_keys_def)
    moreover have "(refused_call 100, ''/search:ip:10.0.0.1'', search_limit)
        \<in> set (limiter_calls toy_digest (root_gateway h) search_arrivals)"
      by (simp add: calls)
    moreover have "\<forall>t \<in> set (asked ''/search:ip:10.0.0.1'' (fallback_calls (limiter_calls toy_digest (root_gateway h) search_arrivals))).
        sliding_coh True search_limit t"
      by (simp add: calls fallback_calls_def refused_call_def process_time_coh)
    moreover have "sorted (map instant (asked ''/search:ip:10.0.0.1''
        (fallback_calls (limiter_calls toy_digest (root_gateway h) search_arrivals))))"
      by (simp add: calls fallback_calls_def refused_call_def)
    ultimately have "int (length (filter (\<lambda>t. 0 < instant t \<and> instant t \<le> 0 + window search_limit)
       (forwards_of toy_digest (root_gateway h) ''/search:ip:10.0.0.1'' search_arrivals hs))) \<le> rate search_limit"
      by (intro forwards_at_most_rate [OF example_config_ok mem s run _ _ _ _ search_limit_serves])
    with s run show ?thesis by blast
  qed
qed

lemma closed_lets_through:
  "lets_through oor (demo_gateway on_error_fail_closed) (\<lambda>n. demo_request ''/search/q'') w after_closed 0"
proof -
  have "length (flights after_closed) = 2" using closed_views by (metis length_map length_Cons list.size(3) numeral_2_eq_2)
  then have "phase (flights after_closed ! 0) = map phase (flights after_closed) ! 0" by simp
  then obtain d where d: "phase (flights after_closed ! 0) = Done (Inr d)" "allowed d" using closed_views by simp
  have r: "routed_entry (demo_gateway on_error_fail_closed) (demo_request ''/search/q'') = Some search_entry"
    by (rule search_routed [OF demo_gateway_ok(1)])
  then have "match (table (demo_gateway on_error_fail_closed)) (escaped_path (demo_request ''/search/q'')) = Some search_entry"
    by (simp add: routed_entry_Some)
  from forward_ok [OF demo_gateway_ok(1) this] show ?thesis
    using d r by (simp add: lets_through_def after_decision_def forwarded_def)
qed

lemma closed_serving:
  "serving toy_digest (demo_gateway on_error_fail_closed) (\<lambda>n. demo_request ''/search/q'') after_closed"
proof -
  have two: "length (flights after_closed) = 2" using closed_views by (metis length_map length_Cons list.size(3) numeral_2_eq_2)
  have "call_key (flights after_closed ! n) = search_bucket \<and> call_limit (flights after_closed ! n) = search_limit"
    if n: "n < length (flights after_closed)" for n
  proof -
    have "call_key (flights after_closed ! n) = map call_key (flights after_closed) ! n"
      "call_limit (flights after_closed ! n) = map call_limit (flights after_closed) ! n" using n by simp_all
    then show ?thesis using n two closed_views by (auto simp: less_2_cases_iff)
  qed
  then show ?thesis
    by (auto simp: serving_def search_routed [OF demo_gateway_ok(1)] search_asked search_bucket_def)
qed

theorem fail_closed_never_over_admits_witness:
  "lets_through no_range (demo_gateway on_error_fail_closed) (\<lambda>n. demo_request ''/search/q'') empty_writer after_closed 0 \<and>
   int (length (filter (\<lambda>(n, vis, x). 0 < x \<and> x \<le> 0 + script_window search_limit)
     (forwarded_runs toy_digest no_range (demo_gateway on_error_fail_closed) (\<lambda>n. demo_request ''/search/q'') empty_writer
        after_closed search_bucket closed_events))) \<le> rate search_limit"
proof -
  have w: "script_window search_limit = 10000000" by (simp add: script_window_def microsecond_def sdiv_pos)
  have "timed_calls after_closed search_bucket closed_events = [((''b'', None, 1700000000000000), 0), ((''a'', Some (1700000000000000, 1), 1700000000000001), 1)]"
    using closed_views by blast
  then have t: "lua_exact search_limit (map clock_at (timed_calls after_closed search_bucket closed_events))"
    "distinct (map stamp (timed_calls after_closed search_bucket closed_events))"
    "sorted_wrt only_loses (timed_calls after_closed search_bucket closed_events)"
    by (simp_all add: lua_exact_def w auth_burst only_loses_def sweep_of_def clock_at_def stamp_def)
  have p: "\<forall>e \<in> set closed_events. planned_arrival (\<lambda>k. search_limit) e"
    by (simp add: closed_events_def planned_arrival_def search_serves)
  have c: "\<forall>(cfg, x) \<in> set closed_gateways. on_error cfg = on_error_fail_closed" by (simp add: closed_gateways_def)
  show ?thesis
    using fail_closed_never_over_admits [OF demo_gateway_ok(2) c closed_run p closed_serving search_limit_serves
        search_serves(2) t, of 0 empty_writer] closed_lets_through
    by blast
qed

end
